(* ===== verification/Prelude.thy ===== *)
theory Prelude
  imports Main "HOL-Library.AList" "HOL-Library.Sublist"
begin

text \<open>
  Shared vocabulary of the development: Go strings and the \<^verbatim>\<open>strings\<close> and
  \<^verbatim>\<open>net\<close> functions the program calls, 64-bit durations and instants, finite Go maps,
  and the generic transition-system locale the concurrent components are instances of.
  Nothing here is specific to one component; the definitions model the language and its
  standard library, and the lemmas are the ones the component theories share.
\<close>

section \<open>Fact collections\<close>

named_theorems go_string
named_theorems go_map
named_theorems go_time

section \<open>Errors as values\<close>

text \<open>
  A Go function returning \<^verbatim>\<open>(T, error)\<close> returns \<open>Inr\<close> of the value or \<open>Inl\<close> of the error.
  \<open>bind_err\<close> is the check \<^verbatim>\<open>if err != nil { return err }\<close>, \<open>wrap_err\<close> the wrapping of an
  error on its way out.
\<close>

definition bind_err :: "'e + 'a \<Rightarrow> ('a \<Rightarrow> 'e + 'b) \<Rightarrow> 'e + 'b" where
  "bind_err m f = (case m of Inl e \<Rightarrow> Inl e | Inr x \<Rightarrow> f x)"

definition wrap_err :: "('e \<Rightarrow> 'f) \<Rightarrow> 'e + 'a \<Rightarrow> 'f + 'a" where
  "wrap_err w m = (case m of Inl e \<Rightarrow> Inl (w e) | Inr x \<Rightarrow> Inr x)"

named_theorems go_error

lemma bind_err_simps [simp]:
  "bind_err (Inl e) f = Inl e"
  "bind_err (Inr x) f = f x"
  by (simp_all add: bind_err_def)

lemma wrap_err_simps [simp]:
  "wrap_err w (Inl e) = Inl (w e)"
  "wrap_err w (Inr x) = Inr x"
  by (simp_all add: wrap_err_def)

lemma bind_err_Inr [go_error]: "bind_err m f = Inr y \<longleftrightarrow> (\<exists>x. m = Inr x \<and> f x = Inr y)"
  by (cases m) simp_all

lemma wrap_err_Inr [go_error]: "wrap_err w m = Inr x \<longleftrightarrow> m = Inr x"
  by (cases m) simp_all

section \<open>Strings\<close>

text \<open>Go strings are byte strings; \<^verbatim>\<open>string\<close> is a list of 8-bit characters.\<close>

definition has_prefix :: "string \<Rightarrow> string \<Rightarrow> bool" where
  "has_prefix s p \<longleftrightarrow> take (length p) s = p"

definition has_suffix :: "string \<Rightarrow> string \<Rightarrow> bool" where
  "has_suffix s p \<longleftrightarrow> length p \<le> length s \<and> drop (length s - length p) s = p"

definition trim_prefix :: "string \<Rightarrow> string \<Rightarrow> string" where
  "trim_prefix s p = (if has_prefix s p then drop (length p) s else s)"

definition trim_suffix :: "string \<Rightarrow> string \<Rightarrow> string" where
  "trim_suffix s p = (if has_suffix s p then take (length s - length p) s else s)"

text \<open>\<^verbatim>\<open>strings.Index\<close> with a one-character pattern; \<open>None\<close> is Go's \<open>-1\<close>.\<close>

fun index_char :: "string \<Rightarrow> char \<Rightarrow> nat option" where
  "index_char [] c = None"
| "index_char (x # xs) c = (if x = c then Some 0 else map_option Suc (index_char xs c))"

text \<open>\<^verbatim>\<open>bytealg.LastIndexByteString\<close>, as \<^verbatim>\<open>net.SplitHostPort\<close> uses it.\<close>

fun last_index_char :: "string \<Rightarrow> char \<Rightarrow> nat option" where
  "last_index_char [] c = None"
| "last_index_char (x # xs) c =
     (case last_index_char xs c of
        Some i \<Rightarrow> Some (Suc i)
      | None \<Rightarrow> (if x = c then Some 0 else None))"

text \<open>\<^verbatim>\<open>strings.Contains\<close>.\<close>

fun str_contains :: "string \<Rightarrow> string \<Rightarrow> bool" where
  "str_contains [] p \<longleftrightarrow> p = []"
| "str_contains (x # xs) p \<longleftrightarrow> has_prefix (x # xs) p \<or> str_contains xs p"

text \<open>\<^verbatim>\<open>strings.ReplaceAll\<close> for a pattern that is not empty (the only use).\<close>

function replace_all :: "string \<Rightarrow> string \<Rightarrow> string \<Rightarrow> string" where
  "replace_all s old new =
     (if s = [] \<or> old = [] then s
      else if has_prefix s old then new @ replace_all (drop (length old) s) old new
      else hd s # replace_all (tl s) old new)"
  by pat_completeness auto
termination
  by (relation "measure (\<lambda>(s, old, new). length s)") auto

declare replace_all.simps [simp del]

lemma has_prefix_append [simp, go_string]: "has_prefix (p @ s) p"
  by (simp add: has_prefix_def)

lemma has_suffix_append [simp, go_string]: "has_suffix (s @ p) p"
  by (simp add: has_suffix_def)

lemma has_prefixD: "has_prefix s p \<Longrightarrow> s = p @ drop (length p) s"
  by (metis append_take_drop_id has_prefix_def)

lemma has_suffixD: "has_suffix s p \<Longrightarrow> s = take (length s - length p) s @ p"
  by (metis append_take_drop_id has_suffix_def)

lemma has_suffix_iff: "has_suffix s p \<longleftrightarrow> (\<exists>r. s = r @ p)"
  by (metis has_suffixD has_suffix_append)

lemma has_prefix_iff: "has_prefix s p \<longleftrightarrow> (\<exists>r. s = p @ r)"
  by (metis has_prefixD has_prefix_append)

lemma trim_suffix_append [simp, go_string]: "trim_suffix (s @ p) p = s"
  by (simp add: trim_suffix_def)

lemma trim_prefix_append [simp, go_string]: "trim_prefix (p @ s) p = s"
  by (simp add: trim_prefix_def)

lemma trim_suffix_glue: "has_suffix s p \<Longrightarrow> trim_suffix s p @ p = s"
  by (auto simp: has_suffix_iff)

lemma trim_suffix_id: "\<not> has_suffix s p \<Longrightarrow> trim_suffix s p = s"
  by (simp add: trim_suffix_def)

lemma index_char_None [go_string]: "index_char s c = None \<longleftrightarrow> c \<notin> set s"
  by (induction s) auto

lemma index_char_Some:
  "index_char s c = Some i \<Longrightarrow>
     i < length s \<and> s ! i = c \<and> c \<notin> set (take i s) \<and> s = take i s @ c # drop (Suc i) s"
  by (induction s arbitrary: i) (auto split: if_splits)

lemma index_char_append [go_string]:
  "c \<notin> set s \<Longrightarrow> index_char (s @ c # t) c = Some (length s)"
  by (induction s) auto

lemma last_index_char_None [go_string]: "last_index_char s c = None \<longleftrightarrow> c \<notin> set s"
  by (induction s) (auto split: option.splits)

lemma last_index_char_Some:
  "last_index_char s c = Some i \<Longrightarrow>
     i < length s \<and> s = take i s @ c # drop (Suc i) s \<and> c \<notin> set (drop (Suc i) s)"
proof (induction s arbitrary: i)
  case Nil
  then show ?case by simp
next
  case (Cons x xs)
  then show ?case
    by (cases "last_index_char xs c")
      (auto split: if_splits simp: last_index_char_None)
qed

lemma last_index_char_append [go_string]:
  "c \<notin> set t \<Longrightarrow> last_index_char (s @ c # t) c = Some (length s)"
proof (induction s)
  case Nil
  then have "last_index_char t c = None" by (simp add: last_index_char_None)
  then show ?case by simp
next
  case (Cons x s)
  then show ?case by simp
qed

lemma replace_all_Nil [simp, go_string]: "replace_all [] old new = []"
  by (simp add: replace_all.simps)

lemma replace_all_absent:
  assumes "\<not> str_contains s old"
  shows "replace_all s old new = s"
  using assms
proof (induction s)
  case Nil
  then show ?case by simp
next
  case (Cons x s)
  then show ?case by (simp add: replace_all.simps [of "x # s"])
qed

text \<open>\<^verbatim>\<open>%d\<close> of a number that is not negative.\<close>

fun show_nat :: "nat \<Rightarrow> string" where
  "show_nat n = (if n < 10 then [] else show_nat (n div 10)) @ [char_of (48 + n mod 10)]"

declare show_nat.simps [simp del]

section \<open>Durations and instants\<close>

text \<open>
  \<^verbatim>\<open>time.Duration\<close> is an int64 count of nanoseconds: \<open>int\<close>, with the wrap-around of the
  arithmetic written out by \<open>wrap64\<close>. \<^verbatim>\<open>time.Time\<close> is an instant in nanoseconds relative to
  the Unix epoch; Go's zero time is midnight, January 1, year 1. \<^verbatim>\<open>Time.Sub\<close> saturates at
  the limits of a duration.
\<close>

type_synonym duration = int
type_synonym instant = int

definition int64_max :: int where
  "int64_max = 9223372036854775807"

definition int64_min :: int where
  "int64_min = - 9223372036854775808"

definition wrap64 :: "int \<Rightarrow> int" where
  "wrap64 x = (x + 9223372036854775808) mod 18446744073709551616 - 9223372036854775808"

definition second :: duration where
  "second = 1000000000"

definition zero_time :: instant where
  "zero_time = - 62135596800 * 1000000000"

definition time_sub :: "instant \<Rightarrow> instant \<Rightarrow> duration" where
  "time_sub t u = max int64_min (min int64_max (t - u))"

definition time_before :: "instant \<Rightarrow> instant \<Rightarrow> bool" where
  "time_before t u \<longleftrightarrow> t < u"

definition time_add :: "instant \<Rightarrow> duration \<Rightarrow> instant" where
  "time_add t d = t + d"

lemma wrap64_id [go_time]: "int64_min \<le> x \<Longrightarrow> x \<le> int64_max \<Longrightarrow> wrap64 x = x"
  by (simp add: wrap64_def int64_min_def int64_max_def)

lemma wrap64_range: "int64_min \<le> wrap64 x \<and> wrap64 x \<le> int64_max"
proof -
  let ?r = "(x + 9223372036854775808) mod 18446744073709551616"
  have "0 \<le> ?r" by (rule pos_mod_sign) simp
  moreover have "?r < 18446744073709551616" by (rule pos_mod_bound) simp
  ultimately show ?thesis
    unfolding wrap64_def int64_min_def int64_max_def by linarith
qed

lemma time_sub_range: "int64_min \<le> time_sub t u \<and> time_sub t u \<le> int64_max"
  by (simp add: time_sub_def int64_min_def int64_max_def)

lemma time_sub_less_iff:
  "int64_min < d \<Longrightarrow> d \<le> int64_max \<Longrightarrow> time_sub t u < d \<longleftrightarrow> t - u < d"
  by (auto simp: time_sub_def)

section \<open>Lists updated by index\<close>

lemma length_filter_update:
  "i < length xs \<Longrightarrow>
   length (filter P (xs[i := y])) + (if P (xs ! i) then 1 else 0)
     = length (filter P xs) + (if P y then 1 else (0 :: nat))"
proof (induction xs arbitrary: i)
  case Nil
  then show ?case by simp
next
  case (Cons x xs)
  then show ?case by (cases i) auto
qed

section \<open>Go maps\<close>

text \<open>
  A Go map is finite, and its length and its iteration are observable. It is an association
  list with distinct keys: \<open>map_of\<close> looks a key up, \<open>AList.update\<close> stores, \<open>AList.delete\<close>
  deletes, and the list's order stands for the order in which a \<^verbatim>\<open>range\<close> visits the map.
  Go leaves that order open; a theorem here quantifies over every association list, hence
  over every order.
\<close>

type_synonym 'v gomap = "(string \<times> 'v) list"

definition gm_ok :: "'v gomap \<Rightarrow> bool" where
  "gm_ok m \<longleftrightarrow> distinct (map fst m)"

definition gm_keys :: "'v gomap \<Rightarrow> string set" where
  "gm_keys m = fst ` set m"

lemma gm_ok_Nil [simp, go_map]: "gm_ok []"
  by (simp add: gm_ok_def)

lemma gm_ok_update [simp, go_map]: "gm_ok m \<Longrightarrow> gm_ok (AList.update k v m)"
  by (simp add: gm_ok_def distinct_update)

lemma gm_ok_delete [simp, go_map]: "gm_ok m \<Longrightarrow> gm_ok (AList.delete k m)"
  by (simp add: gm_ok_def distinct_delete)

lemma gm_keys_Nil [simp, go_map]: "gm_keys [] = {}"
  by (simp add: gm_keys_def)

lemma gm_keys_update [simp, go_map]: "gm_keys (AList.update k v m) = insert k (gm_keys m)"
  by (simp add: gm_keys_def dom_update image_image [symmetric] flip: dom_map_of_conv_image_fst)
    (auto simp: update_conv')

lemma gm_keys_delete [simp, go_map]: "gm_keys (AList.delete k m) = gm_keys m - {k}"
  by (auto simp: gm_keys_def delete_conv' simp flip: dom_map_of_conv_image_fst split: if_splits)

lemma map_of_update [simp, go_map]:
  "map_of (AList.update k v m) k' = (if k' = k then Some v else map_of m k')"
  by (simp add: update_conv')

lemma map_of_delete [simp, go_map]:
  "map_of (AList.delete k m) k' = (if k' = k then None else map_of m k')"
  by (auto simp: delete_conv' restrict_map_def)

lemma gm_keys_map_of: "k \<in> gm_keys m \<longleftrightarrow> map_of m k \<noteq> None"
  by (auto simp: gm_keys_def simp flip: dom_map_of_conv_image_fst)

lemma gm_keys_mem [go_map]: "map_of m k = Some v \<Longrightarrow> k \<in> gm_keys m"
  by (simp add: gm_keys_map_of)

lemma map_of_None_keys [go_map]: "map_of m k = None \<longleftrightarrow> k \<notin> gm_keys m"
  by (simp add: gm_keys_map_of)

lemma gm_len: "gm_ok m \<Longrightarrow> length m = card (gm_keys m)"
  by (metis distinct_card gm_keys_def gm_ok_def length_map set_map)

section \<open>Transition systems\<close>

text \<open>
  The concurrent components are step relations over a state; a safety property is an
  inductive invariant. The locale is the contract between a component (which proves the
  two laws for its own steps) and its safety theorems (which use reachability only).
\<close>

inductive reach :: "('s \<Rightarrow> bool) \<Rightarrow> ('s \<Rightarrow> 's \<Rightarrow> bool) \<Rightarrow> 's \<Rightarrow> bool"
  for init :: "'s \<Rightarrow> bool" and step :: "'s \<Rightarrow> 's \<Rightarrow> bool" where
  reach_init: "init s \<Longrightarrow> reach init step s"
| reach_step: "reach init step s \<Longrightarrow> step s t \<Longrightarrow> reach init step t"

locale transition_invariant =
  fixes init :: "'s \<Rightarrow> bool"
    and step :: "'s \<Rightarrow> 's \<Rightarrow> bool"
    and inv :: "'s \<Rightarrow> bool"
  assumes inv_init: "init s \<Longrightarrow> inv s"
    and inv_step: "inv s \<Longrightarrow> step s t \<Longrightarrow> inv t"
begin

lemma inv_reach: "reach init step s \<Longrightarrow> inv s"
  by (induction rule: reach.induct) (auto intro: inv_init inv_step)

lemma inv_steps: "inv s \<Longrightarrow> step\<^sup>*\<^sup>* s t \<Longrightarrow> inv t"
  by (rotate_tac, induction rule: rtranclp_induct) (auto intro: inv_step)

end

lemma reach_steps: "reach init step s \<Longrightarrow> step\<^sup>*\<^sup>* s t \<Longrightarrow> reach init step t"
  by (rotate_tac, induction rule: rtranclp_induct) (auto intro: reach_step)

section \<open>Runs and progress\<close>

text \<open>
  A run executes labels one after the other; \<open>None\<close> is a label that does not fit. A system makes
  progress when, away from its goal, some allowed label lowers a rank: then the goal can be reached
  by allowed labels from everywhere.
\<close>

fun runs :: "('l \<Rightarrow> 's \<Rightarrow> 's option) \<Rightarrow> 'l list \<Rightarrow> 's \<Rightarrow> 's option" where
  "runs exec [] s = Some s"
| "runs exec (l # ls) s = (case exec l s of None \<Rightarrow> None | Some t \<Rightarrow> runs exec ls t)"

lemma runs_append: "runs exec (ls @ ms) s = (case runs exec ls s of None \<Rightarrow> None | Some t \<Rightarrow> runs exec ms t)"
  by (induction ls arbitrary: s) (simp_all split: option.split)

locale progress =
  fixes exec :: "'l \<Rightarrow> 's \<Rightarrow> 's option"
    and allowed :: "'l \<Rightarrow> bool"
    and inv :: "'s \<Rightarrow> bool"
    and goal :: "'s \<Rightarrow> bool"
    and rank :: "'s \<Rightarrow> nat"
  assumes step: "inv s \<Longrightarrow> \<not> goal s \<Longrightarrow> \<exists>l t. allowed l \<and> exec l s = Some t \<and> inv t \<and> rank t < rank s"
begin

lemma goal_reachable:
  "inv s \<Longrightarrow> \<exists>ls t. list_all allowed ls \<and> length ls \<le> rank s \<and> runs exec ls s = Some t \<and> inv t \<and> goal t"
proof (induction "rank s" arbitrary: s rule: less_induct)
  case less
  show ?case
  proof (cases "goal s")
    case True
    then show ?thesis using less.prems by (intro exI [of _ "[]"] exI [of _ s]) simp
  next
    case False
    from step [OF less.prems False] obtain l t
      where l: "allowed l" "exec l s = Some t" "inv t" "rank t < rank s" by blast
    from less.hyps [OF l(4,3)] obtain ls u
      where ls: "list_all allowed ls" "length ls \<le> rank t" "runs exec ls t = Some u" "inv u" "goal u" by blast
    show ?thesis
      by (intro exI [of _ "l # ls"] exI [of _ u]) (use l ls in simp)
  qed
qed

end

section \<open>Registries\<close>

text \<open>
  The state manager and the restarter both keep one entry per registered unit, and the daemon
  drives both with the same calls: registering a unit installs a fresh entry, whatever was
  there, and unregistering removes it. The locale is that shared contract.
\<close>

datatype 'p reg_op = Register string 'p | Unregister string

fun op_unit :: "'p reg_op \<Rightarrow> string" where
  "op_unit (Register u p) = u"
| "op_unit (Unregister u) = u"

locale registry =
  fixes lookup :: "'m \<Rightarrow> string \<Rightarrow> 'v option"
    and register :: "string \<Rightarrow> 'p \<Rightarrow> 'm \<Rightarrow> 'm"
    and unregister :: "string \<Rightarrow> 'm \<Rightarrow> 'm"
    and entry :: "string \<Rightarrow> 'p \<Rightarrow> 'v"
    and ok :: "'m \<Rightarrow> bool"
  assumes ok_register: "ok m \<Longrightarrow> ok (register u p m)"
    and ok_unregister: "ok m \<Longrightarrow> ok (unregister u m)"
    and lookup_register:
      "ok m \<Longrightarrow> lookup (register u p m) v = (if v = u then Some (entry u p) else lookup m v)"
    and lookup_unregister:
      "ok m \<Longrightarrow> lookup (unregister u m) v = (if v = u then None else lookup m v)"
begin

definition apply_op :: "'p reg_op \<Rightarrow> 'm \<Rightarrow> 'm" where
  "apply_op c m = (case c of Register u p \<Rightarrow> register u p m | Unregister u \<Rightarrow> unregister u m)"

definition result :: "'p reg_op \<Rightarrow> 'v option" where
  "result c = (case c of Register u p \<Rightarrow> Some (entry u p) | Unregister u \<Rightarrow> None)"

lemma apply_op_ok: "ok m \<Longrightarrow> ok (apply_op c m)"
  by (simp add: apply_op_def ok_register ok_unregister split: reg_op.split)

lemma lookup_apply_op:
  "ok m \<Longrightarrow> lookup (apply_op c m) v = (if v = op_unit c then result c else lookup m v)"
  by (cases c) (simp_all add: apply_op_def result_def lookup_register lookup_unregister)

lemma fold_ok: "ok m \<Longrightarrow> ok (fold apply_op cs m)"
  by (induction cs arbitrary: m) (simp_all add: apply_op_ok)

text \<open>Operations on other units do not matter; the last one on a unit decides its entry.\<close>

lemma lookup_fold_frame:
  "ok m \<Longrightarrow> (\<And>c. c \<in> set cs \<Longrightarrow> op_unit c \<noteq> v) \<Longrightarrow> lookup (fold apply_op cs m) v = lookup m v"
proof (induction cs arbitrary: m)
  case Nil
  then show ?case by simp
next
  case (Cons c cs)
  have "lookup (fold apply_op cs (apply_op c m)) v = lookup (apply_op c m) v"
    by (rule Cons.IH) (use Cons.prems apply_op_ok in auto)
  moreover have "v \<noteq> op_unit c" using Cons.prems(2) by force
  ultimately show ?case using Cons.prems(1) by (simp add: lookup_apply_op)
qed

lemma lookup_fold_last:
  assumes "ok m" and "\<And>c. c \<in> set ds \<Longrightarrow> op_unit c \<noteq> op_unit c0"
  shows "lookup (fold apply_op (cs @ c0 # ds) m) (op_unit c0) = result c0"
proof -
  have "ok (apply_op c0 (fold apply_op cs m))" by (intro apply_op_ok fold_ok assms(1))
  from lookup_fold_frame [OF this assms(2)] show ?thesis
    by (simp add: lookup_apply_op fold_ok assms(1))
qed

lemma reregister: "ok m \<Longrightarrow> lookup (register u p (unregister u m)) v = lookup (register u p m) v"
  by (simp add: lookup_register lookup_unregister ok_unregister)

end

end
