(* ===== verification/Config.thy ===== *)
theory Config
  imports Prelude
begin

text \<open>
  The configuration data of \<^verbatim>\<open>internal/config/config.go\<close>: the structs as records (a pointer
  field is an \<open>option\<close>), and the pure methods of a unit entry: its full name, its template
  prefix and instance pattern, and the health checks of one template instance. The compiled
  regular expression of a template is represented by its source text; what it matches is a
  parameter of the definitions that use it.
\<close>

section \<open>Health checks and restart policies\<close>

record tcp_health_check =
  tcp_address :: string

record http_health_check =
  http_address :: string
  http_method :: string
  http_expected_status :: int
  http_response_match :: string
  http_headers :: "string gomap"

record unix_health_check =
  unix_address :: string

record script_health_check =
  script_command :: string

record health_check =
  hc_type :: string
  hc_interval :: duration
  hc_timeout :: duration
  hc_retries :: int
  hc_tcp :: "tcp_health_check option"
  hc_http :: "http_health_check option"
  hc_unix :: "unix_health_check option"
  hc_script :: "script_health_check option"

record restart_policy =
  rp_enabled :: bool
  rp_backoff :: duration
  rp_cooldown :: duration

section \<open>Units, listeners, notifications\<close>

record unit_config =
  uc_name :: string
  uc_type :: string
  uc_enabled :: "bool option"
  uc_critical :: bool
  uc_priority :: int
  uc_depends_on :: "string list"
  uc_grace_period :: duration
  uc_max_delay :: duration
  uc_health_checks :: "health_check list"
  uc_restart :: "restart_policy option"
  uc_instance_match :: "string option"

record socket_activation_config =
  sa_unit :: string
  sa_name :: string
  sa_listen :: string
  sa_protocol :: "string list"
  sa_backend :: string
  sa_startup_timeout :: duration
  sa_idle_timeout :: duration
  sa_health_checks :: "health_check list"
  sa_restart :: "restart_policy option"

record http_config =
  ht_listen :: string
  ht_read_timeout :: duration
  ht_write_timeout :: duration
  ht_shutdown_timeout :: duration

record exec_config =
  ec_command :: string
  ec_timeout :: duration
  ec_events :: "string list"

record webhook_config =
  wh_url :: string
  wh_timeout :: duration
  wh_events :: "string list"

record script_config =
  sc_path :: string
  sc_timeout :: duration
  sc_events :: "string list"

record notify_config =
  nc_variables :: "string gomap"
  nc_webhooks :: "webhook_config list"
  nc_scripts :: "script_config list"
  nc_execs :: "exec_config list"

record config =
  cfg_log_level :: string
  cfg_units :: "unit_config list"
  cfg_notify :: notify_config
  cfg_socket :: string
  cfg_discovery_interval :: duration
  cfg_http :: http_config
  cfg_socket_activation :: "socket_activation_config list"

section \<open>Names of units\<close>

definition default_priority :: int where
  "default_priority = 999"

definition is_enabled :: "unit_config \<Rightarrow> bool" where
  "is_enabled u = (case uc_enabled u of None \<Rightarrow> True | Some b \<Rightarrow> b)"

text \<open>The part of a name after the first \<^verbatim>\<open>@\<close>, when there is one.\<close>

definition after_at :: "string \<Rightarrow> string option" where
  "after_at name = map_option (\<lambda>i. drop (Suc i) name) (index_char name CHR ''@'')"

definition is_template :: "unit_config \<Rightarrow> bool" where
  "is_template u =
     (case after_at (uc_name u) of
        None \<Rightarrow> False
      | Some after \<Rightarrow> after = [] \<or> (has_prefix after ''{'' \<and> has_suffix after ''}''))"

definition unit_name :: "unit_config \<Rightarrow> string" where
  "unit_name u = uc_name u @ ''.'' @ uc_type u"

definition template_prefix :: "unit_config \<Rightarrow> string" where
  "template_prefix u =
     (if \<not> is_template u then []
      else case index_char (uc_name u) CHR ''@'' of
             None \<Rightarrow> []
           | Some i \<Rightarrow> take (Suc i) (uc_name u))"

text \<open>The slice \<^verbatim>\<open>after[1 : len(after)-1]\<close>; \<open>None\<close> is the run-time panic of an invalid slice.\<close>

definition inner_slice :: "string \<Rightarrow> string option" where
  "inner_slice after = (if 2 \<le> length after then Some (butlast (tl after)) else None)"

definition instance_pattern :: "unit_config \<Rightarrow> string option" where
  "instance_pattern u =
     (if \<not> is_template u then Some []
      else case after_at (uc_name u) of
             None \<Rightarrow> Some []
           | Some after \<Rightarrow>
               if \<not> has_prefix after ''{'' \<or> \<not> has_suffix after ''}'' then Some []
               else inner_slice after)"

definition match_instance :: "(string \<Rightarrow> string \<Rightarrow> bool) \<Rightarrow> unit_config \<Rightarrow> string \<Rightarrow> bool" where
  "match_instance re_match u inst =
     (case uc_instance_match u of None \<Rightarrow> True | Some re \<Rightarrow> re_match re inst)"

section \<open>Health checks of a template instance\<close>

definition instance_placeholder :: string where
  "instance_placeholder = ''{{instance}}''"

definition subst_instance :: "string \<Rightarrow> string \<Rightarrow> string" where
  "subst_instance inst s = replace_all s instance_placeholder inst"

definition resolve_health_check :: "string \<Rightarrow> health_check \<Rightarrow> health_check" where
  "resolve_health_check inst hc =
     (case hc_tcp hc of
        Some c \<Rightarrow> hc\<lparr>hc_tcp := Some (c\<lparr>tcp_address := subst_instance inst (tcp_address c)\<rparr>)\<rparr>
      | None \<Rightarrow>
     (case hc_http hc of
        Some c \<Rightarrow> hc\<lparr>hc_http := Some (c\<lparr>http_address := subst_instance inst (http_address c)\<rparr>)\<rparr>
      | None \<Rightarrow>
     (case hc_unix hc of
        Some c \<Rightarrow> hc\<lparr>hc_unix := Some (c\<lparr>unix_address := subst_instance inst (unix_address c)\<rparr>)\<rparr>
      | None \<Rightarrow>
     (case hc_script hc of
        Some c \<Rightarrow> hc\<lparr>hc_script := Some (c\<lparr>script_command := subst_instance inst (script_command c)\<rparr>)\<rparr>
      | None \<Rightarrow> hc))))"

definition resolve_health_checks :: "unit_config \<Rightarrow> string \<Rightarrow> health_check list" where
  "resolve_health_checks u inst =
     (if uc_health_checks u = [] then []
      else map (resolve_health_check inst) (uc_health_checks u))"

section \<open>Lemmas\<close>

lemma has_prefix_single: "has_prefix s [c] \<longleftrightarrow> (\<exists>t. s = c # t)"
  by (auto simp: has_prefix_iff)

lemma has_suffix_single: "has_suffix s [c] \<longleftrightarrow> (\<exists>t. s = t @ [c])"
  by (auto simp: has_suffix_iff)

text \<open>The slice of a braced pattern is never out of range.\<close>

lemma braces_inner_slice:
  assumes "has_prefix s ''{''" and "has_suffix s ''}''"
  shows "\<exists>p. inner_slice s = Some p \<and> s = ''{'' @ p @ ''}''"
proof -
  from assms(1) obtain t where t: "s = CHR ''{'' # t" by (auto simp: has_prefix_single)
  from assms(2) obtain r where r: "s = r @ ''}''" by (auto simp: has_suffix_single)
  with t have "t \<noteq> []" by (cases r) auto
  with t r have "t = butlast t @ ''}''"
    by (metis append_butlast_last_id last_ConsR last_snoc)
  with t \<open>t \<noteq> []\<close> show ?thesis by (cases t) (auto simp: inner_slice_def)
qed

lemma instance_pattern_total: "instance_pattern u \<noteq> None"
  using braces_inner_slice
  by (force simp: instance_pattern_def split: option.splits)

lemma template_prefix_at:
  assumes "is_template u"
  shows "\<exists>base after. uc_name u = base @ ''@'' @ after \<and> CHR ''@'' \<notin> set base
           \<and> template_prefix u = base @ ''@''
           \<and> (after = [] \<or> (\<exists>p. after = ''{'' @ p @ ''}'' \<and> instance_pattern u = Some p))"
proof -
  from assms obtain i where i: "index_char (uc_name u) CHR ''@'' = Some i"
    by (auto simp: is_template_def after_at_def split: option.splits)
  define base where "base = take i (uc_name u)"
  define after where "after = drop (Suc i) (uc_name u)"
  from index_char_Some [OF i] have name: "uc_name u = base @ ''@'' @ after"
    and free: "CHR ''@'' \<notin> set base" and i_len: "length base = i"
    by (auto simp: base_def after_def)
  have "template_prefix u = base @ ''@''"
    using assms i i_len by (simp add: template_prefix_def name)
  moreover have "after = [] \<or> (has_prefix after ''{'' \<and> has_suffix after ''}'')"
    using assms i by (simp add: is_template_def after_at_def after_def)
  moreover have "\<exists>p. after = ''{'' @ p @ ''}'' \<and> instance_pattern u = Some p"
    if "has_prefix after ''{''" and "has_suffix after ''}''"
    using braces_inner_slice [OF that] that assms i
    by (auto simp: instance_pattern_def after_at_def after_def [symmetric])
  ultimately show ?thesis using name free by blast
qed

lemma resolve_health_check_frame [simp]:
  "hc_type (resolve_health_check inst hc) = hc_type hc"
  "hc_interval (resolve_health_check inst hc) = hc_interval hc"
  "hc_timeout (resolve_health_check inst hc) = hc_timeout hc"
  "hc_retries (resolve_health_check inst hc) = hc_retries hc"
  by (simp_all add: resolve_health_check_def split: option.splits)

lemma length_resolve_health_checks [simp]:
  "length (resolve_health_checks u inst) = length (uc_health_checks u)"
  by (simp add: resolve_health_checks_def)

end
