(* ===== verification/ConfigParse.thy ===== *)
theory ConfigParse
  imports Config
begin

text \<open>
  From YAML nodes to configuration entries (\<^verbatim>\<open>parseUnitKey\<close>, \<^verbatim>\<open>parseUnits\<close>,
  \<^verbatim>\<open>parseSocketActivation\<close>, \<^verbatim>\<open>socketActivationName\<close> of
  \<^verbatim>\<open>internal/config/config.go\<close>). The YAML library is not part of the repository: a node is
  what the code reads of one (kind, value, content), and decoding a value node into a struct
  is the parameter \<open>decode\<close>. Every error return is a constructor of \<open>config_error\<close>;
  \<open>RuntimePanic\<close> is a Go run-time panic (an invalid slice).
\<close>

section \<open>YAML nodes and errors\<close>

text \<open>\<open>ZeroKind\<close> is the kind 0 of a node that was absent from the document.\<close>

datatype yaml_kind =
  ZeroKind | DocumentNode | SequenceNode | MappingNode | ScalarNode | AliasNode

datatype yaml_node =
  YamlNode (node_kind: yaml_kind) (node_value: string) (node_content: "yaml_node list")

datatype config_error =
    EmptyUnitName string
  | BadUnitSuffix string
  | UnitsNotMap yaml_kind
  | InvalidUnitsMap
  | DuplicateUnit string
  | DecodingUnit string string
  | SocketActivationNotMap yaml_kind
  | InvalidSocketActivationMap
  | EmptySocketUnit
  | DuplicateSocketUnit string
  | DecodingSocketActivation string string
  | MaxDelayNotTimer string
  | EmptyInstancePattern string
  | InvalidInstancePattern string string
  | UnknownDependency string string
  | CircularDependency string
  | DuplicateListener string string
  | RuntimePanic

section \<open>Unit keys\<close>

definition parse_unit_key :: "string \<Rightarrow> config_error + (string \<times> string)" where
  "parse_unit_key key =
     (if has_suffix key ''.service'' then
        (let name = trim_suffix key ''.service'' in
         if name = [] then Inl (EmptyUnitName key) else Inr (name, ''service''))
      else if has_suffix key ''.timer'' then
        (let name = trim_suffix key ''.timer'' in
         if name = [] then Inl (EmptyUnitName key) else Inr (name, ''timer''))
      else Inl (BadUnitSuffix key))"

section \<open>The units map\<close>

text \<open>
  The loop over the content list, two nodes at a time. \<open>seen\<close> is the set of keys met so far.
  The last equation is a list of odd length, which the caller has excluded.
\<close>

fun parse_units_loop ::
  "(yaml_node \<Rightarrow> string + unit_config) \<Rightarrow> string set \<Rightarrow> yaml_node list \<Rightarrow>
     config_error + unit_config list" where
  "parse_units_loop decode seen (k # v # rest) =
     (let key = node_value k in
      if key \<in> seen then Inl (DuplicateUnit key)
      else case parse_unit_key key of
             Inl e \<Rightarrow> Inl e
           | Inr (name, ty) \<Rightarrow>
        (case decode v of
           Inl e \<Rightarrow> Inl (DecodingUnit key e)
         | Inr u \<Rightarrow>
        (case parse_units_loop decode (insert key seen) rest of
           Inl e \<Rightarrow> Inl e
         | Inr us \<Rightarrow> Inr (u\<lparr>uc_name := name, uc_type := ty\<rparr> # us))))"
| "parse_units_loop decode seen [] = Inr []"
| "parse_units_loop decode seen [k] = Inl InvalidUnitsMap"

definition parse_units ::
  "(yaml_node \<Rightarrow> string + unit_config) \<Rightarrow> yaml_node \<Rightarrow> config_error + unit_config list" where
  "parse_units decode node =
     (if node_kind node = ZeroKind then Inr []
      else if node_kind node \<noteq> MappingNode then Inl (UnitsNotMap (node_kind node))
      else if odd (length (node_content node)) then Inl InvalidUnitsMap
      else parse_units_loop decode {} (node_content node))"

section \<open>The socket activation map\<close>

definition socket_activation_name :: "string \<Rightarrow> string" where
  "socket_activation_name unit =
     (let name = trim_suffix (trim_suffix unit ''.service'') ''.timer'' in
      case index_char name CHR ''@'' of
        None \<Rightarrow> name
      | Some i \<Rightarrow>
          let inst = drop (Suc i) name in
          if inst \<noteq> [] then inst else take i name)"

fun parse_socket_activation_loop ::
  "(yaml_node \<Rightarrow> string + socket_activation_config) \<Rightarrow> string set \<Rightarrow> yaml_node list \<Rightarrow>
     config_error + socket_activation_config list" where
  "parse_socket_activation_loop decode seen (k # v # rest) =
     (let unit = node_value k in
      if unit = [] then Inl EmptySocketUnit
      else if unit \<in> seen then Inl (DuplicateSocketUnit unit)
      else case decode v of
             Inl e \<Rightarrow> Inl (DecodingSocketActivation unit e)
           | Inr s \<Rightarrow>
        (case parse_socket_activation_loop decode (insert unit seen) rest of
           Inl e \<Rightarrow> Inl e
         | Inr es \<Rightarrow> Inr (s\<lparr>sa_unit := unit, sa_name := socket_activation_name unit\<rparr> # es)))"
| "parse_socket_activation_loop decode seen [] = Inr []"
| "parse_socket_activation_loop decode seen [k] = Inl InvalidSocketActivationMap"

definition parse_socket_activation ::
  "(yaml_node \<Rightarrow> string + socket_activation_config) \<Rightarrow> yaml_node \<Rightarrow>
     config_error + socket_activation_config list" where
  "parse_socket_activation decode node =
     (if node_kind node = ZeroKind then Inr []
      else if node_kind node \<noteq> MappingNode then Inl (SocketActivationNotMap (node_kind node))
      else if odd (length (node_content node)) then Inl InvalidSocketActivationMap
      else parse_socket_activation_loop decode {} (node_content node))"

section \<open>Keys of a mapping\<close>

text \<open>The keys and the values of a mapping node, in document order.\<close>

fun node_keys :: "yaml_node list \<Rightarrow> string list" where
  "node_keys (k # v # rest) = node_value k # node_keys rest"
| "node_keys _ = []"

fun node_values :: "yaml_node list \<Rightarrow> yaml_node list" where
  "node_values (k # v # rest) = v # node_values rest"
| "node_values _ = []"

lemma parse_unit_key_Inr:
  assumes "parse_unit_key key = Inr (name, ty)"
  shows "name @ ''.'' @ ty = key" and "name \<noteq> []" and "ty = ''service'' \<or> ty = ''timer''"
proof -
  consider "has_suffix key ''.service''" | "\<not> has_suffix key ''.service''" "has_suffix key ''.timer''"
    using assms by (auto simp: parse_unit_key_def split: if_splits)
  then have "name @ ''.'' @ ty = key \<and> name \<noteq> [] \<and> (ty = ''service'' \<or> ty = ''timer'')"
  proof cases
    case 1
    with assms trim_suffix_glue [OF 1] show ?thesis
      by (auto simp: parse_unit_key_def Let_def split: if_splits)
  next
    case 2
    with assms trim_suffix_glue [OF 2(2)] show ?thesis
      by (auto simp: parse_unit_key_def Let_def split: if_splits)
  qed
  then show "name @ ''.'' @ ty = key" "name \<noteq> []" "ty = ''service'' \<or> ty = ''timer''"
    by blast+
qed

lemma not_service_timer: "\<not> has_suffix (name @ ''.timer'') ''.service''"
proof
  assume "has_suffix (name @ ''.timer'') ''.service''"
  then obtain r where "name @ ''.timer'' = r @ ''.service''"
    by (auto simp: has_suffix_iff)
  then have "last (name @ ''.timer'') = last (r @ ''.service'')" by metis
  then show False by simp
qed

lemma parse_unit_key_service: "name \<noteq> [] \<Longrightarrow> parse_unit_key (name @ ''.service'') = Inr (name, ''service'')"
  by (simp add: parse_unit_key_def del: append_eq_append_conv)

lemma parse_unit_key_timer: "name \<noteq> [] \<Longrightarrow> parse_unit_key (name @ ''.timer'') = Inr (name, ''timer'')"
  by (simp add: parse_unit_key_def not_service_timer)

text \<open>Two entries with the same name and type have the same key.\<close>

lemma unit_name_inj:
  assumes "t1 \<in> {''service'', ''timer''}" and "t2 \<in> {''service'', ''timer''}"
    and "n1 @ ''.'' @ t1 = n2 @ ''.'' @ t2"
  shows "n1 = n2 \<and> t1 = t2"
proof -
  have last: "last (n1 @ ''.'' @ t1) = last (n2 @ ''.'' @ t2)" using assms(3) by simp
  from assms(1,2) last have "t1 = t2" by auto
  with assms(3) show ?thesis by simp
qed

text \<open>One successful round of the loop.\<close>

lemma parse_units_loop_stepE:
  assumes "parse_units_loop decode seen (k # v # rest) = Inr us"
  obtains name ty u us' where "node_value k \<notin> seen"
    and "parse_unit_key (node_value k) = Inr (name, ty)" and "decode v = Inr u"
    and "parse_units_loop decode (insert (node_value k) seen) rest = Inr us'"
    and "us = u\<lparr>uc_name := name, uc_type := ty\<rparr> # us'"
  using assms by (auto simp: Let_def split: if_splits sum.splits prod.splits)

lemma parse_units_loop_names:
  assumes "parse_units_loop decode seen ns = Inr us"
  shows "map unit_name us = node_keys ns"
  using assms
proof (induction decode seen ns arbitrary: us rule: parse_units_loop.induct)
  case (1 decode seen k v rest)
  then show ?case
    by (auto simp: Let_def unit_name_def dest: parse_unit_key_Inr(1)
        split: if_splits sum.splits prod.splits)
qed auto

lemma parse_units_loop_fresh:
  assumes "parse_units_loop decode seen ns = Inr us"
  shows "distinct (node_keys ns) \<and> set (node_keys ns) \<inter> seen = {}"
  using assms
proof (induction decode seen ns arbitrary: us rule: parse_units_loop.induct)
  case (1 decode seen k v rest)
  from "1.prems" obtain name ty u us' where
    key: "node_value k \<notin> seen" "parse_unit_key (node_value k) = Inr (name, ty)" "decode v = Inr u"
    and rest: "parse_units_loop decode (insert (node_value k) seen) rest = Inr us'"
    by (rule parse_units_loop_stepE)
  from "1.IH" [OF refl key(1,2) refl key(3) rest] key(1) show ?case by auto
qed auto

lemma parse_units_loop_entries:
  assumes "parse_units_loop decode seen ns = Inr us" and "u \<in> set us"
  shows "uc_name u \<noteq> [] \<and> uc_type u \<in> {''service'', ''timer''}"
  using assms
proof (induction decode seen ns arbitrary: us rule: parse_units_loop.induct)
  case (1 decode seen k v rest)
  from "1.prems"(1) obtain name ty u' us' where
    key: "node_value k \<notin> seen" "parse_unit_key (node_value k) = Inr (name, ty)" "decode v = Inr u'"
    and rest: "parse_units_loop decode (insert (node_value k) seen) rest = Inr us'"
    and us: "us = u'\<lparr>uc_name := name, uc_type := ty\<rparr> # us'"
    by (rule parse_units_loop_stepE)
  show ?case
    using "1.IH" [OF refl key(1,2) refl key(3) rest] "1.prems"(2) us parse_unit_key_Inr(2,3) [OF key(2)]
    by auto
qed auto

text \<open>What makes the loop succeed: fresh well-formed keys whose values decode.\<close>

lemma parse_units_loop_succeeds:
  assumes "even (length ns)" and "distinct (node_keys ns)" and "set (node_keys ns) \<inter> seen = {}"
    and "\<And>k. k \<in> set (node_keys ns) \<Longrightarrow> \<exists>p. parse_unit_key k = Inr p"
    and "\<And>v. v \<in> set (node_values ns) \<Longrightarrow> \<exists>u. decode v = Inr u"
  shows "\<exists>us. parse_units_loop decode seen ns = Inr us"
  using assms
proof (induction decode seen ns rule: parse_units_loop.induct)
  case (1 decode seen k v rest)
  obtain name ty where key: "parse_unit_key (node_value k) = Inr (name, ty)"
    using "1.prems"(4) by fastforce
  obtain u where u: "decode v = Inr u" using "1.prems"(5) by fastforce
  have fresh: "node_value k \<notin> seen" using "1.prems"(3) by auto
  have "\<exists>us. parse_units_loop decode (insert (node_value k) seen) rest = Inr us"
    using "1.prems" by (intro "1.IH" [OF refl fresh key refl u]) auto
  with key u fresh show ?case by auto
qed auto

lemma parse_socket_activation_loop_units:
  assumes "parse_socket_activation_loop decode seen ns = Inr es"
  shows "map sa_unit es = node_keys ns \<and> distinct (node_keys ns) \<and> set (node_keys ns) \<inter> seen = {}
    \<and> [] \<notin> set (node_keys ns)"
  using assms
proof (induction decode seen ns arbitrary: es rule: parse_socket_activation_loop.induct)
  case (1 decode seen k v rest)
  from "1.prems" obtain s es' where
    key: "node_value k \<noteq> []" "node_value k \<notin> seen" "decode v = Inr s"
    and rest: "parse_socket_activation_loop decode (insert (node_value k) seen) rest = Inr es'"
    and es: "es = s\<lparr>sa_unit := node_value k, sa_name := socket_activation_name (node_value k)\<rparr> # es'"
    by (auto simp: Let_def split: if_splits sum.splits)
  from "1.IH" [OF refl key rest] key(1,2) es show ?case by auto
qed auto

section \<open>Properties\<close>

text \<open>Parsing a unit key is exactly the inverse of printing a full unit name: a key is accepted
  with name \<open>n\<close> and type \<open>t\<close> when it reads \<open>n.t\<close>, the name is not empty and the type is
  \<^verbatim>\<open>service\<close> or \<^verbatim>\<open>timer\<close>; every other key is an error.\<close>

theorem parse_unit_key_iff:
  "parse_unit_key key = Inr (n, t) \<longleftrightarrow>
     key = n @ ''.'' @ t \<and> n \<noteq> [] \<and> t \<in> {''service'', ''timer''}"
proof
  assume "parse_unit_key key = Inr (n, t)"
  from parse_unit_key_Inr [OF this] show "key = n @ ''.'' @ t \<and> n \<noteq> [] \<and> t \<in> {''service'', ''timer''}"
    by auto
next
  assume a: "key = n @ ''.'' @ t \<and> n \<noteq> [] \<and> t \<in> {''service'', ''timer''}"
  then consider "t = ''service''" | "t = ''timer''" by blast
  then show "parse_unit_key key = Inr (n, t)"
  proof cases
    case 1
    with a parse_unit_key_service [of n] show ?thesis by simp
  next
    case 2
    with a parse_unit_key_timer [of n] show ?thesis by simp
  qed
qed

lemma parse_units_loop_accepts:
  assumes "parse_units_loop decode seen ns = Inr us"
  shows "even (length ns) \<and> (\<forall>k \<in> set (node_keys ns). \<exists>p. parse_unit_key k = Inr p)
    \<and> (\<forall>v \<in> set (node_values ns). \<exists>u. decode v = Inr u)"
  using assms
proof (induction decode seen ns arbitrary: us rule: parse_units_loop.induct)
  case (1 decode seen k v rest)
  from "1.prems" obtain name ty u us' where
    key: "node_value k \<notin> seen" "parse_unit_key (node_value k) = Inr (name, ty)" "decode v = Inr u"
    and rest: "parse_units_loop decode (insert (node_value k) seen) rest = Inr us'"
    by (rule parse_units_loop_stepE)
  from "1.IH" [OF refl key(1,2) refl key(3) rest] key show ?case by simp
qed auto

lemma parse_units_loop_defined:
  "(\<exists>us. parse_units_loop decode {} ns = Inr us) \<longleftrightarrow>
     even (length ns) \<and> distinct (node_keys ns)
     \<and> list_all (\<lambda>k. \<exists>p. parse_unit_key k = Inr p) (node_keys ns)
     \<and> list_all (\<lambda>v. \<exists>u. decode v = Inr u) (node_values ns)" (is "?L \<longleftrightarrow> ?R")
proof
  assume ?L
  then obtain us where us: "parse_units_loop decode {} ns = Inr us" by blast
  from parse_units_loop_accepts [OF us] parse_units_loop_fresh [OF us] show ?R
    by (simp add: list_all_iff)
next
  assume R: ?R
  show ?L by (rule parse_units_loop_succeeds) (use R in \<open>auto simp: list_all_iff\<close>)
qed

text \<open>The \<^verbatim>\<open>units\<close> node is accepted exactly when it is absent, or a mapping whose keys are
  distinct well-formed unit names and whose values all decode; the units then carry the keys as
  their full names, in document order. Duplicate keys, which the YAML node level would let
  through, are rejected.\<close>

theorem parse_units_accepts:
  "((\<exists>us. parse_units decode node = Inr us) \<longleftrightarrow>
     node_kind node = ZeroKind
     \<or> (node_kind node = MappingNode \<and> even (length (node_content node))
        \<and> distinct (node_keys (node_content node))
        \<and> list_all (\<lambda>k. \<exists>p. parse_unit_key k = Inr p) (node_keys (node_content node))
        \<and> list_all (\<lambda>v. \<exists>u. decode v = Inr u) (node_values (node_content node))))
   \<and> (node_kind node = MappingNode \<longrightarrow> parse_units decode node = Inr us \<longrightarrow>
        map unit_name us = node_keys (node_content node))"
proof -
  let ?ns = "node_content node"
  have names: "map unit_name us = node_keys ?ns"
    if "node_kind node = MappingNode" "parse_units decode node = Inr us"
    using that by (auto simp: parse_units_def dest: parse_units_loop_names split: if_splits)
  have "(\<exists>us. parse_units decode node = Inr us) \<longleftrightarrow>
      node_kind node = ZeroKind \<or>
      (node_kind node = MappingNode \<and> even (length ?ns) \<and> (\<exists>us. parse_units_loop decode {} ?ns = Inr us))"
    by (auto simp: parse_units_def)
  with names show ?thesis unfolding parse_units_loop_defined by blast
qed

definition two_units_node :: yaml_node where
  "two_units_node =
     YamlNode MappingNode []
       [YamlNode ScalarNode ''web.service'' [], YamlNode MappingNode [] [],
        YamlNode ScalarNode ''backup.timer'' [], YamlNode MappingNode [] []]"

definition blank_unit :: unit_config where
  "blank_unit =
     \<lparr>uc_name = [], uc_type = [], uc_enabled = None, uc_critical = False, uc_priority = 0,
      uc_depends_on = [], uc_grace_period = 0, uc_max_delay = 0, uc_health_checks = [],
      uc_restart = None, uc_instance_match = None\<rparr>"

theorem parse_units_accepts_witness:
  "map unit_name [blank_unit\<lparr>uc_name := ''web'', uc_type := ''service''\<rparr>,
                  blank_unit\<lparr>uc_name := ''backup'', uc_type := ''timer''\<rparr>]
     = node_keys (node_content two_units_node)"
proof -
  have "parse_units (\<lambda>v. Inr blank_unit) two_units_node =
      Inr [blank_unit\<lparr>uc_name := ''web'', uc_type := ''service''\<rparr>,
           blank_unit\<lparr>uc_name := ''backup'', uc_type := ''timer''\<rparr>]"
    by code_simp
  moreover have "node_kind two_units_node = MappingNode" by (simp add: two_units_node_def)
  ultimately show ?thesis using parse_units_accepts [of "\<lambda>v. Inr blank_unit" two_units_node] by blast
qed

end
