(* ===== verification/ConfigDefaults.thy ===== *)
theory ConfigDefaults
  imports ConfigParse
begin

text \<open>
  Defaults and the checks that need no dependency graph (\<^verbatim>\<open>applyDefaults\<close> and its helpers,
  \<^verbatim>\<open>ensureHTTPPort\<close>, \<^verbatim>\<open>dedupeProtocols\<close>, \<^verbatim>\<open>validateTemplates\<close>,
  \<^verbatim>\<open>validateSocketActivation\<close> of \<^verbatim>\<open>internal/config/config.go\<close>). The regular expression
  compiler is a parameter: \<open>re_compile p\<close> is the error of compiling \<open>p\<close>, if there is one.
\<close>

section \<open>Host and port\<close>

text \<open>\<^verbatim>\<open>net.SplitHostPort\<close> and \<^verbatim>\<open>net.JoinHostPort\<close>; \<open>None\<close> is an error.\<close>

definition split_host_port :: "string \<Rightarrow> (string \<times> string) option" where
  "split_host_port s =
     (case last_index_char s CHR '':'' of
        None \<Rightarrow> None
      | Some i \<Rightarrow>
          if hd s = CHR ''['' then
            (case index_char s CHR '']'' of
               None \<Rightarrow> None
             | Some e \<Rightarrow>
                 if Suc e \<noteq> i then None
                 else if CHR ''['' \<in> set (drop 1 s) \<or> CHR '']'' \<in> set (drop (Suc e) s) then None
                 else Some (drop 1 (take e s), drop (Suc i) s))
          else if CHR '':'' \<in> set (take i s) then None
          else if CHR ''['' \<in> set s \<or> CHR '']'' \<in> set s then None
          else Some (take i s, drop (Suc i) s))"

definition join_host_port :: "string \<Rightarrow> string \<Rightarrow> string" where
  "join_host_port host port =
     (if CHR '':'' \<in> set host then ''['' @ host @ '']:'' @ port else host @ '':'' @ port)"

definition default_http_port :: string where
  "default_http_port = ''9999''"

definition ensure_http_port :: "string \<Rightarrow> string" where
  "ensure_http_port listen =
     (case split_host_port listen of
        None \<Rightarrow> join_host_port listen default_http_port
      | Some (host, port) \<Rightarrow>
          if port = [] then join_host_port host default_http_port else listen)"

section \<open>Defaults\<close>

definition http_enabled :: "http_config \<Rightarrow> bool" where
  "http_enabled h \<longleftrightarrow> ht_listen h \<noteq> []"

definition apply_http_defaults :: "http_config \<Rightarrow> http_config" where
  "apply_http_defaults h =
     (if ht_listen h = [] then h
      else h\<lparr>ht_listen := ensure_http_port (ht_listen h),
             ht_read_timeout := (if ht_read_timeout h = 0 then 5 * second else ht_read_timeout h),
             ht_write_timeout := (if ht_write_timeout h = 0 then 5 * second else ht_write_timeout h),
             ht_shutdown_timeout :=
               (if ht_shutdown_timeout h = 0 then 5 * second else ht_shutdown_timeout h)\<rparr>)"

definition default_startup_timeout :: duration where
  "default_startup_timeout = 30 * second"

definition default_idle_timeout :: duration where
  "default_idle_timeout = 300 * second"

fun dedupe_loop :: "string set \<Rightarrow> string list \<Rightarrow> string list" where
  "dedupe_loop seen [] = []"
| "dedupe_loop seen (p # ps) =
     (if p \<in> seen then dedupe_loop seen ps else p # dedupe_loop (insert p seen) ps)"

definition dedupe_protocols :: "string list \<Rightarrow> string list" where
  "dedupe_protocols ps = dedupe_loop {} ps"

definition default_health_check :: "health_check \<Rightarrow> health_check" where
  "default_health_check c =
     c\<lparr>hc_interval := (if hc_interval c = 0 then 10 * second else hc_interval c),
       hc_timeout := (if hc_timeout c = 0 then 5 * second else hc_timeout c),
       hc_retries := (if hc_retries c = 0 then 3 else hc_retries c)\<rparr>"

definition apply_health_check_defaults :: "health_check list \<Rightarrow> health_check list" where
  "apply_health_check_defaults checks = map default_health_check checks"

definition restart_policy_with_defaults :: "restart_policy option \<Rightarrow> restart_policy" where
  "restart_policy_with_defaults p =
     (let p = (case p of None \<Rightarrow> \<lparr>rp_enabled = True, rp_backoff = 0, rp_cooldown = 0\<rparr> | Some q \<Rightarrow> q) in
      p\<lparr>rp_backoff := (if rp_backoff p = 0 then 5 * second else rp_backoff p),
        rp_cooldown := (if rp_cooldown p = 0 then 60 * second else rp_cooldown p)\<rparr>)"

definition apply_defaults :: "unit_config \<Rightarrow> unit_config" where
  "apply_defaults u =
     u\<lparr>uc_priority := (if uc_priority u = 0 then default_priority else uc_priority u),
       uc_health_checks := apply_health_check_defaults (uc_health_checks u),
       uc_restart := Some (restart_policy_with_defaults (uc_restart u))\<rparr>"

definition apply_socket_activation_defaults ::
  "socket_activation_config \<Rightarrow> socket_activation_config" where
  "apply_socket_activation_defaults s =
     s\<lparr>sa_protocol :=
         (if sa_protocol s = [] then [''tcp''] else dedupe_protocols (sa_protocol s)),
       sa_startup_timeout :=
         (if sa_startup_timeout s = 0 then default_startup_timeout else sa_startup_timeout s),
       sa_idle_timeout :=
         (if sa_idle_timeout s = 0 then default_idle_timeout else sa_idle_timeout s),
       sa_health_checks := apply_health_check_defaults (sa_health_checks s),
       sa_restart := Some (restart_policy_with_defaults (sa_restart s))\<rparr>"

section \<open>Checks on listeners\<close>

definition listener_key :: "string \<Rightarrow> string \<Rightarrow> string" where
  "listener_key proto listen = proto @ ''/'' @ listen"

text \<open>The inner loop over the protocols of one entry; the result is the extended key set.\<close>

fun check_listeners ::
  "string \<Rightarrow> string set \<Rightarrow> string list \<Rightarrow> config_error + string set" where
  "check_listeners listen seen [] = Inr seen"
| "check_listeners listen seen (proto # ps) =
     (let key = listener_key proto listen in
      if key \<in> seen then Inl (DuplicateListener proto listen)
      else check_listeners listen (insert key seen) ps)"

fun validate_socket_activation_loop ::
  "string set \<Rightarrow> socket_activation_config list \<Rightarrow> config_error + unit" where
  "validate_socket_activation_loop seen [] = Inr ()"
| "validate_socket_activation_loop seen (e # es) =
     (case check_listeners (sa_listen e) seen (sa_protocol e) of
        Inl err \<Rightarrow> Inl err
      | Inr seen' \<Rightarrow> validate_socket_activation_loop seen' es)"

definition validate_socket_activation ::
  "socket_activation_config list \<Rightarrow> config_error + unit" where
  "validate_socket_activation es = validate_socket_activation_loop {} es"

section \<open>Checks on templates\<close>

text \<open>
  The two functions below return the entry with its \<^verbatim>\<open>instanceMatch\<close> field set, as the code
  sets it through the pointer.
\<close>

definition validate_instance_pattern ::
  "(string \<Rightarrow> string option) \<Rightarrow> unit_config \<Rightarrow> config_error + unit_config" where
  "validate_instance_pattern re_compile u =
     (case after_at (uc_name u) of
        None \<Rightarrow> Inr u
      | Some after \<Rightarrow>
          if after = [] then Inr u
          else if \<not> has_prefix after ''{'' \<or> \<not> has_suffix after ''}'' then Inr u
          else (case inner_slice after of
                  None \<Rightarrow> Inl RuntimePanic
                | Some pattern \<Rightarrow>
                    if pattern = [] then Inl (EmptyInstancePattern (uc_name u))
                    else (case re_compile (''^'' @ pattern @ ''$'') of
                            Some err \<Rightarrow> Inl (InvalidInstancePattern (uc_name u) err)
                          | None \<Rightarrow> Inr (u\<lparr>uc_instance_match := Some (''^'' @ pattern @ ''$'')\<rparr>))))"

fun validate_templates ::
  "(string \<Rightarrow> string option) \<Rightarrow> unit_config list \<Rightarrow> config_error + unit_config list" where
  "validate_templates re_compile [] = Inr []"
| "validate_templates re_compile (u # us) =
     (if uc_max_delay u > 0 \<and> uc_type u \<noteq> ''timer'' then Inl (MaxDelayNotTimer (uc_name u))
      else case validate_instance_pattern re_compile u of
             Inl e \<Rightarrow> Inl e
           | Inr u' \<Rightarrow>
        (case validate_templates re_compile us of
           Inl e \<Rightarrow> Inl e
         | Inr us' \<Rightarrow> Inr (u' # us')))"

section \<open>Lemmas\<close>

lemma split_join_host_port:
  assumes "CHR ''['' \<notin> set host" "CHR '']'' \<notin> set host"
    and "CHR '':'' \<notin> set port" "CHR ''['' \<notin> set port" "CHR '']'' \<notin> set port"
  shows "split_host_port (join_host_port host port) = Some (host, port)"
proof (cases "CHR '':'' \<in> set host")
  case True
  let ?s = "join_host_port host port"
  have s1: "?s = (CHR ''['' # host @ [CHR '']'']) @ CHR '':'' # port"
    and s2: "?s = (CHR ''['' # host) @ CHR '']'' # CHR '':'' # port"
    using True by (simp_all add: join_host_port_def)
  have l: "last_index_char ?s CHR '':'' = Some (length host + 2)"
    unfolding s1 using last_index_char_append [OF assms(3)] by (metis length_Cons length_append_singleton add_2_eq_Suc')
  have e: "index_char ?s CHR '']'' = Some (length host + 1)"
    unfolding s2 using assms(2) by (subst index_char_append) auto
  show ?thesis
    using assms l e by (simp add: split_host_port_def) (simp add: s2)
next
  case False
  let ?s = "join_host_port host port"
  have s: "?s = host @ CHR '':'' # port" using False by (simp add: join_host_port_def)
  have l: "last_index_char ?s CHR '':'' = Some (length host)"
    unfolding s by (rule last_index_char_append [OF assms(3)])
  have "hd ?s \<noteq> CHR ''[''" unfolding s using assms(1) by (cases host) auto
  with l show ?thesis
    using assms False by (simp add: split_host_port_def) (simp add: s)
qed

lemma split_host_port_parts:
  assumes "split_host_port s = Some (host, port)"
  shows "set host \<subseteq> set s" and "set port \<subseteq> set s" and "CHR '':'' \<notin> set port"
    and "CHR ''['' \<notin> set host" and "CHR '']'' \<notin> set host"
proof -
  from assms obtain i where i: "last_index_char s CHR '':'' = Some i"
    by (auto simp: split_host_port_def split: option.splits)
  have port: "port = drop (Suc i) s"
    using assms i by (auto simp: split_host_port_def split: option.splits if_splits)
  with last_index_char_Some [OF i] show "CHR '':'' \<notin> set port" by simp
  show "set port \<subseteq> set s" by (simp add: port set_drop_subset)
  have "set host \<subseteq> set s \<and> CHR ''['' \<notin> set host \<and> CHR '']'' \<notin> set host"
  proof (cases "hd s = CHR ''[''")
    case True
    then obtain e where e: "index_char s CHR '']'' = Some e"
      and host: "host = drop 1 (take e s)" and nob: "CHR ''['' \<notin> set (drop 1 s)"
      using assms i by (auto simp: split_host_port_def split: option.splits if_splits)
    have "set host \<subseteq> set (take e s)" by (simp add: host set_drop_subset)
    moreover have "set host \<subseteq> set (drop 1 s)"
      unfolding host drop_take by (rule set_take_subset)
    ultimately show ?thesis using index_char_Some [OF e] nob set_take_subset [of e s] by blast
  next
    case False
    then have "host = take i s" "CHR ''['' \<notin> set s" "CHR '']'' \<notin> set s"
      using assms i by (auto simp: split_host_port_def split: option.splits if_splits)
    then show ?thesis using set_take_subset [of i s] by auto
  qed
  then show "set host \<subseteq> set s" "CHR ''['' \<notin> set host" "CHR '']'' \<notin> set host" by blast+
qed

lemma default_port_clean:
  "CHR '':'' \<notin> set default_http_port" "CHR ''['' \<notin> set default_http_port"
  "CHR '']'' \<notin> set default_http_port" "default_http_port \<noteq> []"
  by (simp_all add: default_http_port_def)

lemma dedupe_loop_props:
  "distinct (dedupe_loop seen ps) \<and> set (dedupe_loop seen ps) = set ps - seen"
  by (induction seen ps rule: dedupe_loop.induct) auto

lemma dedupe_loop_distinct: "distinct ps \<Longrightarrow> set ps \<inter> seen = {} \<Longrightarrow> dedupe_loop seen ps = ps"
  by (induction seen ps rule: dedupe_loop.induct) auto

lemma check_listeners_Inr:
  "check_listeners listen seen ps = Inr seen' \<longleftrightarrow>
     distinct (map (\<lambda>p. listener_key p listen) ps)
     \<and> set (map (\<lambda>p. listener_key p listen) ps) \<inter> seen = {}
     \<and> seen' = seen \<union> set (map (\<lambda>p. listener_key p listen) ps)"
  by (induction listen seen ps rule: check_listeners.induct) (auto simp: Let_def)

definition listener_keys :: "socket_activation_config list \<Rightarrow> string list" where
  "listener_keys es = concat (map (\<lambda>e. map (\<lambda>p. listener_key p (sa_listen e)) (sa_protocol e)) es)"

lemma listener_keys_Nil [simp]: "listener_keys [] = []"
  by (simp add: listener_keys_def)

lemma validate_socket_activation_loop_Inr:
  "validate_socket_activation_loop seen es = Inr () \<longleftrightarrow>
     distinct (listener_keys es) \<and> set (listener_keys es) \<inter> seen = {}"
proof (induction es arbitrary: seen)
  case Nil
  then show ?case by (simp add: listener_keys_def)
next
  case (Cons e es)
  show ?case
  proof (cases "check_listeners (sa_listen e) seen (sa_protocol e)")
    case (Inl err)
    then have "\<not> (distinct (map (\<lambda>p. listener_key p (sa_listen e)) (sa_protocol e))
      \<and> set (map (\<lambda>p. listener_key p (sa_listen e)) (sa_protocol e)) \<inter> seen = {})"
      by (metis Inl_Inr_False check_listeners_Inr)
    with Inl show ?thesis by (auto simp: listener_keys_def)
  next
    case (Inr seen')
    let ?K = "map (\<lambda>p. listener_key p (sa_listen e)) (sa_protocol e)"
    have keys: "listener_keys (e # es) = ?K @ listener_keys es"
      by (simp add: listener_keys_def)
    have K: "distinct ?K" "set ?K \<inter> seen = {}" "seen' = seen \<union> set ?K"
      using Inr unfolding check_listeners_Inr by blast+
    have "validate_socket_activation_loop seen (e # es) = validate_socket_activation_loop seen' es"
      using Inr by simp
    moreover have "distinct (?K @ listener_keys es) \<and> set (?K @ listener_keys es) \<inter> seen = {} \<longleftrightarrow>
        distinct (listener_keys es) \<and> set (listener_keys es) \<inter> (seen \<union> set ?K) = {}"
      unfolding distinct_append set_append using K(1,2) by auto
    ultimately show ?thesis unfolding keys using Cons.IH [of seen'] K(3) by simp
  qed
qed

lemma validate_instance_pattern_no_panic: "validate_instance_pattern rc u \<noteq> Inl RuntimePanic"
proof (cases "after_at (uc_name u)")
  case None
  then show ?thesis by (simp add: validate_instance_pattern_def)
next
  case (Some a)
  show ?thesis
  proof (cases "has_prefix a ''{'' \<and> has_suffix a ''}''")
    case True
    then obtain p where "inner_slice a = Some p" using braces_inner_slice by blast
    with Some True show ?thesis
      by (simp add: validate_instance_pattern_def split: option.split)
  next
    case False
    with Some show ?thesis by (auto simp: validate_instance_pattern_def)
  qed
qed

lemma validate_instance_pattern_frame:
  "validate_instance_pattern rc u = Inr u' \<Longrightarrow> \<exists>m. u' = u\<lparr>uc_instance_match := m\<rparr>"
  unfolding validate_instance_pattern_def
  by (auto split: option.splits if_splits)
    (metis unit_config.surjective unit_config.update_convs(11))+

lemma validate_templates_frame:
  "validate_templates rc us = Inr us' \<Longrightarrow>
     list_all2 (\<lambda>u u'. \<exists>m. u' = u\<lparr>uc_instance_match := m\<rparr>) us us'"
  by (induction us arbitrary: us')
    (auto split: if_splits sum.splits dest: validate_instance_pattern_frame)

lemma validate_templates_max_delay:
  "validate_templates rc us = Inr us' \<Longrightarrow> u \<in> set us \<Longrightarrow> uc_max_delay u > 0 \<Longrightarrow> uc_type u = ''timer''"
  by (induction us arbitrary: us') (auto split: if_splits sum.splits)

lemma validate_templates_no_panic: "validate_templates rc us \<noteq> Inl RuntimePanic"
  by (induction us) (auto split: sum.splits simp: validate_instance_pattern_no_panic)

section \<open>Properties\<close>

lemma ensure_http_port_split:
  assumes "CHR ''['' \<notin> set listen" and "CHR '']'' \<notin> set listen"
  shows "split_host_port (ensure_http_port listen) =
    (case split_host_port listen of
       None \<Rightarrow> Some (listen, default_http_port)
     | Some (host, port) \<Rightarrow> Some (host, if port = [] then default_http_port else port))"
proof (cases "split_host_port listen")
  case None
  then show ?thesis
    using split_join_host_port [OF assms default_port_clean(1-3)] by (simp add: ensure_http_port_def)
next
  case (Some hp)
  obtain host port where hp: "hp = (host, port)" by fastforce
  note parts = split_host_port_parts [OF Some [unfolded hp]]
  show ?thesis
    using Some hp split_join_host_port [OF parts(4,5) default_port_clean(1-3)]
    by (simp add: ensure_http_port_def)
qed

text \<open>For a listen address without brackets the address the HTTP server gets always splits
  into host and a non-empty port: the given port is kept, a missing or empty one becomes 9999, a
  bare host (an IPv6 literal included) is kept as the host; and defaulting it again changes
  nothing.\<close>

theorem ensure_http_port_valid:
  assumes "CHR ''['' \<notin> set listen" and "CHR '']'' \<notin> set listen"
  shows "\<exists>host port. split_host_port (ensure_http_port listen) = Some (host, port) \<and> port \<noteq> []
    \<and> (host, port) = (case split_host_port listen of
         None \<Rightarrow> (listen, default_http_port)
       | Some (h, p) \<Rightarrow> (h, if p = [] then default_http_port else p))
    \<and> ensure_http_port (ensure_http_port listen) = ensure_http_port listen"
proof -
  obtain host port where s: "split_host_port (ensure_http_port listen) = Some (host, port)"
    and hp: "(host, port) = (case split_host_port listen of
         None \<Rightarrow> (listen, default_http_port)
       | Some (h, p) \<Rightarrow> (h, if p = [] then default_http_port else p))"
    using ensure_http_port_split [OF assms] by (force split: option.splits prod.splits)
  have "port \<noteq> []" using hp default_port_clean(4) by (auto split: option.splits if_splits)
  moreover from s this have "ensure_http_port (ensure_http_port listen) = ensure_http_port listen"
    by (simp add: ensure_http_port_def [of "ensure_http_port listen"])
  ultimately show ?thesis using s hp by blast
qed

theorem ensure_http_port_valid_witness:
  "(\<exists>host port. split_host_port (ensure_http_port ''::1'') = Some (host, port) \<and> port \<noteq> [])
   \<and> ensure_http_port ''::1'' = ''[::1]:9999''"
proof -
  have "\<exists>host port. split_host_port (ensure_http_port ''::1'') = Some (host, port) \<and> port \<noteq> []"
    using ensure_http_port_valid [of "''::1''"] by auto
  moreover have "ensure_http_port ''::1'' = ''[::1]:9999''" by code_simp
  ultimately show ?thesis by blast
qed

text \<open>A bracketed IPv6 host without a port, which the documented form \<^verbatim>\<open>host[:port]\<close> allows, is
  bracketed a second time, and the result is no address.\<close>

theorem bracketed_listen_broken:
  "ensure_http_port ''[::1]'' = ''[[::1]]:9999'' \<and> split_host_port (ensure_http_port ''[::1]'') = None"
  by code_simp

definition listener_pairs :: "socket_activation_config list \<Rightarrow> (string \<times> string) list" where
  "listener_pairs es = concat (map (\<lambda>e. map (\<lambda>p. (p, sa_listen e)) (sa_protocol e)) es)"

lemma listener_keys_pairs: "listener_keys es = map (\<lambda>(p, l). listener_key p l) (listener_pairs es)"
  by (simp add: listener_keys_def listener_pairs_def map_concat comp_def)

lemma listener_key_inj:
  assumes "CHR ''/'' \<notin> set p" and "CHR ''/'' \<notin> set q" and "listener_key p l = listener_key q m"
  shows "p = q \<and> l = m"
proof -
  have eq: "p @ CHR ''/'' # l = q @ CHR ''/'' # m" using assms(3) by (simp add: listener_key_def)
  with index_char_append [OF assms(1), of l] index_char_append [OF assms(2), of m]
  have "length p = length q" by simp
  with eq show ?thesis by simp
qed

text \<open>Listener validation accepts a list of entries exactly when no protocol and address pair
  occurs twice, across entries or within one.\<close>

theorem validate_socket_activation_unique:
  assumes "list_all (\<lambda>e. set (sa_protocol e) \<subseteq> {''tcp'', ''udp''}) es"
  shows "validate_socket_activation es = Inr () \<longleftrightarrow> distinct (listener_pairs es)"
proof -
  have slash: "CHR ''/'' \<notin> set p" if "(p, l) \<in> set (listener_pairs es)" for p l
  proof -
    from that assms have "p \<in> {''tcp'', ''udp''}" by (auto simp: listener_pairs_def list_all_iff)
    then show ?thesis by auto
  qed
  have "inj_on (\<lambda>(p, l). listener_key p l) (set (listener_pairs es))"
  proof (rule inj_onI, clarify)
    fix p l q m
    assume "(p, l) \<in> set (listener_pairs es)" "(q, m) \<in> set (listener_pairs es)"
      and "listener_key p l = listener_key q m"
    then show "p = q \<and> l = m" using listener_key_inj slash by blast
  qed
  then show ?thesis
    by (simp add: validate_socket_activation_def validate_socket_activation_loop_Inr
        listener_keys_pairs distinct_map)
qed

definition plain_socket :: "string \<Rightarrow> string list \<Rightarrow> string \<Rightarrow> socket_activation_config" where
  "plain_socket unit protos listen =
     \<lparr>sa_unit = unit, sa_name = unit, sa_listen = listen, sa_protocol = protos, sa_backend = ''127.0.0.1:1'',
      sa_startup_timeout = 30 * second, sa_idle_timeout = 300 * second, sa_health_checks = [],
      sa_restart = None\<rparr>"

theorem validate_socket_activation_unique_witness:
  "(validate_socket_activation
      [plain_socket ''dns'' [''udp'', ''tcp''] '':53'', plain_socket ''web'' [''tcp''] '':80''] = Inr ())
   \<and> validate_socket_activation
      [plain_socket ''dns'' [''udp'', ''tcp''] '':53'', plain_socket ''web'' [''tcp''] '':53''] \<noteq> Inr ()"
  by (subst (1 2) validate_socket_activation_unique)
    (simp_all add: plain_socket_def listener_pairs_def)

end
