(* ===== verification/ConfigDeps.thy ===== *)
theory ConfigDeps
  imports ConfigParse
begin

text \<open>
  Dependencies between units (\<^verbatim>\<open>validateDependencies\<close>, \<^verbatim>\<open>detectCycle\<close>,
  \<^verbatim>\<open>DependencyOrder\<close>, \<^verbatim>\<open>Dependents\<close> of \<^verbatim>\<open>internal/config/config.go\<close>). The two
  depth-first searches are recursive closures over a colour map or a visited map; each is a
  pair of mutually recursive functions, one for \<^verbatim>\<open>visit\<close> and one for its loop, with a
  termination proof. The specification is the dependency relation \<open>dep_rel\<close>: the cycle
  check accepts exactly the acyclic ones, and the order is a topological order.
\<close>

section \<open>Names of dependencies\<close>

definition is_qualified_dep :: "string \<Rightarrow> bool" where
  "is_qualified_dep dep \<longleftrightarrow> has_suffix dep ''.service'' \<or> has_suffix dep ''.timer''"

definition dep_bare_name :: "string \<Rightarrow> string" where
  "dep_bare_name dep =
     (if is_qualified_dep dep then trim_suffix (trim_suffix dep ''.service'') ''.timer'' else dep)"

text \<open>
  The \<^verbatim>\<open>deps\<close> map that both searches build first. A later unit overwrites an earlier one of
  the same bare name; a missing key reads as the nil slice.
\<close>

definition build_deps :: "unit_config list \<Rightarrow> string list gomap" where
  "build_deps us =
     fold (\<lambda>u. AList.update (uc_name u) (map dep_bare_name (uc_depends_on u))) us []"

definition deps_of :: "unit_config list \<Rightarrow> string \<Rightarrow> string list" where
  "deps_of us n = (case map_of (build_deps us) n of None \<Rightarrow> [] | Some ds \<Rightarrow> ds)"

definition dep_rel :: "unit_config list \<Rightarrow> (string \<times> string) set" where
  "dep_rel us = {(a, b). b \<in> set (deps_of us a)}"

definition dep_nodes :: "unit_config list \<Rightarrow> string set" where
  "dep_nodes us =
     uc_name ` set us \<union> (\<Union>u \<in> set us. dep_bare_name ` set (uc_depends_on u))"

lemma build_deps_mem:
  "map_of (fold (\<lambda>u. AList.update (uc_name u) (map dep_bare_name (uc_depends_on u))) us m) n = Some ds \<Longrightarrow>
     (\<exists>u \<in> set us. uc_name u = n \<and> ds = map dep_bare_name (uc_depends_on u)) \<or> map_of m n = Some ds"
proof (induction us arbitrary: m)
  case Nil
  then show ?case by simp
next
  case (Cons u us)
  from Cons.IH [of "AList.update (uc_name u) (map dep_bare_name (uc_depends_on u)) m"] Cons.prems
  show ?case by (auto split: if_splits)
qed

lemma build_deps_keep:
  "n \<notin> uc_name ` set us \<Longrightarrow>
     map_of (fold (\<lambda>u. AList.update (uc_name u) (map dep_bare_name (uc_depends_on u))) us m) n = map_of m n"
  by (induction us arbitrary: m) auto

lemma deps_of_mem:
  assumes "d \<in> set (deps_of us n)"
  shows "\<exists>u \<in> set us. uc_name u = n \<and> d \<in> dep_bare_name ` set (uc_depends_on u)"
proof -
  from assms obtain ds where ds: "map_of (build_deps us) n = Some ds" "d \<in> set ds"
    by (cases "map_of (build_deps us) n") (simp_all add: deps_of_def)
  from build_deps_mem [OF ds(1) [unfolded build_deps_def]] ds(2) show ?thesis by auto
qed

text \<open>With distinct names the map holds each unit's own dependencies.\<close>

lemma deps_of_unique:
  assumes "distinct (map uc_name us)" and "u \<in> set us"
  shows "deps_of us (uc_name u) = map dep_bare_name (uc_depends_on u)"
proof -
  from assms(2) obtain as bs where us: "us = as @ u # bs" by (meson split_list)
  with assms(1) have "uc_name u \<notin> uc_name ` set bs" by auto
  then show ?thesis by (simp add: deps_of_def build_deps_def us build_deps_keep)
qed

lemma finite_dep_nodes [simp]: "finite (dep_nodes us)"
  by (simp add: dep_nodes_def)

lemma deps_of_outside: "n \<notin> dep_nodes us \<Longrightarrow> deps_of us n = []"
proof (rule ccontr)
  assume "n \<notin> dep_nodes us" and "deps_of us n \<noteq> []"
  then obtain d where "d \<in> set (deps_of us n)" by (meson list.set_sel(1))
  with \<open>n \<notin> dep_nodes us\<close> show False by (auto simp: dep_nodes_def dest: deps_of_mem)
qed

lemma dep_rel_nodes: "(a, b) \<in> dep_rel us \<Longrightarrow> a \<in> uc_name ` set us \<and> b \<in> dep_nodes us"
  by (force simp: dep_rel_def dep_nodes_def dest!: deps_of_mem)

section \<open>Cycle detection\<close>

datatype color = Unvisited | Visiting | Visited

text \<open>
  \<open>dc_visit\<close> is the closure \<^verbatim>\<open>visit\<close>, \<open>dc_visit_deps\<close> its loop over the dependencies; the
  colour map is threaded through, and \<open>Inl\<close> carries the unit named in the error.
\<close>

function (sequential)
  dc_visit :: "unit_config list \<Rightarrow> (string \<Rightarrow> color) \<Rightarrow> string \<Rightarrow> string + (string \<Rightarrow> color)"
and
  dc_visit_deps :: "unit_config list \<Rightarrow> (string \<Rightarrow> color) \<Rightarrow> string list \<Rightarrow> string + (string \<Rightarrow> color)"
where
  "dc_visit us st n =
     (case st n of
        Visiting \<Rightarrow> Inl n
      | Visited \<Rightarrow> Inr st
      | Unvisited \<Rightarrow>
          (case dc_visit_deps us (st(n := Visiting)) (deps_of us n) of
             Inl e \<Rightarrow> Inl e
           | Inr st' \<Rightarrow> Inr (st'(n := Visited))))"
| "dc_visit_deps us st [] = Inr st"
| "dc_visit_deps us st (d # ds) =
     (case dc_visit us st d of
        Inl e \<Rightarrow> Inl e
      | Inr st' \<Rightarrow> dc_visit_deps us st' ds)"
  by pat_completeness auto

text \<open>No step makes a node unvisited again: what bounds the nested call.\<close>

lemma dc_partial_mono:
  "dc_visit_dc_visit_deps_dom (Inl (us, st, n)) \<Longrightarrow>
     (\<And>st' m. dc_visit us st n = Inr st' \<Longrightarrow> st' m = Unvisited \<Longrightarrow> st m = Unvisited)"
  "dc_visit_dc_visit_deps_dom (Inr (us, st, ds)) \<Longrightarrow>
     (\<And>st' m. dc_visit_deps us st ds = Inr st' \<Longrightarrow> st' m = Unvisited \<Longrightarrow> st m = Unvisited)"
proof (induction us st n and us st ds rule: dc_visit_dc_visit_deps.pinduct)
  case (1 us st n)
  then show ?case
    by (fastforce simp: dc_visit.psimps split: color.splits sum.splits if_splits)
next
  case (2 us st)
  then show ?case by (simp add: dc_visit_deps.psimps)
next
  case (3 us st d ds)
  then show ?case
    by (fastforce simp: dc_visit_deps.psimps split: sum.splits)
qed

definition unvisited_count :: "unit_config list \<Rightarrow> (string \<Rightarrow> color) \<Rightarrow> nat" where
  "unvisited_count us st = card {m \<in> dep_nodes us. st m = Unvisited}"

lemma unvisited_count_le:
  "(\<And>m. st' m = Unvisited \<Longrightarrow> st m = Unvisited) \<Longrightarrow> unvisited_count us st' \<le> unvisited_count us st"
  unfolding unvisited_count_def by (rule card_mono) auto

lemma unvisited_count_mark: "unvisited_count us (st(n := Visiting)) \<le> unvisited_count us st"
  by (rule unvisited_count_le) (simp split: if_splits)

lemma unvisited_count_less:
  "st n = Unvisited \<Longrightarrow> n \<in> dep_nodes us \<Longrightarrow>
     unvisited_count us (st(n := Visiting)) < unvisited_count us st"
  unfolding unvisited_count_def by (rule psubset_card_mono) auto

definition dc_measure ::
  "(unit_config list \<times> (string \<Rightarrow> color) \<times> string)
     + (unit_config list \<times> (string \<Rightarrow> color) \<times> string list) \<Rightarrow> nat \<times> nat" where
  "dc_measure x =
     (case x of
        Inl (us, st, n) \<Rightarrow> (unvisited_count us st, 1)
      | Inr (us, st, ds) \<Rightarrow> (unvisited_count us st, 2 * length ds))"

termination dc_visit
proof (relation "inv_image (less_than <*lex*> less_than) dc_measure", goal_cases)
  case 1
  show ?case by (simp add: wf_lex_prod)
next
  case (2 us st n)
  then show ?case
    using unvisited_count_less [of st n us] unvisited_count_mark [of us st n]
    by (cases "n \<in> dep_nodes us") (auto simp: dc_measure_def deps_of_outside nat_less_le)
next
  case (3 us st d ds)
  then show ?case by (simp add: dc_measure_def)
next
  case (4 us st d ds st')
  then show ?case
    using unvisited_count_le [of st' st us] dc_partial_mono(1)
    by (auto simp: dc_measure_def nat_less_le)
qed

declare dc_visit.simps [simp del]

definition detect_cycle :: "unit_config list \<Rightarrow> config_error + unit" where
  "detect_cycle us =
     (case dc_visit_deps us (\<lambda>_. Unvisited) (map uc_name us) of
        Inl n \<Rightarrow> Inl (CircularDependency n)
      | Inr _ \<Rightarrow> Inr ())"

section \<open>Correctness of cycle detection\<close>

text \<open>
  A successful search changes no \<open>Visiting\<close> node, keeps what is \<open>Visited\<close>, and visits what it
  was called on.
\<close>

lemma dc_frame:
  "dc_visit us st n = Inr st' \<Longrightarrow>
     st' n = Visited \<and> (\<forall>m. st m = Visited \<longrightarrow> st' m = Visited)
       \<and> (\<forall>m. st' m = Visiting \<longleftrightarrow> st m = Visiting)"
  "dc_visit_deps us st ds = Inr st' \<Longrightarrow>
     (\<forall>d \<in> set ds. st' d = Visited) \<and> (\<forall>m. st m = Visited \<longrightarrow> st' m = Visited)
       \<and> (\<forall>m. st' m = Visiting \<longleftrightarrow> st m = Visiting)"
proof (induction us st n and us st ds arbitrary: st' and st' rule: dc_visit_dc_visit_deps.induct)
  case (1 us st n)
  show ?case
  proof (cases "st n")
    case Unvisited
    with "1.prems" obtain st1 where st1: "dc_visit_deps us (st(n := Visiting)) (deps_of us n) = Inr st1"
      and st': "st' = st1(n := Visited)"
      by (auto simp: dc_visit.simps split: sum.splits)
    from "1.IH" [OF Unvisited st1] Unvisited st' show ?thesis by (auto split: if_splits)
  next
    case Visiting
    with "1.prems" show ?thesis by (simp add: dc_visit.simps)
  next
    case Visited
    with "1.prems" show ?thesis by (simp add: dc_visit.simps)
  qed
next
  case (2 us st)
  then show ?case by simp
next
  case (3 us st d ds)
  from "3.prems" obtain st1 where st1: "dc_visit us st d = Inr st1"
    and rest: "dc_visit_deps us st1 ds = Inr st'"
    by (auto split: sum.splits)
  from "3.IH"(1) [OF st1] "3.IH"(2) [OF st1 rest] show ?case by simp
qed

text \<open>The visited nodes are closed under dependencies and carry no cycle.\<close>

definition dc_inv :: "unit_config list \<Rightarrow> (string \<Rightarrow> color) \<Rightarrow> bool" where
  "dc_inv us st \<longleftrightarrow>
     (\<forall>a b. st a = Visited \<longrightarrow> (a, b) \<in> dep_rel us \<longrightarrow> st b = Visited)
     \<and> acyclic {(a, b). (a, b) \<in> dep_rel us \<and> st a = Visited}"

lemma trancl_avoid_source:
  assumes "(x, y) \<in> (R \<union> {n} \<times> D)\<^sup>+" and "x \<noteq> n" and "n \<notin> Range (R \<union> {n} \<times> D)"
  shows "(x, y) \<in> R\<^sup>+"
  using assms(1)
proof (induction rule: trancl_induct)
  case (base y)
  with assms(2) show ?case by auto
next
  case (step y z)
  have "y \<in> Range ((R \<union> {n} \<times> D)\<^sup>+)" using step.hyps(1) by blast
  then have "y \<noteq> n" using assms(3) by (simp add: trancl_range) blast
  with step show ?case by (auto intro: trancl_into_trancl)
qed

lemma acyclic_add_source:
  assumes "acyclic R" and "n \<notin> Range (R \<union> {n} \<times> D)"
  shows "acyclic (R \<union> {n} \<times> D)"
proof (rule acyclicI, rule allI, rule notI)
  fix x
  assume cyc: "(x, x) \<in> (R \<union> {n} \<times> D)\<^sup>+"
  then have "x \<in> Range ((R \<union> {n} \<times> D)\<^sup>+)" by blast
  then have "x \<noteq> n" using assms(2) by (simp add: trancl_range) blast
  from trancl_avoid_source [OF cyc this assms(2)] assms(1) show False by (auto simp: acyclic_def)
qed

lemma dc_inv_finish:
  assumes "dc_inv us st" and "st n = Visiting" and "\<forall>d \<in> set (deps_of us n). st d = Visited"
  shows "dc_inv us (st(n := Visited))"
proof -
  let ?R = "{(a, b). (a, b) \<in> dep_rel us \<and> st a = Visited}"
  have eq: "{(a, b). (a, b) \<in> dep_rel us \<and> (st(n := Visited)) a = Visited} = ?R \<union> {n} \<times> set (deps_of us n)"
    using assms(2) by (auto simp: dep_rel_def split: if_splits)
  have "n \<notin> Range (?R \<union> {n} \<times> set (deps_of us n))"
    using assms unfolding dc_inv_def by force
  with assms(1) have "acyclic (?R \<union> {n} \<times> set (deps_of us n))"
    by (intro acyclic_add_source) (simp_all add: dc_inv_def)
  with assms show ?thesis unfolding dc_inv_def eq by (auto simp: dep_rel_def split: if_splits)
qed

lemma dc_inv_mark: "st n = Unvisited \<Longrightarrow> dc_inv us (st(n := Visiting)) \<longleftrightarrow> dc_inv us st"
proof -
  assume n: "st n = Unvisited"
  then have "((st(n := Visiting)) a = Visited) = (st a = Visited)" for a by auto
  then show ?thesis unfolding dc_inv_def by presburger
qed

lemma dc_inv_preserved:
  "dc_visit us st n = Inr st' \<Longrightarrow> dc_inv us st \<Longrightarrow> dc_inv us st'"
  "dc_visit_deps us st ds = Inr st' \<Longrightarrow> dc_inv us st \<Longrightarrow> dc_inv us st'"
proof (induction us st n and us st ds arbitrary: st' and st' rule: dc_visit_dc_visit_deps.induct)
  case (1 us st n)
  show ?case
  proof (cases "st n")
    case Unvisited
    with "1.prems"(1) obtain st1 where st1: "dc_visit_deps us (st(n := Visiting)) (deps_of us n) = Inr st1"
      and st': "st' = st1(n := Visited)"
      by (auto simp: dc_visit.simps split: sum.splits)
    have "dc_inv us st1" using "1.IH" [OF Unvisited st1] "1.prems"(2) dc_inv_mark [of st n us, OF Unvisited] by blast
    moreover have "st1 n = Visiting" "\<forall>d \<in> set (deps_of us n). st1 d = Visited"
      using dc_frame(2) [OF st1] by simp_all
    ultimately show ?thesis unfolding st' by (rule dc_inv_finish)
  next
    case Visiting
    with "1.prems" show ?thesis by (simp add: dc_visit.simps)
  next
    case Visited
    with "1.prems" show ?thesis by (simp add: dc_visit.simps)
  qed
qed (auto split: sum.splits)

text \<open>An error names a unit on a cycle: every \<open>Visiting\<close> node reaches the node being visited.\<close>

lemma dc_error_cycle:
  "dc_visit us st n = Inl e \<Longrightarrow> (\<forall>g. st g = Visiting \<longrightarrow> (g, n) \<in> (dep_rel us)\<^sup>+) \<Longrightarrow>
     (e, e) \<in> (dep_rel us)\<^sup>+"
  "dc_visit_deps us st ds = Inl e \<Longrightarrow>
     (\<forall>d \<in> set ds. \<forall>g. st g = Visiting \<longrightarrow> (g, d) \<in> (dep_rel us)\<^sup>+) \<Longrightarrow>
     (e, e) \<in> (dep_rel us)\<^sup>+"
proof (induction us st n and us st ds rule: dc_visit_dc_visit_deps.induct)
  case (1 us st n)
  show ?case
  proof (cases "st n")
    case Unvisited
    with "1.prems"(1) have err: "dc_visit_deps us (st(n := Visiting)) (deps_of us n) = Inl e"
      by (auto simp: dc_visit.simps split: sum.splits)
    have "(g, d) \<in> (dep_rel us)\<^sup>+"
      if "d \<in> set (deps_of us n)" "(st(n := Visiting)) g = Visiting" for d g
    proof -
      have "(n, d) \<in> dep_rel us" using that(1) by (simp add: dep_rel_def)
      with that(2) "1.prems"(2) show ?thesis
        by (cases "g = n") (auto intro: trancl_into_trancl)
    qed
    with "1.IH" [OF Unvisited err] show ?thesis by blast
  next
    case Visiting
    with "1.prems" show ?thesis by (simp add: dc_visit.simps)
  next
    case Visited
    with "1.prems" show ?thesis by (simp add: dc_visit.simps)
  qed
next
  case (2 us st)
  then show ?case by simp
next
  case (3 us st d ds)
  show ?case
  proof (cases "dc_visit us st d")
    case (Inl e')
    with "3.prems" "3.IH"(1) [OF _] show ?thesis by simp
  next
    case (Inr st1)
    with "3.prems"(1) have "dc_visit_deps us st1 ds = Inl e" by simp
    with "3.IH"(2) [OF Inr] "3.prems"(2) dc_frame(1) [OF Inr] show ?thesis by auto
  qed
qed

lemma dc_inv_start: "dc_inv us (\<lambda>_. Unvisited)"
  by (simp add: dc_inv_def acyclic_def)

lemma dc_search_acyclic:
  assumes "dc_visit_deps us (\<lambda>_. Unvisited) (map uc_name us) = Inr st"
  shows "acyclic (dep_rel us)"
proof -
  from dc_inv_preserved(2) [OF assms dc_inv_start] dc_frame(2) [OF assms]
  have "acyclic {(a, b). (a, b) \<in> dep_rel us \<and> st a = Visited}" "\<forall>n \<in> uc_name ` set us. st n = Visited"
    by (simp_all add: dc_inv_def)
  moreover have "{(a, b). (a, b) \<in> dep_rel us \<and> st a = Visited} = dep_rel us"
    using calculation(2) by (auto dest: dep_rel_nodes)
  ultimately show ?thesis by simp
qed

lemma dc_search_cycle:
  assumes "dc_visit_deps us (\<lambda>_. Unvisited) (map uc_name us) = Inl e"
  shows "(e, e) \<in> (dep_rel us)\<^sup>+"
  using dc_error_cycle(2) [OF assms] by simp

lemma detect_cycle_acyclic: "detect_cycle us = Inr () \<longleftrightarrow> acyclic (dep_rel us)"
proof (cases "dc_visit_deps us (\<lambda>_. Unvisited) (map uc_name us)")
  case (Inl e)
  with dc_search_cycle [OF Inl] show ?thesis by (auto simp: detect_cycle_def acyclic_def)
next
  case (Inr st)
  with dc_search_acyclic [OF Inr] show ?thesis by (simp add: detect_cycle_def)
qed

lemma detect_cycle_Inl: "detect_cycle us = Inl err \<Longrightarrow> \<exists>n. err = CircularDependency n \<and> (n, n) \<in> (dep_rel us)\<^sup>+"
  by (auto simp: detect_cycle_def dest: dc_search_cycle split: sum.splits)

text \<open>C10. The cycle check accepts a list of units exactly when the relation the code builds
  from their \<^verbatim>\<open>depends_on\<close> entries (bare names, the last unit of a name winning) has no
  cycle, and otherwise its error names a unit that does lie on one. It answers on every list,
  unknown names and self-dependencies included.\<close>

theorem detect_cycle_decides:
  "detect_cycle us = Inr () \<and> acyclic (dep_rel us)
   \<or> (\<exists>n. detect_cycle us = Inl (CircularDependency n) \<and> (n, n) \<in> (dep_rel us)\<^sup>+)"
proof (cases "detect_cycle us")
  case (Inl err)
  then show ?thesis using detect_cycle_Inl by blast
next
  case (Inr x)
  then show ?thesis by (simp add: detect_cycle_acyclic [symmetric])
qed

section \<open>Validation of dependencies\<close>

text \<open>
  The two nested loops of \<^verbatim>\<open>validateDependencies\<close>. A qualified name is looked up among the
  full names, a bare one among the bare names; the error reports the depending unit.
\<close>

fun check_unit_deps ::
  "string set \<Rightarrow> string set \<Rightarrow> unit_config \<Rightarrow> string list \<Rightarrow> config_error + unit" where
  "check_unit_deps bare qualified u [] = Inr ()"
| "check_unit_deps bare qualified u (dep # deps) =
     (if is_qualified_dep dep then
        (if dep \<notin> qualified then Inl (UnknownDependency (unit_name u) dep)
         else check_unit_deps bare qualified u deps)
      else
        (if dep \<notin> bare then Inl (UnknownDependency (uc_name u) dep)
         else check_unit_deps bare qualified u deps))"

fun check_all_deps ::
  "string set \<Rightarrow> string set \<Rightarrow> unit_config list \<Rightarrow> config_error + unit" where
  "check_all_deps bare qualified [] = Inr ()"
| "check_all_deps bare qualified (u # us) =
     (case check_unit_deps bare qualified u (uc_depends_on u) of
        Inl e \<Rightarrow> Inl e
      | Inr _ \<Rightarrow> check_all_deps bare qualified us)"

definition validate_dependencies :: "unit_config list \<Rightarrow> config_error + unit" where
  "validate_dependencies us =
     (case check_all_deps (set (map uc_name us)) (set (map unit_name us)) us of
        Inl e \<Rightarrow> Inl e
      | Inr _ \<Rightarrow> detect_cycle us)"

text \<open>A dependency resolves when the name it is written with is configured.\<close>

definition dep_resolves :: "unit_config list \<Rightarrow> string \<Rightarrow> bool" where
  "dep_resolves us dep \<longleftrightarrow>
     (if is_qualified_dep dep then dep \<in> set (map unit_name us) else dep \<in> set (map uc_name us))"

lemma check_unit_deps_Inr:
  "check_unit_deps (set (map uc_name us)) (set (map unit_name us)) u deps = Inr () \<longleftrightarrow>
     list_all (dep_resolves us) deps"
  by (induction deps) (auto simp: dep_resolves_def)

lemma check_all_deps_Inr:
  "check_all_deps (set (map uc_name us)) (set (map unit_name us)) vs = Inr () \<longleftrightarrow>
     list_all (\<lambda>u. list_all (dep_resolves us) (uc_depends_on u)) vs"
proof (induction vs)
  case Nil
  then show ?case by simp
next
  case (Cons v vs)
  then show ?case
    using check_unit_deps_Inr [of us v "uc_depends_on v"]
    by (cases "check_unit_deps (set (map uc_name us)) (set (map unit_name us)) v (uc_depends_on v)") auto
qed

lemma validate_dependencies_Inr:
  "validate_dependencies us = Inr () \<longleftrightarrow>
     list_all (\<lambda>u. list_all (dep_resolves us) (uc_depends_on u)) us \<and> acyclic (dep_rel us)"
  using check_all_deps_Inr [of us us] detect_cycle_acyclic [of us]
  by (cases "check_all_deps (set (map uc_name us)) (set (map unit_name us)) us")
    (auto simp: validate_dependencies_def)

section \<open>Bare names against full names\<close>

text \<open>
  What the documentation promises is about full names: a bare dependency means the unit of
  that name with the type of the depending unit. The graph the check searches identifies
  \<^verbatim>\<open>x.service\<close> with \<^verbatim>\<open>x.timer\<close>.
\<close>

definition resolve_dep :: "unit_config \<Rightarrow> string \<Rightarrow> string" where
  "resolve_dep u dep = (if is_qualified_dep dep then dep else dep @ ''.'' @ uc_type u)"

definition full_dep_rel :: "unit_config list \<Rightarrow> (string \<times> string) set" where
  "full_dep_rel us = {(unit_name u, resolve_dep u dep) | u dep. u \<in> set us \<and> dep \<in> set (uc_depends_on u)}"

lemma full_dep_relI:
  "u \<in> set us \<Longrightarrow> dep \<in> set (uc_depends_on u) \<Longrightarrow> unit_name u = a \<Longrightarrow> resolve_dep u dep = b \<Longrightarrow>
     (a, b) \<in> full_dep_rel us"
  by (auto simp: full_dep_rel_def)

definition plain_unit :: "string \<Rightarrow> string \<Rightarrow> string list \<Rightarrow> unit_config" where
  "plain_unit name ty deps =
     \<lparr>uc_name = name, uc_type = ty, uc_enabled = None, uc_critical = False, uc_priority = 0,
      uc_depends_on = deps, uc_grace_period = 0, uc_max_delay = 0, uc_health_checks = [],
      uc_restart = None, uc_instance_match = None\<rparr>"

lemma bare_of_service: "\<not> has_suffix name ''.timer'' \<Longrightarrow> dep_bare_name (name @ ''.service'') = name"
  by (simp add: dep_bare_name_def is_qualified_dep_def trim_suffix_id)

lemma deps_of_last: "deps_of (us @ [u]) (uc_name u) = map dep_bare_name (uc_depends_on u)"
  by (simp add: deps_of_def build_deps_def)

text \<open>A timer that depends on the service of its own name is always rejected as a circular
  dependency, although a timer and a service are different units.\<close>

theorem timer_on_own_service_rejected:
  assumes "uc_name tmr = name" and "name @ ''.service'' \<in> set (uc_depends_on tmr)"
    and "\<not> has_suffix name ''.timer''"
  shows "validate_dependencies (us @ [tmr]) \<noteq> Inr ()"
proof -
  have "name \<in> set (deps_of (us @ [tmr]) name)"
    using deps_of_last [of us tmr] assms(1,2) bare_of_service [OF assms(3)] by force
  then have "(name, name) \<in> dep_rel (us @ [tmr])" by (simp add: dep_rel_def)
  then have "\<not> acyclic (dep_rel (us @ [tmr]))" by (auto simp: acyclic_def)
  then show ?thesis by (simp add: validate_dependencies_Inr)
qed

theorem timer_on_own_service_rejected_witness:
  "validate_dependencies
     ([plain_unit ''backup'' ''service'' []] @ [plain_unit ''backup'' ''timer'' [''backup.service'']])
   \<noteq> Inr ()"
  by (rule timer_on_own_service_rejected [where name = "''backup''"])
    (simp_all add: plain_unit_def has_suffix_def)

text \<open>Conversely a cycle between full names can pass: two services that depend on each
  other are accepted when a timer of the same bare name follows.\<close>

theorem full_name_cycle_accepted:
  "let us = [plain_unit ''a'' ''service'' [''b''], plain_unit ''b'' ''service'' [''a''],
             plain_unit ''a'' ''timer'' []] in
   validate_dependencies us = Inr () \<and> \<not> acyclic (full_dep_rel us)"
proof -
  let ?us = "[plain_unit ''a'' ''service'' [''b''], plain_unit ''b'' ''service'' [''a''],
             plain_unit ''a'' ''timer'' []]"
  have ok: "validate_dependencies ?us = Inr ()" by code_simp
  have "(''a.service'', ''b.service'') \<in> full_dep_rel ?us"
    by (rule full_dep_relI [of "plain_unit ''a'' ''service'' [''b'']" _ "''b''"])
      (simp_all add: resolve_dep_def plain_unit_def unit_name_def is_qualified_dep_def has_suffix_def)
  moreover have "(''b.service'', ''a.service'') \<in> full_dep_rel ?us"
    by (rule full_dep_relI [of "plain_unit ''b'' ''service'' [''a'']" _ "''a''"])
      (simp_all add: resolve_dep_def plain_unit_def unit_name_def is_qualified_dep_def has_suffix_def)
  ultimately have "(''a.service'', ''a.service'') \<in> (full_dep_rel ?us)\<^sup>+" by (meson trancl.r_into_trancl trancl_trans)
  then have "\<not> acyclic (full_dep_rel ?us)" by (auto simp: acyclic_def)
  with ok show ?thesis by (simp add: Let_def)
qed

text \<open>C21. Dependency validation succeeds exactly when every \<^verbatim>\<open>depends_on\<close> entry names a
  configured unit (by full or by bare name, as written) and the bare-name relation is acyclic.\<close>

theorem validate_dependencies_iff:
  "validate_dependencies us = Inr () \<longleftrightarrow>
     list_all (\<lambda>u. list_all (dep_resolves us) (uc_depends_on u)) us \<and> acyclic (dep_rel us)"
  by (rule validate_dependencies_Inr)

end
