(* ===== verification/ConfigOrder.thy ===== *)
theory ConfigOrder
  imports ConfigDeps
begin

text \<open>
  \<^verbatim>\<open>DependencyOrder\<close> and \<^verbatim>\<open>Dependents\<close> of \<^verbatim>\<open>internal/config/config.go\<close>: the second
  depth-first search of the file, over a visited map and an output list, and the reverse
  lookup. On an acyclic relation the output is a topological order; \<open>dep_sorted\<close> is what
  that means.
\<close>

section \<open>The search\<close>

text \<open>
  \<open>do_visit\<close> is the closure \<^verbatim>\<open>visit\<close> and \<open>do_visit_deps\<close> its loop; the pair holds the
  \<^verbatim>\<open>visited\<close> map (as the set of its keys) and the \<^verbatim>\<open>order\<close> slice.
\<close>

type_synonym order_state = "string set \<times> string list"

function (sequential)
  do_visit :: "unit_config list \<Rightarrow> order_state \<Rightarrow> string \<Rightarrow> order_state"
and
  do_visit_deps :: "unit_config list \<Rightarrow> order_state \<Rightarrow> string list \<Rightarrow> order_state"
where
  "do_visit us (vis, ord) n =
     (if n \<in> vis then (vis, ord)
      else (case do_visit_deps us (insert n vis, ord) (deps_of us n) of
              (vis', ord') \<Rightarrow> (vis', ord' @ [n])))"
| "do_visit_deps us s [] = s"
| "do_visit_deps us s (d # ds) = do_visit_deps us (do_visit us s d) ds"
  by pat_completeness auto

lemma do_partial_mono:
  "do_visit_do_visit_deps_dom (Inl (us, s, n)) \<Longrightarrow> fst s \<subseteq> fst (do_visit us s n)"
  "do_visit_do_visit_deps_dom (Inr (us, s, ds)) \<Longrightarrow> fst s \<subseteq> fst (do_visit_deps us s ds)"
proof (induction us s n and us s ds rule: do_visit_do_visit_deps.pinduct)
  case (1 us vis ord n)
  then show ?case by (auto simp: do_visit.psimps split: prod.splits)
next
  case (2 us s)
  then show ?case by (simp add: do_visit_deps.psimps)
next
  case (3 us s d ds)
  then show ?case by (auto simp: do_visit_deps.psimps)
qed

definition do_measure ::
  "(unit_config list \<times> order_state \<times> string) + (unit_config list \<times> order_state \<times> string list) \<Rightarrow>
     nat \<times> nat" where
  "do_measure x =
     (case x of
        Inl (us, s, n) \<Rightarrow> (card (dep_nodes us - fst s), 1)
      | Inr (us, s, ds) \<Rightarrow> (card (dep_nodes us - fst s), 2 * length ds))"

lemma unseen_le: "A \<subseteq> B \<Longrightarrow> card (dep_nodes us - B) \<le> card (dep_nodes us - A)"
  by (rule card_mono) auto

lemma unseen_less: "n \<in> dep_nodes us \<Longrightarrow> n \<notin> A \<Longrightarrow> card (dep_nodes us - insert n A) < card (dep_nodes us - A)"
  by (rule psubset_card_mono) auto

termination do_visit
proof (relation "inv_image (less_than <*lex*> less_than) do_measure", goal_cases)
  case 1
  show ?case by (simp add: wf_lex_prod)
next
  case (2 us vis ord n)
  then show ?case
    using unseen_less [of n us vis] unseen_le [of vis "insert n vis" us]
    by (cases "n \<in> dep_nodes us") (auto simp: do_measure_def deps_of_outside nat_less_le)
next
  case (3 us s d ds)
  then show ?case by (simp add: do_measure_def)
next
  case (4 us s d ds)
  then have "fst s \<subseteq> fst (do_visit us s d)" by (rule do_partial_mono)
  from unseen_le [OF this, of us] show ?case by (auto simp: do_measure_def nat_less_le)
qed

declare do_visit.simps [simp del]

definition dependency_order :: "unit_config list \<Rightarrow> string list" where
  "dependency_order us = snd (do_visit_deps us ({}, []) (map uc_name us))"

section \<open>Reverse lookup\<close>

definition dependents :: "unit_config list \<Rightarrow> string \<Rightarrow> string list" where
  "dependents us name =
     map uc_name (filter (\<lambda>u. list_ex (\<lambda>dep. dep = name \<or> dep_bare_name dep = name) (uc_depends_on u)) us)"

section \<open>Topological order\<close>

definition dep_sorted :: "unit_config list \<Rightarrow> string list \<Rightarrow> bool" where
  "dep_sorted us ord \<longleftrightarrow> (\<forall>i < length ord. set (deps_of us (ord ! i)) \<subseteq> set (take i ord))"

lemma dep_sorted_Nil [simp]: "dep_sorted us []"
  by (simp add: dep_sorted_def)

lemma dep_sorted_snoc:
  "dep_sorted us (ord @ [n]) \<longleftrightarrow> dep_sorted us ord \<and> set (deps_of us n) \<subseteq> set ord"
  by (auto simp: dep_sorted_def nth_append less_Suc_eq)

text \<open>
  The invariant of the search: the output is duplicate-free, sorted and visited, and every
  visited node that is not yet output is an ancestor of what is visited next.
\<close>

definition do_inv :: "unit_config list \<Rightarrow> order_state \<Rightarrow> bool" where
  "do_inv us s \<longleftrightarrow> distinct (snd s) \<and> dep_sorted us (snd s) \<and> set (snd s) \<subseteq> fst s"

definition open_nodes :: "order_state \<Rightarrow> string set" where
  "open_nodes s = fst s - set (snd s)"

lemma do_inv_simps:
  "do_inv us (vis, ord) \<longleftrightarrow> distinct ord \<and> dep_sorted us ord \<and> set ord \<subseteq> vis"
  "open_nodes (vis, ord) = vis - set ord"
  by (simp_all add: do_inv_def open_nodes_def)

lemma do_correct:
  "acyclic (dep_rel us) \<Longrightarrow> do_inv us s \<Longrightarrow> (\<forall>g \<in> open_nodes s. (g, n) \<in> (dep_rel us)\<^sup>+) \<Longrightarrow>
     do_inv us (do_visit us s n) \<and> open_nodes (do_visit us s n) = open_nodes s
     \<and> n \<in> set (snd (do_visit us s n)) \<and> set (snd s) \<subseteq> set (snd (do_visit us s n))"
  "acyclic (dep_rel us) \<Longrightarrow> do_inv us s \<Longrightarrow>
     (\<forall>d \<in> set ds. \<forall>g \<in> open_nodes s. (g, d) \<in> (dep_rel us)\<^sup>+) \<Longrightarrow>
     do_inv us (do_visit_deps us s ds) \<and> open_nodes (do_visit_deps us s ds) = open_nodes s
     \<and> set ds \<subseteq> set (snd (do_visit_deps us s ds)) \<and> set (snd s) \<subseteq> set (snd (do_visit_deps us s ds))"
proof (induction us s n and us s ds rule: do_visit_do_visit_deps.induct)
  case (1 us vis ord n)
  show ?case
  proof (cases "n \<in> vis")
    case True
    have "n \<in> set ord"
    proof (rule ccontr)
      assume "n \<notin> set ord"
      with True have "n \<in> open_nodes (vis, ord)" by (simp add: open_nodes_def)
      with "1.prems"(1,3) show False by (auto simp: acyclic_def)
    qed
    with True "1.prems" show ?thesis by (simp add: do_visit.simps)
  next
    case False
    obtain vis' ord' where run: "do_visit_deps us (insert n vis, ord) (deps_of us n) = (vis', ord')"
      by fastforce
    have fresh: "n \<notin> set ord" using False "1.prems"(2) by (auto simp: do_inv_simps)
    have inv: "do_inv us (insert n vis, ord)" using "1.prems"(2) by (auto simp: do_inv_simps)
    have op: "open_nodes (insert n vis, ord) = insert n (open_nodes (vis, ord))"
      using fresh by (auto simp: do_inv_simps)
    have anc: "(g, d) \<in> (dep_rel us)\<^sup>+"
      if "d \<in> set (deps_of us n)" "g \<in> open_nodes (insert n vis, ord)" for d g
    proof -
      have "(n, d) \<in> dep_rel us" using that(1) by (simp add: dep_rel_def)
      with that(2) "1.prems"(3) show ?thesis unfolding op by (auto intro: trancl_into_trancl)
    qed
    from "1.IH" [OF False "1.prems"(1) inv] anc run
    have res: "do_inv us (vis', ord')" "open_nodes (vis', ord') = insert n (open_nodes (vis, ord))"
      "set (deps_of us n) \<subseteq> set ord'" "set ord \<subseteq> set ord'"
      by (auto simp: op)
    then have "n \<in> vis'" "n \<notin> set ord'" by (auto simp: do_inv_simps)
    moreover have "n \<notin> open_nodes (vis, ord)" using False by (simp add: do_inv_simps)
    ultimately show ?thesis
      using False run res by (auto simp: do_visit.simps do_inv_simps dep_sorted_snoc)
  qed
next
  case (2 us s)
  then show ?case by simp
next
  case (3 us s d ds)
  let ?s' = "do_visit us s d"
  have a: "do_inv us ?s'" "open_nodes ?s' = open_nodes s" "d \<in> set (snd ?s')" "set (snd s) \<subseteq> set (snd ?s')"
    using "3.IH"(1) "3.prems" by auto
  have b: "do_inv us (do_visit_deps us ?s' ds)" "open_nodes (do_visit_deps us ?s' ds) = open_nodes ?s'"
    "set ds \<subseteq> set (snd (do_visit_deps us ?s' ds))" "set (snd ?s') \<subseteq> set (snd (do_visit_deps us ?s' ds))"
    using "3.IH"(2) [OF "3.prems"(1) a(1)] "3.prems"(3) a(2) by auto
  from a b show ?case by auto
qed

text \<open>Nothing is output that is not reachable from what the search was started on.\<close>

lemma do_reachable:
  "set (snd (do_visit us s n)) \<subseteq> set (snd s) \<union> (dep_rel us)\<^sup>* `` {n}"
  "set (snd (do_visit_deps us s ds)) \<subseteq> set (snd s) \<union> (dep_rel us)\<^sup>* `` set ds"
proof (induction us s n and us s ds rule: do_visit_do_visit_deps.induct)
  case (1 us vis ord n)
  obtain vis' ord' where run: "do_visit_deps us (insert n vis, ord) (deps_of us n) = (vis', ord')"
    by fastforce
  have "(dep_rel us)\<^sup>* `` set (deps_of us n) \<subseteq> (dep_rel us)\<^sup>* `` {n}"
    by (auto simp: dep_rel_def intro: converse_rtrancl_into_rtrancl)
  with "1.IH" run show ?case by (auto simp: do_visit.simps)
next
  case (3 us s d ds)
  then show ?case by (simp add: Un_assoc) blast
qed simp

lemma dependency_order_start:
  assumes "acyclic (dep_rel us)"
  shows "distinct (dependency_order us)" and "dep_sorted us (dependency_order us)"
    and "uc_name ` set us \<subseteq> set (dependency_order us)"
  using do_correct(2) [of us "({}, [])" "map uc_name us"] assms
  by (auto simp: dependency_order_def do_inv_def open_nodes_def)

lemma dependency_order_set:
  assumes "acyclic (dep_rel us)"
  shows "set (dependency_order us) = (dep_rel us)\<^sup>* `` (uc_name ` set us)"
proof
  show "set (dependency_order us) \<subseteq> (dep_rel us)\<^sup>* `` (uc_name ` set us)"
    using do_reachable(2) [of us "({}, [])" "map uc_name us"] by (simp add: dependency_order_def)
next
  have "b \<in> set (dependency_order us)"
    if "(a, b) \<in> (dep_rel us)\<^sup>*" "a \<in> set (dependency_order us)" for a b
    using that
  proof (induction rule: rtrancl_induct)
    case (step b c)
    then obtain i where i: "i < length (dependency_order us)" "dependency_order us ! i = b"
      by (auto simp: in_set_conv_nth)
    have "c \<in> set (deps_of us b)" using step.hyps(2) by (simp add: dep_rel_def)
    with i dependency_order_start(2) [OF assms] show ?case
      unfolding dep_sorted_def using set_take_subset [of i "dependency_order us"] by blast
  qed
  with dependency_order_start(3) [OF assms]
  show "(dep_rel us)\<^sup>* `` (uc_name ` set us) \<subseteq> set (dependency_order us)" by blast
qed

text \<open>One name stands before another in the order.\<close>

definition comes_before :: "string list \<Rightarrow> string \<Rightarrow> string \<Rightarrow> bool" where
  "comes_before ord a b \<longleftrightarrow> (\<exists>i j. i < j \<and> j < length ord \<and> ord ! i = a \<and> ord ! j = b)"

lemma dep_sorted_before:
  assumes "dep_sorted us ord" "b \<in> set ord" "a \<in> set (deps_of us b)"
  shows "comes_before ord a b"
proof -
  obtain j where j: "j < length ord" "ord ! j = b" using assms(2) by (auto simp: in_set_conv_nth)
  then have "a \<in> set (take j ord)" using assms(1,3) by (auto simp: dep_sorted_def)
  then obtain i where "i < j" "ord ! i = a" using j(1) by (auto simp: in_set_conv_nth)
  with j show ?thesis unfolding comes_before_def by blast
qed

text \<open>C9. \<^verbatim>\<open>DependencyOrder\<close> works on bare names (a name without its \<^verbatim>\<open>.service\<close> or
  \<^verbatim>\<open>.timer\<close>), and of two units of one bare name the later one's dependencies count;
  \<open>dep_rel\<close> is that relation. When it is acyclic, the order lists the bare name of every unit and
  everything reachable from one exactly once, and each of them after everything its dependencies
  name. Where no two units share a bare name, this is about the units themselves: every unit comes
  after each entry of its own \<^verbatim>\<open>depends_on\<close>. (Where they do, the earlier unit's dependencies
  are lost: Lemma \<^verbatim>\<open>shadowed_dependency_ignored\<close>.)\<close>

theorem dependency_order_topological:
  assumes "acyclic (dep_rel us)"
  shows "distinct (dependency_order us)
    \<and> set (dependency_order us) = (dep_rel us)\<^sup>* `` (uc_name ` set us)
    \<and> dep_sorted us (dependency_order us)
    \<and> (distinct (map uc_name us) \<longrightarrow>
        (\<forall>u \<in> set us. \<forall>dep \<in> set (uc_depends_on u).
           comes_before (dependency_order us) (dep_bare_name dep) (uc_name u)))"
  using dependency_order_start [OF assms] dependency_order_set [OF assms] deps_of_unique [of us]
  by (auto intro!: dep_sorted_before)

theorem dependency_order_topological_witness:
  "let us = [plain_unit ''web'' ''service'' [''db'', ''cache''], plain_unit ''cache'' ''service'' [''db.service''],
             plain_unit ''db'' ''service'' []] in
   dependency_order us = [''db'', ''cache'', ''web''] \<and> distinct (dependency_order us)
   \<and> dep_sorted us (dependency_order us) \<and> comes_before (dependency_order us) ''db'' ''cache''"
proof -
  let ?us = "[plain_unit ''web'' ''service'' [''db'', ''cache''], plain_unit ''cache'' ''service'' [''db.service''],
             plain_unit ''db'' ''service'' []]"
  have ord: "dependency_order ?us = [''db'', ''cache'', ''web'']" by code_simp
  have "validate_dependencies ?us = Inr ()" by code_simp
  then have ac: "acyclic (dep_rel ?us)" by (simp add: validate_dependencies_Inr)
  have bare: "dep_bare_name ''db.service'' = ''db''" by code_simp
  from dependency_order_topological [OF ac]
  have "distinct (map uc_name ?us) \<longrightarrow>
      (\<forall>u \<in> set ?us. \<forall>dep \<in> set (uc_depends_on u).
         comes_before (dependency_order ?us) (dep_bare_name dep) (uc_name u))" by blast
  then have "comes_before (dependency_order ?us) ''db'' ''cache''"
    by (simp add: plain_unit_def bare)
  with dependency_order_topological [OF ac] ord show ?thesis by (simp add: Let_def)
qed

text \<open>
  Of two units of one bare name the later one counts: \<^verbatim>\<open>x.service\<close> depends on \<^verbatim>\<open>a\<close>, the
  \<^verbatim>\<open>x.timer\<close> beside it on nothing, and \<^verbatim>\<open>x\<close> is ordered before \<^verbatim>\<open>a\<close>.
\<close>

lemma shadowed_dependency_ignored:
  "let us = [plain_unit ''x'' ''service'' [''a''], plain_unit ''x'' ''timer'' [], plain_unit ''a'' ''service'' []] in
   validate_dependencies us = Inr () \<and> dependency_order us = [''x'', ''a'']"
  by code_simp

section \<open>The reverse lookup\<close>

lemma dependents_iff:
  "n \<in> set (dependents us name) \<longleftrightarrow>
     (\<exists>u \<in> set us. uc_name u = n \<and> (\<exists>dep \<in> set (uc_depends_on u). dep = name \<or> dep_bare_name dep = name))"
  by (auto simp: dependents_def list_ex_iff)

lemma dependents_dep_rel:
  assumes "distinct (map uc_name us)" and "(n, name) \<in> dep_rel us"
  shows "n \<in> set (dependents us name)"
proof -
  from dep_rel_nodes [OF assms(2)] obtain u where u: "u \<in> set us" "uc_name u = n" by auto
  with deps_of_unique [OF assms(1) u(1)] assms(2) show ?thesis
    by (auto simp: dep_rel_def dependents_iff)
qed

end
