(* ===== verification/ConfigLoad.thy ===== *)
theory ConfigLoad
  imports ConfigDefaults ConfigOrder
begin

text \<open>
  \<^verbatim>\<open>Load\<close> and \<^verbatim>\<open>formatFirstValidationError\<close> of \<^verbatim>\<open>internal/config/config.go\<close>: reading,
  parsing, defaults, validation and the final sort. The file system, the YAML library, the
  struct validator and the regular expression compiler are not part of the repository; they
  are the fields of \<open>load_env\<close>. What a successful load guarantees is \<open>config_wf\<close>.
\<close>

section \<open>Validation errors\<close>

record validation_error =
  ve_namespace :: string
  ve_tag :: string
  ve_param :: string

text \<open>
  The outcome of \<^verbatim>\<open>validate.Struct\<close>: nil, a \<^verbatim>\<open>ValidationErrors\<close> slice, or another error.
\<close>

datatype validation_outcome =
  Valid | FieldErrors "validation_error list" | OtherError string

definition strip_root :: "string \<Rightarrow> string" where
  "strip_root field =
     (case index_char field CHR ''.'' of None \<Rightarrow> field | Some i \<Rightarrow> drop (Suc i) field)"

definition validation_message :: "validation_error \<Rightarrow> string" where
  "validation_message e =
     (let field = strip_root (ve_namespace e); tag = ve_tag e in
      if tag = ''required'' \<or> tag = ''required_if'' then field @ '' is required''
      else if tag = ''oneof'' then field @ '' must be one of ['' @ ve_param e @ '']''
      else if tag = ''min'' then field @ '' must be at least '' @ ve_param e
      else if tag = ''max'' then field @ '' must be at most '' @ ve_param e
      else if tag = ''url'' then field @ '' must be a valid URL''
      else field @ '' failed validation ('' @ tag @ '')'')"

text \<open>\<open>None\<close> is the panic of indexing an empty \<^verbatim>\<open>ValidationErrors\<close>.\<close>

definition format_first_validation_error :: "string \<Rightarrow> validation_outcome \<Rightarrow> string option" where
  "format_first_validation_error unit err =
     (case err of
        Valid \<Rightarrow> Some []
      | OtherError msg \<Rightarrow> Some msg
      | FieldErrors [] \<Rightarrow> None
      | FieldErrors (e # _) \<Rightarrow>
          Some (if unit \<noteq> [] then unit @ '': '' @ validation_message e else validation_message e))"

section \<open>Loading\<close>

record raw_config =
  raw_log_level :: string
  raw_units :: yaml_node
  raw_notify :: notify_config
  raw_socket :: string
  raw_discovery_interval :: duration
  raw_http :: http_config
  raw_socket_activation :: yaml_node

record load_env =
  le_read_file :: "string \<Rightarrow> string + string"
  le_unmarshal :: "string \<Rightarrow> string + raw_config"
  le_decode_unit :: "yaml_node \<Rightarrow> string + unit_config"
  le_decode_socket :: "yaml_node \<Rightarrow> string + socket_activation_config"
  le_validate_config :: "config \<Rightarrow> validation_outcome"
  le_validate_unit :: "unit_config \<Rightarrow> validation_outcome"
  le_re_compile :: "string \<Rightarrow> string option"

datatype load_error =
    ReadingConfig string
  | ParsingYaml string
  | ParsingConfig config_error
  | ValidationFailed "string option"
  | ValidatingConfig config_error

definition config_with_defaults ::
  "raw_config \<Rightarrow> unit_config list \<Rightarrow> socket_activation_config list \<Rightarrow> config" where
  "config_with_defaults raw units sockets =
     \<lparr>cfg_log_level = (if raw_log_level raw = [] then ''info'' else raw_log_level raw),
      cfg_units = map apply_defaults units,
      cfg_notify = raw_notify raw,
      cfg_socket =
        (if raw_socket raw = [] then ''/var/run/systemd-supervisord.socket'' else raw_socket raw),
      cfg_discovery_interval =
        (if raw_discovery_interval raw = 0 then 30 * second else raw_discovery_interval raw),
      cfg_http = apply_http_defaults (raw_http raw),
      cfg_socket_activation = map apply_socket_activation_defaults sockets\<rparr>"

fun validate_units_loop ::
  "(unit_config \<Rightarrow> validation_outcome) \<Rightarrow> unit_config list \<Rightarrow> load_error + unit" where
  "validate_units_loop validate [] = Inr ()"
| "validate_units_loop validate (u # us) =
     (case validate u of
        Valid \<Rightarrow> validate_units_loop validate us
      | err \<Rightarrow> Inl (ValidationFailed (format_first_validation_error (unit_name u) err)))"

definition validate_struct :: "load_env \<Rightarrow> config \<Rightarrow> load_error + unit" where
  "validate_struct env cfg =
     (case le_validate_config env cfg of
        Valid \<Rightarrow> Inr ()
      | err \<Rightarrow> Inl (ValidationFailed (format_first_validation_error [] err)))"

definition load :: "load_env \<Rightarrow> string \<Rightarrow> load_error + config" where
  "load env path =
     bind_err (wrap_err ReadingConfig (le_read_file env path)) (\<lambda>data.
     bind_err (wrap_err ParsingYaml (le_unmarshal env data)) (\<lambda>raw.
     bind_err (wrap_err ParsingConfig (parse_units (le_decode_unit env) (raw_units raw))) (\<lambda>units.
     bind_err (wrap_err ParsingConfig
       (parse_socket_activation (le_decode_socket env) (raw_socket_activation raw))) (\<lambda>sockets.
     let cfg = config_with_defaults raw units sockets in
     bind_err (validate_struct env cfg) (\<lambda>_.
     bind_err (validate_units_loop (le_validate_unit env) (cfg_units cfg)) (\<lambda>_.
     bind_err (wrap_err ValidatingConfig (validate_templates (le_re_compile env) (cfg_units cfg))) (\<lambda>us.
     bind_err (wrap_err ValidatingConfig (validate_dependencies us)) (\<lambda>_.
     bind_err (wrap_err ValidatingConfig (validate_socket_activation (cfg_socket_activation cfg))) (\<lambda>_.
     Inr (cfg\<lparr>cfg_units := sort_key uc_priority us\<rparr>))))))))))"

section \<open>What a successful load guarantees\<close>

definition health_check_wf :: "health_check \<Rightarrow> bool" where
  "health_check_wf c \<longleftrightarrow> hc_interval c \<noteq> 0 \<and> hc_timeout c \<noteq> 0 \<and> hc_retries c \<noteq> 0"

definition restart_wf :: "restart_policy option \<Rightarrow> bool" where
  "restart_wf p = (case p of None \<Rightarrow> False | Some q \<Rightarrow> rp_backoff q \<noteq> 0 \<and> rp_cooldown q \<noteq> 0)"

definition unit_wf :: "unit_config \<Rightarrow> bool" where
  "unit_wf u \<longleftrightarrow>
     uc_name u \<noteq> [] \<and> uc_type u \<in> {''service'', ''timer''} \<and> uc_priority u \<noteq> 0
     \<and> (uc_max_delay u > 0 \<longrightarrow> uc_type u = ''timer'')
     \<and> list_all health_check_wf (uc_health_checks u) \<and> restart_wf (uc_restart u)"

definition socket_wf :: "socket_activation_config \<Rightarrow> bool" where
  "socket_wf s \<longleftrightarrow>
     sa_unit s \<noteq> [] \<and> sa_name s = socket_activation_name (sa_unit s)
     \<and> sa_protocol s \<noteq> [] \<and> distinct (sa_protocol s)
     \<and> sa_startup_timeout s \<noteq> 0 \<and> sa_idle_timeout s \<noteq> 0
     \<and> list_all health_check_wf (sa_health_checks s) \<and> restart_wf (sa_restart s)"

definition config_wf :: "config \<Rightarrow> bool" where
  "config_wf cfg \<longleftrightarrow>
     distinct (map unit_name (cfg_units cfg)) \<and> list_all unit_wf (cfg_units cfg)
     \<and> sorted (map uc_priority (cfg_units cfg))
     \<and> list_all (\<lambda>u. list_all (dep_resolves (cfg_units cfg)) (uc_depends_on u)) (cfg_units cfg)
     \<and> distinct (map sa_unit (cfg_socket_activation cfg))
     \<and> list_all socket_wf (cfg_socket_activation cfg)
     \<and> distinct (listener_keys (cfg_socket_activation cfg))
     \<and> cfg_discovery_interval cfg \<noteq> 0 \<and> cfg_socket cfg \<noteq> [] \<and> cfg_log_level cfg \<noteq> []"

section \<open>Lemmas\<close>

lemma unit_name_defaults [simp]:
  "uc_name (apply_defaults u) = uc_name u" "uc_type (apply_defaults u) = uc_type u"
  "unit_name (apply_defaults u) = unit_name u" "uc_depends_on (apply_defaults u) = uc_depends_on u"
  "uc_max_delay (apply_defaults u) = uc_max_delay u"
  by (simp_all add: apply_defaults_def unit_name_def)

lemma default_health_check_wf: "health_check_wf (default_health_check c)"
  by (simp add: health_check_wf_def default_health_check_def second_def)

lemma health_check_defaults_wf: "list_all health_check_wf (apply_health_check_defaults cs)"
  by (simp add: apply_health_check_defaults_def list_all_iff default_health_check_wf)

lemma restart_policy_defaults_wf: "restart_wf (Some (restart_policy_with_defaults p))"
  by (simp add: restart_wf_def restart_policy_with_defaults_def second_def Let_def split: option.split)

lemma apply_defaults_wf:
  assumes "uc_name u \<noteq> []" and "uc_type u \<in> {''service'', ''timer''}"
    and "uc_max_delay u > 0 \<longrightarrow> uc_type u = ''timer''"
  shows "unit_wf (apply_defaults u)"
  using assms health_check_defaults_wf restart_policy_defaults_wf
  by (simp add: unit_wf_def) (simp add: apply_defaults_def default_priority_def)

lemma unit_wf_instance_match: "unit_wf (u\<lparr>uc_instance_match := m\<rparr>) = unit_wf u"
  by (simp add: unit_wf_def)

lemma unit_name_instance_match: "unit_name (u\<lparr>uc_instance_match := m\<rparr>) = unit_name u"
  by (simp add: unit_name_def)

lemma dedupe_protocols_props:
  "distinct (dedupe_protocols ps)" "set (dedupe_protocols ps) = set ps"
  using dedupe_loop_props [of "{}" ps] by (simp_all add: dedupe_protocols_def)

lemma socket_defaults_wf:
  assumes "sa_unit s \<noteq> []" and "sa_name s = socket_activation_name (sa_unit s)"
  shows "socket_wf (apply_socket_activation_defaults s)"
proof -
  have "dedupe_protocols (sa_protocol s) \<noteq> []" if "sa_protocol s \<noteq> []"
    using that dedupe_protocols_props(2) [of "sa_protocol s"] by (metis set_empty)
  then show ?thesis
    using assms health_check_defaults_wf restart_policy_defaults_wf
    by (simp add: socket_wf_def apply_socket_activation_defaults_def dedupe_protocols_props
        default_startup_timeout_def default_idle_timeout_def second_def)
qed

lemma validate_struct_Inr: "validate_struct env cfg = Inr x \<longleftrightarrow> le_validate_config env cfg = Valid"
  by (simp add: validate_struct_def split: validation_outcome.split)

lemma validate_units_loop_Inr:
  "validate_units_loop validate us = Inr () \<longleftrightarrow> list_all (\<lambda>u. validate u = Valid) us"
  by (induction us) (auto split: validation_outcome.splits)

text \<open>Every stage of a successful load, in order.\<close>

lemma load_InrE:
  assumes "load env path = Inr cfg"
  obtains data raw units sockets us where
    "le_read_file env path = Inr data" and "le_unmarshal env data = Inr raw"
    and "parse_units (le_decode_unit env) (raw_units raw) = Inr units"
    and "parse_socket_activation (le_decode_socket env) (raw_socket_activation raw) = Inr sockets"
    and "le_validate_config env (config_with_defaults raw units sockets) = Valid"
    and "list_all (\<lambda>u. le_validate_unit env u = Valid) (map apply_defaults units)"
    and "validate_templates (le_re_compile env) (map apply_defaults units) = Inr us"
    and "validate_dependencies us = Inr ()"
    and "validate_socket_activation (map apply_socket_activation_defaults sockets) = Inr ()"
    and "cfg = (config_with_defaults raw units sockets)\<lparr>cfg_units := sort_key uc_priority us\<rparr>"
  using assms
  by (auto simp: load_def go_error Let_def validate_struct_Inr validate_units_loop_Inr
      config_with_defaults_def)

lemma parse_units_props:
  assumes "parse_units decode node = Inr units"
  shows "map unit_name units = (if node_kind node = ZeroKind then [] else node_keys (node_content node))"
    and "distinct (map unit_name units)"
    and "\<forall>u \<in> set units. uc_name u \<noteq> [] \<and> uc_type u \<in> {''service'', ''timer''}"
proof -
  show names: "map unit_name units = (if node_kind node = ZeroKind then [] else node_keys (node_content node))"
    using assms by (auto simp: parse_units_def dest: parse_units_loop_names split: if_splits)
  show "distinct (map unit_name units)"
    unfolding names using assms
    by (auto simp: parse_units_def dest: parse_units_loop_fresh split: if_splits)
  show "\<forall>u \<in> set units. uc_name u \<noteq> [] \<and> uc_type u \<in> {''service'', ''timer''}"
    using assms parse_units_loop_entries [of decode "{}" "node_content node" units]
    by (auto simp: parse_units_def split: if_splits)
qed

lemma parse_socket_activation_loop_entries:
  assumes "parse_socket_activation_loop decode seen ns = Inr es"
  shows "\<forall>e \<in> set es. sa_unit e \<noteq> [] \<and> sa_name e = socket_activation_name (sa_unit e)"
  using assms
proof (induction decode seen ns arbitrary: es rule: parse_socket_activation_loop.induct)
  case (1 decode seen k v rest)
  from "1.prems" obtain s es' where
    key: "node_value k \<noteq> []" "node_value k \<notin> seen" "decode v = Inr s"
    and rest: "parse_socket_activation_loop decode (insert (node_value k) seen) rest = Inr es'"
    and es: "es = s\<lparr>sa_unit := node_value k, sa_name := socket_activation_name (node_value k)\<rparr> # es'"
    by (auto simp: Let_def split: if_splits sum.splits)
  from "1.IH" [OF refl key rest] key(1) es show ?case by auto
qed auto

lemma parse_socket_activation_props:
  assumes "parse_socket_activation decode node = Inr es"
  shows "distinct (map sa_unit es)"
    and "\<forall>e \<in> set es. sa_unit e \<noteq> [] \<and> sa_name e = socket_activation_name (sa_unit e)"
  using assms parse_socket_activation_loop_units parse_socket_activation_loop_entries
  by (auto simp: parse_socket_activation_def split: if_splits)

lemma validated_units_wf:
  assumes "validate_templates rc (map apply_defaults units) = Inr us"
    and "\<forall>u \<in> set units. uc_name u \<noteq> [] \<and> uc_type u \<in> {''service'', ''timer''}"
  shows "map unit_name us = map unit_name units" and "list_all unit_wf us"
proof -
  let ?R = "\<lambda>u u'. \<exists>m. u' = u\<lparr>uc_instance_match := m\<rparr>"
  have rel: "list_all2 ?R (map apply_defaults units) us"
    by (rule validate_templates_frame [OF assms(1)])
  have "map unit_name us = map unit_name (map apply_defaults units)"
    using rel by (induction rule: list_all2_induct) (auto simp: unit_name_instance_match)
  then show "map unit_name us = map unit_name units" by (simp add: comp_def)
  have "list_all unit_wf (map apply_defaults units)"
  proof (simp add: list_all_iff, rule ballI)
    fix u
    assume u: "u \<in> set units"
    then have "apply_defaults u \<in> set (map apply_defaults units)" by simp
    from validate_templates_max_delay [OF assms(1) this]
    have "uc_max_delay u > 0 \<longrightarrow> uc_type u = ''timer''" by simp
    with u assms(2) show "unit_wf (apply_defaults u)" by (intro apply_defaults_wf) blast+
  qed
  with rel show "list_all unit_wf us"
    by (induction rule: list_all2_induct) (auto simp: unit_wf_instance_match)
qed

lemma dep_resolves_sort [simp]: "dep_resolves (sort_key f us) = dep_resolves us"
  by (simp add: dep_resolves_def fun_eq_iff)

lemma distinct_map_sort_key: "distinct (map f (sort_key g us)) = distinct (map f us)"
  by (simp add: distinct_map)

lemma load_wf:
  assumes "load env path = Inr cfg"
  shows "config_wf cfg"
proof -
  from assms obtain data raw units sockets us where
    pu: "parse_units (le_decode_unit env) (raw_units raw) = Inr units"
    and ps: "parse_socket_activation (le_decode_socket env) (raw_socket_activation raw) = Inr sockets"
    and vt: "validate_templates (le_re_compile env) (map apply_defaults units) = Inr us"
    and vd: "validate_dependencies us = Inr ()"
    and vs: "validate_socket_activation (map apply_socket_activation_defaults sockets) = Inr ()"
    and cfg: "cfg = (config_with_defaults raw units sockets)\<lparr>cfg_units := sort_key uc_priority us\<rparr>"
    by (rule load_InrE)
  let ?ss = "map apply_socket_activation_defaults sockets"
  have units: "cfg_units cfg = sort_key uc_priority us" and sas: "cfg_socket_activation cfg = ?ss"
    using cfg by (simp_all add: config_with_defaults_def)
  note wf = validated_units_wf [OF vt parse_units_props(3) [OF pu]]
  have "distinct (map unit_name us)" using wf(1) parse_units_props(2) [OF pu] by simp
  moreover have "list_all unit_wf (sort_key uc_priority us)" using wf(2) by (simp add: list_all_iff)
  moreover have "list_all (\<lambda>u. list_all (dep_resolves us) (uc_depends_on u)) (sort_key uc_priority us)"
    using vd by (simp add: validate_dependencies_Inr list_all_iff)
  moreover have "distinct (map sa_unit ?ss)"
    using parse_socket_activation_props(1) [OF ps] by (simp add: comp_def apply_socket_activation_defaults_def)
  moreover have "list_all socket_wf ?ss"
    using parse_socket_activation_props(2) [OF ps] by (auto simp: list_all_iff intro!: socket_defaults_wf)
  moreover have "distinct (listener_keys ?ss)"
    using vs by (simp add: validate_socket_activation_def validate_socket_activation_loop_Inr)
  moreover have "cfg_discovery_interval cfg \<noteq> 0 \<and> cfg_socket cfg \<noteq> [] \<and> cfg_log_level cfg \<noteq> []"
    using cfg by (simp add: config_with_defaults_def second_def)
  ultimately show ?thesis
    by (simp add: config_wf_def units sas distinct_map_sort_key)
qed

section \<open>Properties\<close>

text \<open>C3. A configuration that loads is well formed, whatever the file held: full unit names are
  unique, every unit has a type, a non-zero priority, a restart policy with non-zero delays and
  health checks with non-zero interval, timeout and retries, \<^verbatim>\<open>max_delay\<close> occurs on timers only,
  every dependency names a configured unit, listeners and socket units are unique, and the units
  are sorted by priority.\<close>

theorem load_config_wf:
  assumes "load env path = Inr cfg"
  shows "config_wf cfg"
  by (rule load_wf [OF assms])

text \<open>A small environment: one file, two units, no listeners.\<close>

definition scalar :: "string \<Rightarrow> yaml_node" where
  "scalar s = YamlNode ScalarNode s []"

definition sample_raw :: raw_config where
  "sample_raw =
     \<lparr>raw_log_level = [],
      raw_units = YamlNode MappingNode []
        [scalar ''web.service'', scalar ''late'', scalar ''db.service'', scalar ''early''],
      raw_notify = \<lparr>nc_variables = [], nc_webhooks = [], nc_scripts = [], nc_execs = []\<rparr>,
      raw_socket = [], raw_discovery_interval = 0,
      raw_http = \<lparr>ht_listen = [], ht_read_timeout = 0, ht_write_timeout = 0, ht_shutdown_timeout = 0\<rparr>,
      raw_socket_activation = YamlNode ZeroKind [] []\<rparr>"

definition sample_env :: load_env where
  "sample_env =
     \<lparr>le_read_file = (\<lambda>p. if p = ''config.yaml'' then Inr ''data'' else Inl ''no such file''),
      le_unmarshal = (\<lambda>d. Inr sample_raw),
      le_decode_unit =
        (\<lambda>n. Inr ((plain_unit [] [] [])\<lparr>uc_priority := (if node_value n = ''early'' then 1 else 0),
                   uc_depends_on := (if node_value n = ''late'' then [''db''] else [])\<rparr>)),
      le_decode_socket = (\<lambda>n. Inl ''none''),
      le_validate_config = (\<lambda>c. Valid), le_validate_unit = (\<lambda>u. Valid),
      le_re_compile = (\<lambda>p. None)\<rparr>"

definition sample_config :: config where
  "sample_config = (case load sample_env ''config.yaml'' of Inr c \<Rightarrow> c)"

lemma load_sample: "load sample_env ''config.yaml'' = Inr sample_config"
  and load_sample_names: "map unit_name (cfg_units sample_config) = [''db.service'', ''web.service'']"
  by code_simp+

theorem load_config_wf_witness:
  "load sample_env ''config.yaml'' = Inr sample_config \<and> config_wf sample_config"
  using load_config_wf [OF load_sample] load_sample by blast

text \<open>The order of the units of a loaded configuration is the document order of their keys,
  stably sorted by priority: units of one priority keep their order in the file.\<close>

theorem load_priority_order:
  assumes "load env path = Inr cfg"
  shows "\<exists>data raw us. le_read_file env path = Inr data \<and> le_unmarshal env data = Inr raw
    \<and> map unit_name us = (if node_kind (raw_units raw) = ZeroKind then []
                            else node_keys (node_content (raw_units raw)))
    \<and> cfg_units cfg = sort_key uc_priority us
    \<and> (\<forall>p. filter (\<lambda>u. uc_priority u = p) (cfg_units cfg) = filter (\<lambda>u. uc_priority u = p) us)
    \<and> acyclic (dep_rel us)"
proof -
  from assms obtain data raw units sockets us where
    io: "le_read_file env path = Inr data" "le_unmarshal env data = Inr raw"
    and pu: "parse_units (le_decode_unit env) (raw_units raw) = Inr units"
    and vt: "validate_templates (le_re_compile env) (map apply_defaults units) = Inr us"
    and vd: "validate_dependencies us = Inr ()"
    and cfg: "cfg = (config_with_defaults raw units sockets)\<lparr>cfg_units := sort_key uc_priority us\<rparr>"
    by (rule load_InrE)
  have units: "cfg_units cfg = sort_key uc_priority us" using cfg by simp
  moreover have "map unit_name us = (if node_kind (raw_units raw) = ZeroKind then []
      else node_keys (node_content (raw_units raw)))"
    using validated_units_wf(1) [OF vt parse_units_props(3) [OF pu]] parse_units_props(1) [OF pu] by simp
  moreover have "\<forall>p. filter (\<lambda>u. uc_priority u = p) (cfg_units cfg) = filter (\<lambda>u. uc_priority u = p) us"
    unfolding units by (simp add: sort_key_stable)
  moreover have "acyclic (dep_rel us)" using vd by (simp add: validate_dependencies_Inr)
  ultimately show ?thesis using io by blast
qed

theorem load_priority_order_witness:
  "\<exists>us. cfg_units sample_config = sort_key uc_priority us
     \<and> map unit_name (cfg_units sample_config) = [''db.service'', ''web.service'']"
proof -
  from load_priority_order [OF load_sample] obtain us where "cfg_units sample_config = sort_key uc_priority us"
    by (elim exE conjE)
  with load_sample_names show ?thesis by (intro exI conjI)
qed

end
