(* ===== verification/StateManager.thy ===== *)
theory StateManager
  imports Prelude
begin

text \<open>
  \<^verbatim>\<open>internal/statemanager\<close>: the status of every registered unit, updated from systemd and from
  the health checkers, with an event to every handler on each change. Each method is one
  critical section of the manager's mutex, hence one function; the events it emits after
  releasing the mutex are returned, one per handler, in the order the handlers were added. The
  status pointers stay inside the manager (readers get copies), so the map holds the statuses
  themselves. The event channel of the struct is created and never used.
\<close>

section \<open>State\<close>

datatype event_type = EventStateChanged | EventHealthChanged

record event =
  ev_type :: event_type
  ev_unit_name :: string
  ev_active_state :: string
  ev_sub_state :: string
  ev_healthy :: "bool option"
  ev_timestamp :: instant

record unit_status =
  us_unit_name :: string
  us_active_state :: string
  us_sub_state :: string
  us_healthy :: "bool option"
  us_restart_count :: int
  us_last_transition :: instant

record 'h state_manager =
  sm_units :: "unit_status gomap"
  sm_handlers :: "'h list"

section \<open>Operations\<close>

definition sm_new :: "'h state_manager" where
  "sm_new = \<lparr>sm_units = [], sm_handlers = []\<rparr>"

definition fresh_status :: "string \<Rightarrow> unit_status" where
  "fresh_status unit =
     \<lparr>us_unit_name = unit, us_active_state = [], us_sub_state = [], us_healthy = None,
      us_restart_count = 0, us_last_transition = zero_time\<rparr>"

definition sm_register :: "string \<Rightarrow> 'h state_manager \<Rightarrow> 'h state_manager" where
  "sm_register unit sm = sm\<lparr>sm_units := AList.update unit (fresh_status unit) (sm_units sm)\<rparr>"

definition sm_unregister :: "string \<Rightarrow> 'h state_manager \<Rightarrow> 'h state_manager" where
  "sm_unregister unit sm = sm\<lparr>sm_units := AList.delete unit (sm_units sm)\<rparr>"

definition on_event :: "'h \<Rightarrow> 'h state_manager \<Rightarrow> 'h state_manager" where
  "on_event handler sm = sm\<lparr>sm_handlers := sm_handlers sm @ [handler]\<rparr>"

definition emit :: "'h state_manager \<Rightarrow> event \<Rightarrow> ('h \<times> event) list" where
  "emit sm ev = map (\<lambda>h. (h, ev)) (sm_handlers sm)"

definition update_state ::
  "instant \<Rightarrow> string \<Rightarrow> string \<Rightarrow> string \<Rightarrow> 'h state_manager \<Rightarrow> 'h state_manager \<times> ('h \<times> event) list" where
  "update_state now unit active sub sm =
     (case map_of (sm_units sm) unit of
        None \<Rightarrow> (sm, [])
      | Some status \<Rightarrow>
          if us_active_state status = active \<and> us_sub_state status = sub then (sm, [])
          else
            let sm' = sm\<lparr>sm_units := AList.update unit
                  (status\<lparr>us_active_state := active, us_sub_state := sub, us_last_transition := now\<rparr>)
                  (sm_units sm)\<rparr> in
            (sm', emit sm' \<lparr>ev_type = EventStateChanged, ev_unit_name = unit,
                            ev_active_state = active, ev_sub_state = sub, ev_healthy = None,
                            ev_timestamp = now\<rparr>))"

definition update_health ::
  "instant \<Rightarrow> string \<Rightarrow> bool \<Rightarrow> 'h state_manager \<Rightarrow> 'h state_manager \<times> ('h \<times> event) list" where
  "update_health now unit healthy sm =
     (case map_of (sm_units sm) unit of
        None \<Rightarrow> (sm, [])
      | Some status \<Rightarrow>
          if us_healthy status = Some healthy then (sm, [])
          else
            let sm' = sm\<lparr>sm_units := AList.update unit (status\<lparr>us_healthy := Some healthy\<rparr>) (sm_units sm)\<rparr> in
            (sm', emit sm' \<lparr>ev_type = EventHealthChanged, ev_unit_name = unit,
                            ev_active_state = [], ev_sub_state = [], ev_healthy = Some healthy,
                            ev_timestamp = now\<rparr>))"

definition increment_restart_count :: "string \<Rightarrow> 'h state_manager \<Rightarrow> 'h state_manager" where
  "increment_restart_count unit sm =
     (case map_of (sm_units sm) unit of
        None \<Rightarrow> sm
      | Some status \<Rightarrow>
          sm\<lparr>sm_units := AList.update unit
               (status\<lparr>us_restart_count := wrap64 (us_restart_count status + 1)\<rparr>) (sm_units sm)\<rparr>)"

definition reset_restart_count :: "string \<Rightarrow> 'h state_manager \<Rightarrow> 'h state_manager" where
  "reset_restart_count unit sm =
     (case map_of (sm_units sm) unit of
        None \<Rightarrow> sm
      | Some status \<Rightarrow>
          sm\<lparr>sm_units := AList.update unit (status\<lparr>us_restart_count := 0\<rparr>) (sm_units sm)\<rparr>)"

definition get_status :: "'h state_manager \<Rightarrow> string \<Rightarrow> unit_status option" where
  "get_status sm unit = map_of (sm_units sm) unit"

definition all_statuses :: "'h state_manager \<Rightarrow> unit_status list" where
  "all_statuses sm = map snd (sm_units sm)"

text \<open>The counting loop of \<^verbatim>\<open>Summary\<close>; the pair holds \<^verbatim>\<open>healthy\<close> and \<^verbatim>\<open>unhealthy\<close>.\<close>

fun count_health :: "unit_status list \<Rightarrow> nat \<times> nat \<Rightarrow> nat \<times> nat" where
  "count_health [] (h, u) = (h, u)"
| "count_health (s # ss) (h, u) =
     (case us_healthy s of
        None \<Rightarrow> count_health ss (h, u)
      | Some True \<Rightarrow> count_health ss (Suc h, u)
      | Some False \<Rightarrow> count_health ss (h, Suc u))"

definition summary :: "'h state_manager \<Rightarrow> nat \<times> nat \<times> nat" where
  "summary sm =
     (case count_health (all_statuses sm) (0, 0) of (h, u) \<Rightarrow> (length (sm_units sm), h, u))"

section \<open>Invariant and frame lemmas\<close>

definition sm_ok :: "'h state_manager \<Rightarrow> bool" where
  "sm_ok sm \<longleftrightarrow> gm_ok (sm_units sm) \<and> (\<forall>(k, s) \<in> set (sm_units sm). us_unit_name s = k)"

named_theorems sm_defs

lemmas [sm_defs] =
  sm_register_def sm_unregister_def on_event_def update_state_def update_health_def
  increment_restart_count_def reset_restart_count_def

lemma sm_okI:
  "gm_ok (sm_units sm) \<Longrightarrow> (\<And>k s. map_of (sm_units sm) k = Some s \<Longrightarrow> us_unit_name s = k) \<Longrightarrow> sm_ok sm"
  by (auto simp: sm_ok_def gm_ok_def)

lemma sm_ok_name: "sm_ok sm \<Longrightarrow> map_of (sm_units sm) k = Some s \<Longrightarrow> us_unit_name s = k"
  by (auto simp: sm_ok_def dest: map_of_SomeD)

lemma sm_ok_gm: "sm_ok sm \<Longrightarrow> gm_ok (sm_units sm)"
  by (simp add: sm_ok_def)

lemma sm_ok_new [simp]: "sm_ok sm_new"
  by (simp add: sm_ok_def sm_new_def)

lemma sm_ok_step:
  assumes "sm_ok sm"
  shows "sm_ok (sm_register u sm)" "sm_ok (sm_unregister u sm)" "sm_ok (on_event h sm)"
    "sm_ok (fst (update_state now u a b sm))" "sm_ok (fst (update_health now u q sm))"
    "sm_ok (increment_restart_count u sm)" "sm_ok (reset_restart_count u sm)"
  by (rule sm_okI; use sm_ok_gm [OF assms] sm_ok_name [OF assms] in
      \<open>auto simp: sm_defs Let_def fresh_status_def split: option.splits if_splits\<close>)+

lemma handlers_unchanged [simp]:
  "sm_handlers (sm_register u sm) = sm_handlers sm" "sm_handlers (sm_unregister u sm) = sm_handlers sm"
  "sm_handlers (fst (update_state now u a b sm)) = sm_handlers sm"
  "sm_handlers (fst (update_health now u q sm)) = sm_handlers sm"
  "sm_handlers (increment_restart_count u sm) = sm_handlers sm"
  "sm_handlers (reset_restart_count u sm) = sm_handlers sm"
  by (auto simp: sm_defs Let_def split: option.split)

text \<open>What each operation does to a lookup.\<close>

lemma get_status_register [simp]:
  "get_status (sm_register u sm) v = (if v = u then Some (fresh_status u) else get_status sm v)"
  "get_status (sm_unregister u sm) v = (if v = u then None else get_status sm v)"
  by (simp_all add: get_status_def sm_defs)

lemma get_status_update_state:
  "get_status (fst (update_state now u a b sm)) v =
     (if v = u then
        map_option (\<lambda>s. if us_active_state s = a \<and> us_sub_state s = b then s
                        else s\<lparr>us_active_state := a, us_sub_state := b, us_last_transition := now\<rparr>)
          (get_status sm u)
      else get_status sm v)"
  by (auto simp: get_status_def update_state_def Let_def split: option.split)

lemma get_status_update_health:
  "get_status (fst (update_health now u q sm)) v =
     (if v = u then map_option (\<lambda>s. s\<lparr>us_healthy := Some q\<rparr>) (get_status sm u) else get_status sm v)"
  by (auto simp: get_status_def update_health_def Let_def split: option.split)

interpretation sm_registry: registry
  get_status "\<lambda>u (p :: unit) sm. sm_register u sm" sm_unregister "\<lambda>u p. fresh_status u" sm_ok
  by unfold_locales (simp_all add: sm_ok_step)

section \<open>Sequences of updates\<close>

text \<open>
  The updates the event loop feeds into the manager, in any interleaving over units, and the
  concatenation of what they deliver to the handlers.
\<close>

datatype sm_update = StateUpdate instant string string string | HealthUpdate instant string bool

fun sm_apply :: "sm_update \<Rightarrow> 'h state_manager \<Rightarrow> 'h state_manager \<times> ('h \<times> event) list" where
  "sm_apply (StateUpdate now u a b) sm = update_state now u a b sm"
| "sm_apply (HealthUpdate now u q) sm = update_health now u q sm"

fun sm_run :: "sm_update list \<Rightarrow> 'h state_manager \<Rightarrow> 'h state_manager \<times> ('h \<times> event) list" where
  "sm_run [] sm = (sm, [])"
| "sm_run (c # cs) sm =
     (case sm_apply c sm of (sm1, d1) \<Rightarrow> (case sm_run cs sm1 of (sm2, d2) \<Rightarrow> (sm2, d1 @ d2)))"

text \<open>What was reported about one unit: the states and the health values, in order.\<close>

fun state_inputs :: "string \<Rightarrow> sm_update list \<Rightarrow> (string \<times> string) list" where
  "state_inputs u [] = []"
| "state_inputs u (StateUpdate now v a b # cs) =
     (if v = u then (a, b) # state_inputs u cs else state_inputs u cs)"
| "state_inputs u (HealthUpdate now v q # cs) = state_inputs u cs"

fun health_inputs :: "string \<Rightarrow> sm_update list \<Rightarrow> bool option list" where
  "health_inputs u [] = []"
| "health_inputs u (StateUpdate now v a b # cs) = health_inputs u cs"
| "health_inputs u (HealthUpdate now v q # cs) =
     (if v = u then Some q # health_inputs u cs else health_inputs u cs)"

definition state_events :: "string \<Rightarrow> event list \<Rightarrow> (string \<times> string) list" where
  "state_events u evs =
     map (\<lambda>e. (ev_active_state e, ev_sub_state e))
       (filter (\<lambda>e. ev_type e = EventStateChanged \<and> ev_unit_name e = u) evs)"

definition health_events :: "string \<Rightarrow> event list \<Rightarrow> bool option list" where
  "health_events u evs =
     map ev_healthy (filter (\<lambda>e. ev_type e = EventHealthChanged \<and> ev_unit_name e = u) evs)"

lemma events_of_unit_simps [simp]:
  "state_events u [] = []" "health_events u [] = []"
  "state_events u (e # evs) =
     (if ev_type e = EventStateChanged \<and> ev_unit_name e = u
      then (ev_active_state e, ev_sub_state e) # state_events u evs else state_events u evs)"
  "health_events u (e # evs) =
     (if ev_type e = EventHealthChanged \<and> ev_unit_name e = u
      then ev_healthy e # health_events u evs else health_events u evs)"
  by (simp_all add: state_events_def health_events_def)

text \<open>The list without its adjacent repetitions, after an initial value.\<close>

definition changes_from :: "'a \<Rightarrow> 'a list \<Rightarrow> 'a list" where
  "changes_from x xs = tl (remdups_adj (x # xs))"

lemma changes_from_simps [simp]:
  "changes_from x [] = []"
  "changes_from x (y # ys) = (if y = x then changes_from x ys else y # changes_from y ys)"
  by (auto simp: changes_from_def remdups_adj_Cons_alt)

lemma emit_handlers: "sm_handlers sm' = sm_handlers sm \<Longrightarrow> emit sm' = emit sm"
  by (rule ext) (simp add: emit_def)

text \<open>One update delivers at most one event, to every handler, and only for its own unit.\<close>

lemma sm_apply_event:
  "\<exists>evs. snd (sm_apply c sm) = concat (map (emit sm) evs)
     \<and> (\<forall>u s. get_status sm u = Some s \<longrightarrow>
          state_events u evs = changes_from (us_active_state s, us_sub_state s) (state_inputs u [c])
          \<and> health_events u evs = changes_from (us_healthy s) (health_inputs u [c]))
     \<and> (\<forall>u. get_status sm u = None \<longrightarrow> state_events u evs = [] \<and> health_events u evs = [])"
proof (cases c)
  case (StateUpdate now v a b)
  show ?thesis
  proof (cases "\<forall>s. get_status sm v = Some s \<longrightarrow> us_active_state s = a \<and> us_sub_state s = b")
    case True
    then show ?thesis
      using StateUpdate by (intro exI [of _ "[]"])
        (auto simp: update_state_def get_status_def emit_def Let_def split: option.splits if_splits)
  next
    case False
    then show ?thesis
      using StateUpdate
      by (intro exI [of _ "[\<lparr>ev_type = EventStateChanged, ev_unit_name = v, ev_active_state = a,
            ev_sub_state = b, ev_healthy = None, ev_timestamp = now\<rparr>]"])
        (auto simp: update_state_def get_status_def emit_def Let_def split: option.splits if_splits)
  qed
next
  case (HealthUpdate now v q)
  show ?thesis
  proof (cases "\<forall>s. get_status sm v = Some s \<longrightarrow> us_healthy s = Some q")
    case True
    then show ?thesis
      using HealthUpdate by (intro exI [of _ "[]"])
        (auto simp: update_health_def get_status_def emit_def Let_def split: option.splits if_splits)
  next
    case False
    then show ?thesis
      using HealthUpdate
      by (intro exI [of _ "[\<lparr>ev_type = EventHealthChanged, ev_unit_name = v, ev_active_state = [],
            ev_sub_state = [], ev_healthy = Some q, ev_timestamp = now\<rparr>]"])
        (auto simp: update_health_def get_status_def emit_def Let_def split: option.splits if_splits)
  qed
qed

lemma sm_apply_status:
  "get_status (fst (sm_apply c sm)) u =
     map_option (\<lambda>s. case c of
         StateUpdate now v a b \<Rightarrow>
           (if v = u \<and> \<not> (us_active_state s = a \<and> us_sub_state s = b)
            then s\<lparr>us_active_state := a, us_sub_state := b, us_last_transition := now\<rparr> else s)
       | HealthUpdate now v q \<Rightarrow> (if v = u then s\<lparr>us_healthy := Some q\<rparr> else s))
       (get_status sm u)"
  by (cases c; cases "get_status sm u") (auto simp: get_status_update_state get_status_update_health)

lemma sm_apply_status_Some:
  assumes "get_status sm u = Some s"
  shows "\<exists>s'. get_status (fst (sm_apply c sm)) u = Some s'
    \<and> (us_active_state s', us_sub_state s') = last ((us_active_state s, us_sub_state s) # state_inputs u [c])
    \<and> us_healthy s' = last (us_healthy s # health_inputs u [c])
    \<and> us_restart_count s' = us_restart_count s"
proof (cases c)
  case (StateUpdate now v a b)
  then show ?thesis using assms by (cases "v = u") (simp_all add: get_status_update_state)
next
  case (HealthUpdate now v q)
  then show ?thesis using assms by (cases "v = u") (simp_all add: get_status_update_health)
qed

lemma changes_from_append: "changes_from x (xs @ ys) = changes_from x xs @ changes_from (last (x # xs)) ys"
  by (induction xs arbitrary: x) auto

lemma inputs_Cons:
  "state_inputs u (c # cs) = state_inputs u [c] @ state_inputs u cs"
  "health_inputs u (c # cs) = health_inputs u [c] @ health_inputs u cs"
  by (cases c; simp)+

lemma events_append:
  "state_events u (xs @ ys) = state_events u xs @ state_events u ys"
  "health_events u (xs @ ys) = health_events u xs @ health_events u ys"
  by (simp_all add: state_events_def health_events_def)

lemma sm_apply_handlers [simp]: "sm_handlers (fst (sm_apply c sm)) = sm_handlers sm"
  by (cases c) simp_all

text \<open>
  Updates that come one after the other, each with its handler calls: every handler gets the same
  events in the same order. (With concurrent callers: \<open>EventDelivery\<close>.)
\<close>

lemma sequential_events_are_changes:
  "\<exists>evs. snd (sm_run cs sm) = concat (map (emit sm) evs)
     \<and> (\<forall>u s. get_status sm u = Some s \<longrightarrow>
          state_events u evs = changes_from (us_active_state s, us_sub_state s) (state_inputs u cs)
          \<and> health_events u evs = changes_from (us_healthy s) (health_inputs u cs))
     \<and> (\<forall>u. get_status sm u = None \<longrightarrow> state_events u evs = [] \<and> health_events u evs = [])"
proof (induction cs arbitrary: sm)
  case Nil
  show ?case by (intro exI [of _ "[]"]) simp
next
  case (Cons c cs)
  let ?sm1 = "fst (sm_apply c sm)"
  obtain e1 where e1: "snd (sm_apply c sm) = concat (map (emit sm) e1)"
    "\<And>u s. get_status sm u = Some s \<Longrightarrow>
       state_events u e1 = changes_from (us_active_state s, us_sub_state s) (state_inputs u [c])
       \<and> health_events u e1 = changes_from (us_healthy s) (health_inputs u [c])"
    "\<And>u. get_status sm u = None \<Longrightarrow> state_events u e1 = [] \<and> health_events u e1 = []"
    using sm_apply_event [of c sm] by blast
  obtain e2 where e2: "snd (sm_run cs ?sm1) = concat (map (emit ?sm1) e2)"
    "\<And>u s. get_status ?sm1 u = Some s \<Longrightarrow>
       state_events u e2 = changes_from (us_active_state s, us_sub_state s) (state_inputs u cs)
       \<and> health_events u e2 = changes_from (us_healthy s) (health_inputs u cs)"
    "\<And>u. get_status ?sm1 u = None \<Longrightarrow> state_events u e2 = [] \<and> health_events u e2 = []"
    using Cons.IH [of ?sm1] by blast
  have run: "snd (sm_run (c # cs) sm) = concat (map (emit sm) (e1 @ e2))"
    using e1(1) e2(1) emit_handlers [of ?sm1 sm] by (simp add: case_prod_unfold)
  have some: "state_events u (e1 @ e2)
        = changes_from (us_active_state s, us_sub_state s) (state_inputs u (c # cs))
      \<and> health_events u (e1 @ e2) = changes_from (us_healthy s) (health_inputs u (c # cs))"
    if s: "get_status sm u = Some s" for u s
  proof -
    obtain s' where s': "get_status ?sm1 u = Some s'"
      "(us_active_state s', us_sub_state s') = last ((us_active_state s, us_sub_state s) # state_inputs u [c])"
      "us_healthy s' = last (us_healthy s # health_inputs u [c])"
      using sm_apply_status_Some [OF s] by blast
    show ?thesis
      unfolding events_append inputs_Cons [of u c cs] changes_from_append s'(2,3) [symmetric]
      using e1(2) [OF s] e2(2) [OF s'(1)] by simp
  qed
  have none: "state_events u (e1 @ e2) = [] \<and> health_events u (e1 @ e2) = []"
    if "get_status sm u = None" for u
    using that e1(3) [OF that] e2(3) [of u] by (simp add: events_append sm_apply_status)
  show ?case using run some none by blast
qed

section \<open>The summary\<close>

lemma count_health_filter:
  "count_health ss (h, u) =
     (h + length (filter (\<lambda>s. us_healthy s = Some True) ss),
      u + length (filter (\<lambda>s. us_healthy s = Some False) ss))"
  by (induction ss arbitrary: h u) (auto split: option.split bool.split)

lemma count_entries:
  assumes "gm_ok m"
  shows "length (filter (\<lambda>x. P (snd x)) m) = card {k. \<exists>s. map_of m k = Some s \<and> P s}"
proof -
  have dist: "distinct (map fst (filter (\<lambda>x. P (snd x)) m))"
    using assms by (simp add: gm_ok_def distinct_map_filter)
  have "{k. \<exists>s. map_of m k = Some s \<and> P s} = fst ` set (filter (\<lambda>x. P (snd x)) m)"
    using assms by (force simp: gm_ok_def image_iff dest: map_of_SomeD)
  then have "card {k. \<exists>s. map_of m k = Some s \<and> P s} = length (map fst (filter (\<lambda>x. P (snd x)) m))"
    using distinct_card [OF dist] by simp
  then show ?thesis by simp
qed

text \<open>The three numbers of the status line are what they say: the registered units, those last
  reported healthy and those last reported unhealthy; units without a health report count in
  neither.\<close>

theorem summary_counts:
  assumes "sm_ok sm"
  shows "summary sm =
    (card {u. get_status sm u \<noteq> None},
     card {u. \<exists>s. get_status sm u = Some s \<and> us_healthy s = Some True},
     card {u. \<exists>s. get_status sm u = Some s \<and> us_healthy s = Some False})"
proof -
  have gm: "gm_ok (sm_units sm)" by (rule sm_ok_gm [OF assms])
  have "length (sm_units sm) = card {u. get_status sm u \<noteq> None}"
    using gm_len [OF gm] by (simp add: get_status_def gm_keys_def dom_map_of_conv_image_fst [symmetric] dom_def)
  then show ?thesis
    using count_entries [OF gm, of "\<lambda>s. us_healthy s = Some True"]
      count_entries [OF gm, of "\<lambda>s. us_healthy s = Some False"]
    by (simp add: summary_def count_health_filter all_statuses_def get_status_def filter_map comp_def)
qed

theorem summary_counts_witness:
  "card {u. \<exists>s. get_status (fst (sm_run [HealthUpdate 1 ''a'' True, HealthUpdate 2 ''b'' False,
      HealthUpdate 3 ''x'' True]
      (sm_register ''c'' (sm_register ''b'' (sm_register ''a'' (sm_new :: string state_manager))))))
      u = Some s \<and> us_healthy s = Some True} = 1"
proof -
  let ?sm = "fst (sm_run [HealthUpdate 1 ''a'' True, HealthUpdate 2 ''b'' False,
      HealthUpdate 3 ''x'' True]
      (sm_register ''c'' (sm_register ''b'' (sm_register ''a'' (sm_new :: string state_manager)))))"
  have "sm_ok ?sm" by (simp add: sm_ok_step case_prod_unfold)
  from summary_counts [OF this]
  have "card {u. \<exists>s. get_status ?sm u = Some s \<and> us_healthy s = Some True} = fst (snd (summary ?sm))"
    by (simp only: fst_conv snd_conv)
  moreover have "fst (snd (summary ?sm)) = 1" by code_simp
  ultimately show ?thesis by (rule trans)
qed

end
