(* ===== verification/EventDelivery.thy ===== *)
theory EventDelivery
  imports StateManager "HOL-Library.Multiset"
begin

text \<open>
  The state manager under concurrent callers. \<^verbatim>\<open>UpdateState\<close> and \<^verbatim>\<open>UpdateHealth\<close> release the
  mutex before \<^verbatim>\<open>emit\<close> calls the handlers, so the change of a status is one step and every
  call of a handler another, interleaved with the other callers' steps. A caller is the list of the
  handler calls it still has to make; what the handlers were called with is recorded, newest
  call first.
\<close>

section \<open>Callers and handler calls\<close>

record 'h sm_sys =
  ss_sm :: "'h state_manager"
  ss_callers :: "('h \<times> event) list list"
  ss_called :: "('h \<times> event) list"

datatype sm_label =
  SmRegisters string
| SmUnregisters string
| SmIncrements string
| SmResets string
| SmUpdates sm_update
| SmCallsHandler nat

fun sm_exec :: "sm_label \<Rightarrow> 'h sm_sys \<Rightarrow> 'h sm_sys" where
  "sm_exec (SmRegisters u) s = s\<lparr>ss_sm := sm_register u (ss_sm s)\<rparr>"
| "sm_exec (SmUnregisters u) s = s\<lparr>ss_sm := sm_unregister u (ss_sm s)\<rparr>"
| "sm_exec (SmIncrements u) s = s\<lparr>ss_sm := increment_restart_count u (ss_sm s)\<rparr>"
| "sm_exec (SmResets u) s = s\<lparr>ss_sm := reset_restart_count u (ss_sm s)\<rparr>"
| "sm_exec (SmUpdates c) s =
     (case sm_apply c (ss_sm s) of
        (sm, calls) \<Rightarrow> s\<lparr>ss_sm := sm, ss_callers := ss_callers s @ [calls]\<rparr>)"
| "sm_exec (SmCallsHandler i) s =
     (if i < length (ss_callers s) then
        (case ss_callers s ! i of
           [] \<Rightarrow> s
         | call # calls \<Rightarrow> s\<lparr>ss_callers := (ss_callers s)[i := calls], ss_called := call # ss_called s\<rparr>)
      else s)"

definition sm_sys_run :: "sm_label list \<Rightarrow> 'h sm_sys \<Rightarrow> 'h sm_sys" where
  "sm_sys_run = fold sm_exec"

definition sm_start :: "'h list \<Rightarrow> 'h sm_sys" where
  "sm_start hs = \<lparr>ss_sm = \<lparr>sm_units = [], sm_handlers = hs\<rparr>, ss_callers = [], ss_called = []\<rparr>"

section \<open>What is expected, from the run alone\<close>

text \<open>
  The updates that came while a unit was registered, one list per registration, the latest
  registration first; the run is read from its end.
\<close>

fun registered_after :: "string \<Rightarrow> sm_label list \<Rightarrow> bool" where
  "registered_after u [] \<longleftrightarrow> False"
| "registered_after u (SmRegisters v # l) \<longleftrightarrow> v = u \<or> registered_after u l"
| "registered_after u (SmUnregisters v # l) \<longleftrightarrow> v \<noteq> u \<and> registered_after u l"
| "registered_after u (x # l) \<longleftrightarrow> registered_after u l"

fun registrations :: "string \<Rightarrow> sm_label list \<Rightarrow> sm_update list list" where
  "registrations u [] = []"
| "registrations u (SmRegisters v # l) = (if v = u then [] # registrations u l else registrations u l)"
| "registrations u (SmUpdates c # l) =
     (case registrations u l of
        [] \<Rightarrow> []
      | cs # ps \<Rightarrow> if registered_after u l then (cs @ [c]) # ps else cs # ps)"
| "registrations u (x # l) = registrations u l"

definition expected_states :: "string \<Rightarrow> sm_label list \<Rightarrow> (string \<times> string) list" where
  "expected_states u ls =
     concat (map (\<lambda>cs. changes_from ([], []) (state_inputs u cs)) (rev (registrations u (rev ls))))"

definition expected_healths :: "string \<Rightarrow> sm_label list \<Rightarrow> bool option list" where
  "expected_healths u ls =
     concat (map (\<lambda>cs. changes_from None (health_inputs u cs)) (rev (registrations u (rev ls))))"

section \<open>The invariant\<close>

definition calls_of :: "'h list \<Rightarrow> event list \<Rightarrow> ('h \<times> event) list" where
  "calls_of hs evs = concat (map (\<lambda>e. map (\<lambda>h. (h, e)) hs) evs)"

definition delivers :: "'h list \<Rightarrow> sm_label list \<Rightarrow> 'h sm_sys \<Rightarrow> event list \<Rightarrow> bool" where
  "delivers hs ls s evs \<longleftrightarrow>
     mset (ss_called s) + mset (concat (ss_callers s)) = mset (calls_of hs evs)
     \<and> (\<forall>u. state_events u evs = expected_states u ls \<and> health_events u evs = expected_healths u ls)"

text \<open>The status of a unit is the last value of its current registration.\<close>

fun status_fits :: "string \<Rightarrow> sm_label list \<Rightarrow> unit_status option \<Rightarrow> bool" where
  "status_fits u l None \<longleftrightarrow> \<not> registered_after u l"
| "status_fits u l (Some st) \<longleftrightarrow>
     registered_after u l \<and> (\<exists>cs ps. registrations u l = cs # ps
       \<and> (us_active_state st, us_sub_state st) = last (([], []) # state_inputs u cs)
       \<and> us_healthy st = last (None # health_inputs u cs))"

definition up_to_date :: "sm_label list \<Rightarrow> 'h sm_sys \<Rightarrow> bool" where
  "up_to_date ls s \<longleftrightarrow> (\<forall>u. status_fits u (rev ls) (get_status (ss_sm s) u))"

lemma up_to_date_None:
  assumes "up_to_date ls s" "get_status (ss_sm s) u = None"
  shows "\<not> registered_after u (rev ls)"
proof -
  have "status_fits u (rev ls) (get_status (ss_sm s) u)" using assms(1) by (simp add: up_to_date_def)
  then show ?thesis using assms(2) by simp
qed

lemma up_to_date_Some:
  assumes "up_to_date ls s" "get_status (ss_sm s) u = Some st"
  obtains cs ps where "registered_after u (rev ls)" "registrations u (rev ls) = cs # ps"
    "(us_active_state st, us_sub_state st) = last (([], []) # state_inputs u cs)"
    "us_healthy st = last (None # health_inputs u cs)"
proof -
  have "status_fits u (rev ls) (get_status (ss_sm s) u)" using assms(1) by (simp add: up_to_date_def)
  then show thesis using assms(2) that unfolding assms(2) status_fits.simps by blast
qed

lemma inputs_snoc:
  "state_inputs u (cs @ [c]) = state_inputs u cs @ state_inputs u [c]"
  "health_inputs u (cs @ [c]) = health_inputs u cs @ health_inputs u [c]"
proof (induction cs)
  case (Cons d cs)
  case 1
  show ?case using Cons(1) inputs_Cons(1) [of u d "cs @ [c]"] inputs_Cons(1) [of u d cs] by simp
  case 2
  show ?case using Cons(2) inputs_Cons(2) [of u d "cs @ [c]"] inputs_Cons(2) [of u d cs] by simp
qed simp_all

lemma get_status_counts [simp]:
  "get_status (increment_restart_count v sm) u =
     map_option (\<lambda>s. if v = u then s\<lparr>us_restart_count := wrap64 (us_restart_count s + 1)\<rparr> else s) (get_status sm u)"
  "get_status (reset_restart_count v sm) u =
     map_option (\<lambda>s. if v = u then s\<lparr>us_restart_count := 0\<rparr> else s) (get_status sm u)"
  by (cases "map_of (sm_units sm) v"; cases "map_of (sm_units sm) u";
      simp add: get_status_def increment_restart_count_def reset_restart_count_def; auto)+

lemma sm_exec_handlers: "sm_handlers (ss_sm (sm_exec l s)) = sm_handlers (ss_sm s)"
  by (cases l) (auto split: list.split simp: case_prod_unfold)

lemma expected_quiet:
  assumes "\<And>u. registrations u (l # rev ls) = registrations u (rev ls)"
  shows "expected_states u (ls @ [l]) = expected_states u ls" "expected_healths u (ls @ [l]) = expected_healths u ls"
  by (simp_all add: expected_states_def expected_healths_def assms)

lemma delivers_same:
  assumes "delivers hs ls s evs" "ss_called t = ss_called s" "ss_callers t = ss_callers s"
    "\<And>u. expected_states u (ls @ [l]) = expected_states u ls" "\<And>u. expected_healths u (ls @ [l]) = expected_healths u ls"
  shows "delivers hs (ls @ [l]) t evs"
  using assms by (simp add: delivers_def)

lemma delivers_update:
  assumes "delivers hs ls s evs" "up_to_date ls s" "sm_handlers (ss_sm s) = hs"
  shows "\<exists>evs'. delivers hs (ls @ [SmUpdates c]) (sm_exec (SmUpdates c) s) evs'"
proof -
  let ?sm = "ss_sm s"
  obtain es where es: "snd (sm_apply c ?sm) = concat (map (emit ?sm) es)"
    "\<And>u st. get_status ?sm u = Some st \<Longrightarrow>
       state_events u es = changes_from (us_active_state st, us_sub_state st) (state_inputs u [c])
       \<and> health_events u es = changes_from (us_healthy st) (health_inputs u [c])"
    "\<And>u. get_status ?sm u = None \<Longrightarrow> state_events u es = [] \<and> health_events u es = []"
    using sm_apply_event [of c ?sm] by blast
  have calls: "concat (map (emit ?sm) es) = calls_of hs es"
    using assms(3) by (simp add: calls_of_def emit_def [abs_def])
  have "state_events u (evs @ es) = expected_states u (ls @ [SmUpdates c])
      \<and> health_events u (evs @ es) = expected_healths u (ls @ [SmUpdates c])" for u
  proof (cases "get_status ?sm u")
    case None
    have "registrations u (SmUpdates c # rev ls) = registrations u (rev ls)"
      using up_to_date_None [OF assms(2) None] by (simp split: list.split)
    then show ?thesis using assms(1) es(3) [OF None]
      by (simp add: delivers_def events_append expected_states_def expected_healths_def)
  next
    case (Some st)
    from up_to_date_Some [OF assms(2) Some] obtain cs ps where p:
      "registered_after u (rev ls)" "registrations u (rev ls) = cs # ps"
      "(us_active_state st, us_sub_state st) = last (([], []) # state_inputs u cs)"
      "us_healthy st = last (None # health_inputs u cs)" .
    have r: "registrations u (SmUpdates c # rev ls) = (cs @ [c]) # ps" using p(1,2) by simp
    have "expected_states u (ls @ [SmUpdates c]) = expected_states u ls @ state_events u es"
      unfolding expected_states_def rev_append rev.simps(2) append_Cons append_Nil rev.simps(1) r p(2)
      using es(2) [OF Some] p(3) by (simp add: inputs_snoc changes_from_append)
    moreover have "expected_healths u (ls @ [SmUpdates c]) = expected_healths u ls @ health_events u es"
      unfolding expected_healths_def rev_append rev.simps(2) append_Cons append_Nil rev.simps(1) r p(2)
      using es(2) [OF Some] p(4) by (simp add: inputs_snoc changes_from_append)
    ultimately show ?thesis using assms(1) by (simp add: delivers_def events_append)
  qed
  moreover have "mset (ss_called (sm_exec (SmUpdates c) s)) + mset (concat (ss_callers (sm_exec (SmUpdates c) s)))
      = mset (calls_of hs (evs @ es))"
    using assms(1) es(1) calls by (simp add: delivers_def case_prod_unfold calls_of_def add.assoc [symmetric])
  ultimately show ?thesis unfolding delivers_def by blast
qed

lemma delivers_call:
  assumes "delivers hs ls s evs"
  shows "delivers hs (ls @ [SmCallsHandler i]) (sm_exec (SmCallsHandler i) s) evs"
proof -
  have "mset (ss_called (sm_exec (SmCallsHandler i) s)) + mset (concat (ss_callers (sm_exec (SmCallsHandler i) s)))
      = mset (ss_called s) + mset (concat (ss_callers s))"
  proof (cases "i < length (ss_callers s) \<and> ss_callers s ! i \<noteq> []")
    case False
    then show ?thesis by (auto split: list.split)
  next
    case True
    then obtain call calls where c: "ss_callers s ! i = call # calls" by (cases "ss_callers s ! i") auto
    have "ss_callers s = take i (ss_callers s) @ (call # calls) # drop (Suc i) (ss_callers s)"
      using True c by (metis id_take_nth_drop)
    then have "mset (concat (ss_callers s)) = add_mset call (mset (concat ((ss_callers s)[i := calls])))"
      using True by (subst upd_conv_take_nth_drop) (simp_all, metis concat.simps(2) concat_append mset_append mset.simps(2) append_Cons union_mset_add_mset_right)
    then show ?thesis using True c by simp
  qed
  then show ?thesis using assms by (simp add: delivers_def expected_quiet)
qed

text \<open>Every step keeps the statuses up to date.\<close>

lemma status_fits_update:
  assumes "status_fits u l (get_status sm u)"
  shows "status_fits u (SmUpdates c # l) (get_status (fst (sm_apply c sm)) u)"
proof (cases "get_status sm u")
  case None
  then show ?thesis using assms by (simp add: sm_apply_status)
next
  case (Some st)
  from sm_apply_status_Some [OF Some, of c] obtain st' where st':
    "get_status (fst (sm_apply c sm)) u = Some st'"
    "(us_active_state st', us_sub_state st') = last ((us_active_state st, us_sub_state st) # state_inputs u [c])"
    "us_healthy st' = last (us_healthy st # health_inputs u [c])"
    by blast
  from assms [unfolded Some] obtain cs ps where p: "registered_after u l" "registrations u l = cs # ps"
    "(us_active_state st, us_sub_state st) = last (([], []) # state_inputs u cs)"
    "us_healthy st = last (None # health_inputs u cs)" by auto
  have "last (last (x # xs) # ys) = last (x # xs @ ys)" for x :: 'a and xs ys by (cases ys) auto
  moreover have "last (last (x # xs) # ys) = last (x # xs @ ys)" for x :: "string \<times> string" and xs ys by (cases ys) auto
  moreover have "last (last (x # xs) # ys) = last (x # xs @ ys)" for x :: "bool option" and xs ys by (cases ys) auto
  ultimately have "(us_active_state st', us_sub_state st') = last (([], []) # state_inputs u (cs @ [c]))"
    "us_healthy st' = last (None # health_inputs u (cs @ [c]))"
    unfolding st'(2,3) p(3,4) inputs_snoc by simp_all
  then show ?thesis unfolding st'(1) using p(1,2) by simp
qed

lemma up_to_date_step:
  assumes "up_to_date ls s"
  shows "up_to_date (ls @ [l]) (sm_exec l s)"
  unfolding up_to_date_def rev_append rev.simps append_Nil append_Cons
proof
  fix u
  have fits: "status_fits u (rev ls) (get_status (ss_sm s) u)" using assms by (simp add: up_to_date_def)
  show "status_fits u (l # rev ls) (get_status (ss_sm (sm_exec l s)) u)"
  proof (cases l)
    case (SmRegisters v)
    with fits show ?thesis by (cases "v = u"; cases "get_status (ss_sm s) u") (simp_all add: fresh_status_def)
  next
    case (SmUnregisters v)
    with fits show ?thesis by (cases "v = u"; cases "get_status (ss_sm s) u") simp_all
  next
    case (SmUpdates c)
    with status_fits_update [OF fits, of c] show ?thesis by (simp add: case_prod_unfold)
  next
    case (SmCallsHandler i)
    then have "ss_sm (sm_exec l s) = ss_sm s" by (auto split: list.split)
    with SmCallsHandler fits show ?thesis by (cases "get_status (ss_sm s) u") simp_all
  qed (use fits in \<open>cases "get_status (ss_sm s) u"; simp\<close>)+
qed

lemma delivers_step:
  assumes "delivers hs ls s evs" "up_to_date ls s" "sm_handlers (ss_sm s) = hs"
  shows "\<exists>evs'. delivers hs (ls @ [l]) (sm_exec l s) evs'"
proof (cases l)
  case (SmRegisters v)
  have "expected_states u (ls @ [l]) = expected_states u ls \<and> expected_healths u (ls @ [l]) = expected_healths u ls" for u
    by (simp add: SmRegisters expected_states_def expected_healths_def)
  then show ?thesis using assms(1) by (intro exI [of _ evs] delivers_same [where s = s]) (simp_all add: SmRegisters)
next
  case (SmUpdates c)
  with delivers_update [OF assms] show ?thesis by simp
next
  case (SmCallsHandler i)
  with delivers_call [OF assms(1)] show ?thesis by blast
qed (use assms(1) in \<open>intro exI [of _ evs] delivers_same [where s = s] expected_quiet; simp\<close>)+

lemma sm_run_invariant:
  "up_to_date ls (sm_sys_run ls (sm_start hs)) \<and> sm_handlers (ss_sm (sm_sys_run ls (sm_start hs))) = hs
   \<and> (\<exists>evs. delivers hs ls (sm_sys_run ls (sm_start hs)) evs)"
proof (induction ls rule: rev_induct)
  case Nil
  have "delivers hs [] (sm_start hs) []"
    by (simp add: delivers_def sm_start_def calls_of_def expected_states_def expected_healths_def)
  then show ?case by (auto simp: sm_sys_run_def sm_start_def up_to_date_def get_status_def)
next
  case (snoc l ls)
  let ?s = "sm_sys_run ls (sm_start hs)"
  have "sm_sys_run (ls @ [l]) (sm_start hs) = sm_exec l ?s" by (simp add: sm_sys_run_def)
  then show ?case
    using snoc.IH up_to_date_step [of ls ?s l] delivers_step [of hs ls ?s _ l] sm_exec_handlers [of l ?s] by auto
qed

section \<open>Properties\<close>

text \<open>C11. Events are the changes, under every interleaving of registrations, updates and handler calls by
  any number of concurrent callers. There is a list of events whose states of a unit are, registration by
  registration, the reported states with adjacent repetitions removed, starting from the empty state, and
  likewise its health values, starting from unknown; nothing reported while the unit is not
  registered counts. The handler calls made, together with those the callers have still to make, are
  each of these events exactly once per handler: none is lost, none is repeated, none is made up.
  (In which order the calls of concurrent callers come is not promised: Lemma
  \<^verbatim>\<open>handlers_see_different_orders\<close>.)\<close>

theorem events_are_changes:
  "\<exists>evs. (\<forall>u. state_events u evs = expected_states u ls \<and> health_events u evs = expected_healths u ls)
    \<and> mset (ss_called (sm_sys_run ls (sm_start hs))) + mset (concat (ss_callers (sm_sys_run ls (sm_start hs))))
        = mset (calls_of hs evs)"
  using sm_run_invariant [of ls hs] by (auto simp: delivers_def)

text \<open>Two callers at once: one update is stored first, the other's handlers are called first.\<close>

definition racing_updates :: "sm_label list" where
  "racing_updates =
     [SmRegisters ''web'', SmUpdates (StateUpdate 1 ''web'' ''failed'' ''failed''),
      SmUpdates (StateUpdate 2 ''web'' ''active'' ''running''),
      SmCallsHandler 0, SmCallsHandler 1, SmCallsHandler 1, SmCallsHandler 0]"

theorem events_are_changes_witness:
  "\<exists>evs. state_events ''web'' evs = [(''failed'', ''failed''), (''active'', ''running'')]
    \<and> mset (ss_called (sm_sys_run racing_updates (sm_start [''notifier'', ''restarter'']))) =
        mset (calls_of [''notifier'', ''restarter''] evs)"
proof -
  let ?s = "sm_sys_run racing_updates (sm_start [''notifier'', ''restarter''])"
  have states: "expected_states ''web'' racing_updates = [(''failed'', ''failed''), (''active'', ''running'')]"
    and none_left: "ss_callers ?s = [[], []]" by code_simp+
  from events_are_changes [of racing_updates "[''notifier'', ''restarter'']"] obtain evs where
    "\<forall>u. state_events u evs = expected_states u racing_updates \<and> health_events u evs = expected_healths u racing_updates"
    "mset (ss_called ?s) + mset (concat (ss_callers ?s)) = mset (calls_of [''notifier'', ''restarter''] evs)"
    by blast
  with states none_left show ?thesis
    by (intro exI [of _ evs]) simp
qed

text \<open>
  The two handlers see the changes in different orders: the notifier the failure and then the
  recovery, as they were stored, the restarter the recovery and then the failure, so it restarts a
  unit whose status is active.
\<close>

lemma handlers_see_different_orders:
  "map (\<lambda>(h, e). (h, ev_active_state e))
     (rev (ss_called (sm_sys_run racing_updates (sm_start [''notifier'', ''restarter'']))))
   = [(''notifier'', ''failed''), (''notifier'', ''active''), (''restarter'', ''active''), (''restarter'', ''failed'')]"
  by code_simp

end
