(* ===== verification/Restarter.thy ===== *)
theory Restarter
  imports StateManager Config
begin

text \<open>
  \<^verbatim>\<open>internal/restarter/restarter.go\<close>: restart decisions on events, exponential backoff, cooldown
  after a failed restart, cascade to the dependents.

  \<^verbatim>\<open>trackers\<close> maps a unit to a pointer, and a restart goroutine keeps the pointer it read while
  it sleeps, so the trackers live in a store (\<open>rs_heap\<close>, addresses are indices) and the map holds
  addresses. Every critical section of the mutex is one function; the goroutine is a \<open>job\<close> that
  advances by one critical section or one manager call at a time, interleaved with everything
  else. The manager's answers are inputs here; \<open>job_step\<close> of \<open>Daemon\<close> makes the calls. The log is a
  ghost: it is only written, newest entry first.
\<close>

section \<open>State and critical sections\<close>

definition max_backoff_shift :: int where
  "max_backoff_shift = 6"

record unit_tracker =
  ut_policy :: restart_policy
  ut_attempts :: int
  ut_cooldown_until :: instant

record restarter =
  rr_trackers :: "nat gomap"
  rr_heap :: "unit_tracker list"
  rr_dependents :: "string list gomap"

definition restarter_new :: restarter where
  "restarter_new = \<lparr>rr_trackers = [], rr_heap = [], rr_dependents = []\<rparr>"

definition set_dependents :: "string list gomap \<Rightarrow> restarter \<Rightarrow> restarter" where
  "set_dependents deps r = r\<lparr>rr_dependents := deps\<rparr>"

definition new_tracker :: "restart_policy \<Rightarrow> unit_tracker" where
  "new_tracker policy = \<lparr>ut_policy = policy, ut_attempts = 0, ut_cooldown_until = zero_time\<rparr>"

definition rr_register :: "string \<Rightarrow> restart_policy \<Rightarrow> restarter \<Rightarrow> restarter" where
  "rr_register unit policy r =
     r\<lparr>rr_trackers := AList.update unit (length (rr_heap r)) (rr_trackers r),
       rr_heap := rr_heap r @ [new_tracker policy]\<rparr>"

definition rr_unregister :: "string \<Rightarrow> restarter \<Rightarrow> restarter" where
  "rr_unregister unit r = r\<lparr>rr_trackers := AList.delete unit (rr_trackers r)\<rparr>"

definition reset_tracker :: "nat \<Rightarrow> restarter \<Rightarrow> restarter" where
  "reset_tracker p r =
     r\<lparr>rr_heap := (rr_heap r)[p := (rr_heap r ! p)\<lparr>ut_attempts := 0, ut_cooldown_until := zero_time\<rparr>]\<rparr>"

text \<open>
  \<^verbatim>\<open>shouldRestart\<close>: the decision, and on a recovery the reset of the tracker and of the unit's
  restart count in the state manager. The inner \<open>case\<close> is the \<^verbatim>\<open>switch\<close>; its first component
  says whether the code falls through to the cooldown test.
\<close>

definition should_restart ::
  "instant \<Rightarrow> event \<Rightarrow> restarter \<Rightarrow> 'h state_manager \<Rightarrow> bool \<times> restarter \<times> 'h state_manager" where
  "should_restart now ev r sm =
     (case map_of (rr_trackers r) (ev_unit_name ev) of
        None \<Rightarrow> (False, r, sm)
      | Some p \<Rightarrow>
          let tracker = rr_heap r ! p in
          if \<not> rp_enabled (ut_policy tracker) then (False, r, sm)
          else
            (case ev_type ev of
               EventStateChanged \<Rightarrow>
                 if ev_active_state ev \<noteq> ''failed'' then
                   if ev_active_state ev = ''active''
                   then (False, reset_tracker p r, reset_restart_count (ev_unit_name ev) sm)
                   else (False, r, sm)
                 else (\<not> time_before now (ut_cooldown_until tracker), r, sm)
             | EventHealthChanged \<Rightarrow>
                 if ev_healthy ev = Some True
                 then (False, reset_tracker p r, reset_restart_count (ev_unit_name ev) sm)
                 else (\<not> time_before now (ut_cooldown_until tracker), r, sm)))"

text \<open>
  The first critical section of \<^verbatim>\<open>attemptRestart\<close>: \<open>None\<close> when the unit is not registered any
  more, else the address read and the backoff to sleep. (A negative shift would panic; the
  attempts count would have to wrap around an int64 for that.)
\<close>

definition attempt_begin :: "string \<Rightarrow> restarter \<Rightarrow> (nat \<times> duration) option \<times> restarter" where
  "attempt_begin unit r =
     (case map_of (rr_trackers r) unit of
        None \<Rightarrow> (None, r)
      | Some p \<Rightarrow>
          let tracker = rr_heap r ! p;
              shift = (if ut_attempts tracker > max_backoff_shift then max_backoff_shift
                       else ut_attempts tracker);
              backoff = wrap64 (rp_backoff (ut_policy tracker) * 2 ^ nat shift) in
          (Some (p, backoff),
           r\<lparr>rr_heap := (rr_heap r)[p := tracker\<lparr>ut_attempts := wrap64 (ut_attempts tracker + 1)\<rparr>]\<rparr>))"

text \<open>The critical section after a failed \<^verbatim>\<open>mgr.Restart\<close>: it writes through the captured pointer.\<close>

definition enter_cooldown :: "instant \<Rightarrow> nat \<Rightarrow> restarter \<Rightarrow> restarter" where
  "enter_cooldown now p r =
     r\<lparr>rr_heap := (rr_heap r)[p := (rr_heap r ! p)
          \<lparr>ut_cooldown_until := time_add now (rp_cooldown (ut_policy (rr_heap r ! p)))\<rparr>]\<rparr>"

text \<open>The read of the dependents in \<^verbatim>\<open>cascadeRestart\<close>; a missing key reads as the nil slice.\<close>

definition read_dependents :: "string \<Rightarrow> restarter \<Rightarrow> string list" where
  "read_dependents unit r = (case map_of (rr_dependents r) unit of None \<Rightarrow> [] | Some ds \<Rightarrow> ds)"

section \<open>The registry\<close>

definition rr_ok :: "restarter \<Rightarrow> bool" where
  "rr_ok r \<longleftrightarrow> gm_ok (rr_trackers r) \<and> (\<forall>(u, p) \<in> set (rr_trackers r). p < length (rr_heap r))"

definition tracker_of :: "restarter \<Rightarrow> string \<Rightarrow> unit_tracker option" where
  "tracker_of r u = map_option (\<lambda>p. rr_heap r ! p) (map_of (rr_trackers r) u)"

lemma rr_ok_ptr: "rr_ok r \<Longrightarrow> map_of (rr_trackers r) u = Some p \<Longrightarrow> p < length (rr_heap r)"
  by (auto simp: rr_ok_def dest: map_of_SomeD)

lemma rr_okI:
  "gm_ok (rr_trackers r) \<Longrightarrow> (\<And>u p. map_of (rr_trackers r) u = Some p \<Longrightarrow> p < length (rr_heap r)) \<Longrightarrow> rr_ok r"
  by (auto simp: rr_ok_def gm_ok_def)

lemma rr_ok_gm: "rr_ok r \<Longrightarrow> gm_ok (rr_trackers r)"
  by (simp add: rr_ok_def)

lemma rr_ok_register: "rr_ok r \<Longrightarrow> rr_ok (rr_register u pol r)"
  by (rule rr_okI) (auto simp: rr_register_def rr_ok_gm dest: rr_ok_ptr split: if_splits)

lemma rr_ok_unregister: "rr_ok r \<Longrightarrow> rr_ok (rr_unregister u r)"
  by (rule rr_okI) (auto simp: rr_unregister_def rr_ok_gm dest: rr_ok_ptr split: if_splits)

lemma tracker_of_register:
  "rr_ok r \<Longrightarrow> tracker_of (rr_register u pol r) v = (if v = u then Some (new_tracker pol) else tracker_of r v)"
  by (auto simp: tracker_of_def rr_register_def nth_append dest: rr_ok_ptr split: option.splits
      intro!: option.map_cong)

lemma tracker_of_unregister:
  "tracker_of (rr_unregister u r) v = (if v = u then None else tracker_of r v)"
  by (simp add: tracker_of_def rr_unregister_def)

interpretation rr_registry: registry
  tracker_of rr_register rr_unregister "\<lambda>u pol. new_tracker pol" rr_ok
  by unfold_locales
    (simp_all add: rr_ok_register rr_ok_unregister tracker_of_register tracker_of_unregister)

section \<open>Goroutines and interleavings\<close>

datatype job =
  JSpawned string
| JSleeping string nat instant
| JRestarting string nat
| JCascade string
| JDependents string "string list"
| JDone

text \<open>
  What happened, for the statements below. The entries of a restart carry its goroutine (the index
  in \<open>rs_jobs\<close>), so that a restart can be held against its own decision and its own backoff; an
  \<open>OFailed\<close> names the tracker it wrote to before the goroutine.
\<close>

datatype observation =
  ORegistered string nat restart_policy
| OUnregistered string
| ORecovered string
| ODecided instant string nat
| OAttempt instant string duration nat
| ORestart instant string nat
| OFailed instant string nat nat
| OCascade instant string string nat

record 'h rsys =
  rs_now :: instant
  rs_restarter :: restarter
  rs_sm :: "'h state_manager"
  rs_jobs :: "job list"
  rs_log :: "observation list"

definition is_recovery :: "event \<Rightarrow> bool" where
  "is_recovery ev \<longleftrightarrow>
     (case ev_type ev of EventStateChanged \<Rightarrow> ev_active_state ev = ''active''
                       | EventHealthChanged \<Rightarrow> ev_healthy ev = Some True)"

definition is_failure :: "event \<Rightarrow> bool" where
  "is_failure ev \<longleftrightarrow>
     (case ev_type ev of EventStateChanged \<Rightarrow> ev_active_state ev = ''failed''
                       | EventHealthChanged \<Rightarrow> ev_healthy ev \<noteq> Some True)"

definition tracks_enabled :: "restarter \<Rightarrow> string \<Rightarrow> bool" where
  "tracks_enabled r u =
     (case map_of (rr_trackers r) u of None \<Rightarrow> False | Some p \<Rightarrow> rp_enabled (ut_policy (rr_heap r ! p)))"

definition handle_event :: "event \<Rightarrow> 'h rsys \<Rightarrow> 'h rsys" where
  "handle_event ev s =
     (case should_restart (rs_now s) ev (rs_restarter s) (rs_sm s) of (yes, r, sm) \<Rightarrow>
        if yes then s\<lparr>rs_restarter := r, rs_sm := sm,
                      rs_jobs := rs_jobs s @ [JSpawned (ev_unit_name ev)],
                      rs_log := ODecided (rs_now s) (ev_unit_name ev) (length (rs_jobs s)) # rs_log s\<rparr>
        else s\<lparr>rs_restarter := r, rs_sm := sm,
               rs_log := (if tracks_enabled (rs_restarter s) (ev_unit_name ev) \<and> is_recovery ev
                          then ORecovered (ev_unit_name ev) # rs_log s else rs_log s)\<rparr>)"

text \<open>
  \<^verbatim>\<open>attemptRestart\<close> and \<^verbatim>\<open>cascadeRestart\<close>, one step of goroutine \<open>i\<close> at a time; \<open>ok\<close> is the
  outcome of the manager call in flight, where there is one. A sleeping goroutine does not move
  before its time.
\<close>

definition run_job :: "nat \<Rightarrow> bool \<Rightarrow> 'h rsys \<Rightarrow> 'h rsys" where
  "run_job i ok s =
     (if i < length (rs_jobs s) then
        (case rs_jobs s ! i of
           JSpawned u \<Rightarrow>
             (case attempt_begin u (rs_restarter s) of
                (None, r) \<Rightarrow> s\<lparr>rs_jobs := (rs_jobs s)[i := JDone]\<rparr>
              | (Some (p, backoff), r) \<Rightarrow>
                  s\<lparr>rs_restarter := r,
                    rs_jobs := (rs_jobs s)[i := JSleeping u p
                      (if backoff > 0 then rs_now s + backoff else rs_now s)],
                    rs_log := OAttempt (rs_now s) u backoff i # rs_log s\<rparr>)
         | JSleeping u p wake \<Rightarrow>
             if rs_now s < wake then s
             else s\<lparr>rs_sm := increment_restart_count u (rs_sm s),
                    rs_jobs := (rs_jobs s)[i := JRestarting u p],
                    rs_log := ORestart (rs_now s) u i # rs_log s\<rparr>
         | JRestarting u p \<Rightarrow>
             if ok then s\<lparr>rs_jobs := (rs_jobs s)[i := JCascade u]\<rparr>
             else s\<lparr>rs_restarter := enter_cooldown (rs_now s) p (rs_restarter s),
                    rs_jobs := (rs_jobs s)[i := JDone],
                    rs_log := OFailed (rs_now s) u p i # rs_log s\<rparr>
         | JCascade u \<Rightarrow>
             s\<lparr>rs_jobs := (rs_jobs s)[i := JDependents u (read_dependents u (rs_restarter s))]\<rparr>
         | JDependents u [] \<Rightarrow> s\<lparr>rs_jobs := (rs_jobs s)[i := JDone]\<rparr>
         | JDependents u (d # ds) \<Rightarrow>
             s\<lparr>rs_jobs := (rs_jobs s)[i := JDependents u ds],
               rs_log := OCascade (rs_now s) u d i # rs_log s\<rparr>
         | JDone \<Rightarrow> s)
      else s)"

datatype r_label =
  Advance nat
| Deliver event
| DoRegister string restart_policy
| DoUnregister string
| DoSetDependents "string list gomap"
| Run nat bool

fun rs_step :: "r_label \<Rightarrow> 'h rsys \<Rightarrow> 'h rsys" where
  "rs_step (Advance d) s = s\<lparr>rs_now := rs_now s + int d\<rparr>"
| "rs_step (Deliver ev) s = handle_event ev s"
| "rs_step (DoRegister u pol) s =
     s\<lparr>rs_restarter := rr_register u pol (rs_restarter s),
       rs_log := ORegistered u (length (rr_heap (rs_restarter s))) pol # rs_log s\<rparr>"
| "rs_step (DoUnregister u) s =
     s\<lparr>rs_restarter := rr_unregister u (rs_restarter s), rs_log := OUnregistered u # rs_log s\<rparr>"
| "rs_step (DoSetDependents m) s = s\<lparr>rs_restarter := set_dependents m (rs_restarter s)\<rparr>"
| "rs_step (Run i ok) s = run_job i ok s"

definition rs_run :: "r_label list \<Rightarrow> 'h rsys \<Rightarrow> 'h rsys" where
  "rs_run = fold rs_step"

inductive r_next :: "'h rsys \<Rightarrow> 'h rsys \<Rightarrow> bool" where
  "r_next s (rs_step l s)"

definition rs_init :: "'h rsys \<Rightarrow> bool" where
  "rs_init s \<longleftrightarrow> rs_restarter s = restarter_new \<and> rs_jobs s = [] \<and> rs_log s = []"

definition rs_start :: "'h rsys" where
  "rs_start = \<lparr>rs_now = 0, rs_restarter = restarter_new, rs_sm = sm_new, rs_jobs = [], rs_log = []\<rparr>"

section \<open>The specification, over the log\<close>

text \<open>
  What the tracker of a unit must be, from the history alone: the policy is that of the last
  registration, the attempts are those since the last registration or recovery, and the cooldown
  is set by the last failed restart of that registration.
\<close>

fun tracker_in :: "observation list \<Rightarrow> string \<Rightarrow> (nat \<times> restart_policy) option" where
  "tracker_in [] u = None"
| "tracker_in (ORegistered v p pol # l) u = (if v = u then Some (p, pol) else tracker_in l u)"
| "tracker_in (OUnregistered v # l) u = (if v = u then None else tracker_in l u)"
| "tracker_in (ob # l) u = tracker_in l u"

fun attempts_in :: "observation list \<Rightarrow> string \<Rightarrow> nat" where
  "attempts_in [] u = 0"
| "attempts_in (ORegistered v p pol # l) u = (if v = u then 0 else attempts_in l u)"
| "attempts_in (ORecovered v # l) u = (if v = u then 0 else attempts_in l u)"
| "attempts_in (OAttempt t v d g # l) u = (if v = u then Suc (attempts_in l u) else attempts_in l u)"
| "attempts_in (ob # l) u = attempts_in l u"

fun cooldown_in :: "observation list \<Rightarrow> string \<Rightarrow> instant" where
  "cooldown_in [] u = zero_time"
| "cooldown_in (ORegistered v p pol # l) u = (if v = u then zero_time else cooldown_in l u)"
| "cooldown_in (ORecovered v # l) u = (if v = u then zero_time else cooldown_in l u)"
| "cooldown_in (OFailed t v p g # l) u =
     (case tracker_in l u of
        Some (q, pol) \<Rightarrow> (if v = u \<and> q = p then t + rp_cooldown pol else cooldown_in l u)
      | None \<Rightarrow> cooldown_in l u)"
| "cooldown_in (ob # l) u = cooldown_in l u"

text \<open>How far a goroutine has come, from its own entries alone.\<close>

datatype progress =
  PNone
| PDecided string
| PWaitsUntil instant string
| PRestarted string
| PFailed

fun progress_in :: "observation list \<Rightarrow> nat \<Rightarrow> progress" where
  "progress_in [] g = PNone"
| "progress_in (ODecided t u h # l) g = (if h = g then PDecided u else progress_in l g)"
| "progress_in (OAttempt t u d h # l) g = (if h = g then PWaitsUntil (t + max 0 d) u else progress_in l g)"
| "progress_in (ORestart t u h # l) g = (if h = g then PRestarted u else progress_in l g)"
| "progress_in (OFailed t u p h # l) g = (if h = g then PFailed else progress_in l g)"
| "progress_in (ob # l) g = progress_in l g"

text \<open>
  The promise: each entry is justified by what precedes it. A restart is decided for a unit
  registered with an enabled policy, out of its cooldown, and starts a goroutine of its own; that
  goroutine makes one attempt, for that unit, which waits the policy's backoff doubled per attempt
  since the last recovery, at most six times; it restarts the unit once, not before that wait is
  over; it fails, or restarts dependents, only after that restart, and no dependent after a failure.
\<close>

fun log_ok :: "observation list \<Rightarrow> bool" where
  "log_ok [] \<longleftrightarrow> True"
| "log_ok (ODecided t u g # l) \<longleftrightarrow>
     log_ok l \<and> progress_in l g = PNone
     \<and> (case tracker_in l u of None \<Rightarrow> False | Some (p, pol) \<Rightarrow> rp_enabled pol)
     \<and> cooldown_in l u \<le> t"
| "log_ok (OAttempt t u d g # l) \<longleftrightarrow>
     log_ok l \<and> progress_in l g = PDecided u
     \<and> (case tracker_in l u of None \<Rightarrow> False
        | Some (p, pol) \<Rightarrow> int (attempts_in l u) \<le> int64_max \<longrightarrow>
            d = wrap64 (rp_backoff pol * 2 ^ min 6 (attempts_in l u)))"
| "log_ok (ORestart t u g # l) \<longleftrightarrow>
     log_ok l \<and> (\<exists>due. progress_in l g = PWaitsUntil due u \<and> due \<le> t)"
| "log_ok (OFailed t u p g # l) \<longleftrightarrow> log_ok l \<and> progress_in l g = PRestarted u"
| "log_ok (OCascade t u v g # l) \<longleftrightarrow> log_ok l \<and> progress_in l g = PRestarted u"
| "log_ok (ob # l) \<longleftrightarrow> log_ok l"

section \<open>The steps, case by case\<close>

text \<open>The shapes a step can have; the invariants below are checked on each of them.\<close>

definition same_but_idle :: "'h rsys \<Rightarrow> 'h rsys \<Rightarrow> bool" where
  "same_but_idle s t \<longleftrightarrow>
     rr_trackers (rs_restarter t) = rr_trackers (rs_restarter s)
     \<and> rr_heap (rs_restarter t) = rr_heap (rs_restarter s)
     \<and> rs_jobs t = rs_jobs s \<and> rs_log t = rs_log s"

lemma should_restart_cases:
  assumes "should_restart now ev r sm = (yes, r', sm')"
  obtains (no) "\<not> yes" "r' = r"
      "\<not> (tracks_enabled r (ev_unit_name ev) \<and> is_recovery ev)"
  | (recovered) p where "\<not> yes" "map_of (rr_trackers r) (ev_unit_name ev) = Some p"
      "rp_enabled (ut_policy (rr_heap r ! p))" "is_recovery ev" "r' = reset_tracker p r"
  | (restart) p where "yes" "r' = r" "map_of (rr_trackers r) (ev_unit_name ev) = Some p"
      "rp_enabled (ut_policy (rr_heap r ! p))" "ut_cooldown_until (rr_heap r ! p) \<le> now"
proof (cases "map_of (rr_trackers r) (ev_unit_name ev)")
  case None
  with assms show thesis by (intro no) (simp_all add: should_restart_def tracks_enabled_def)
next
  case (Some p)
  show thesis
  proof (cases "rp_enabled (ut_policy (rr_heap r ! p))")
    case False
    with assms Some show thesis by (intro no) (simp_all add: should_restart_def Let_def tracks_enabled_def)
  next
    case True
    note facts = assms Some True
    show thesis
    proof (cases "is_recovery ev")
      case rec: True
      then have "\<not> yes \<and> r' = reset_tracker p r" using facts
        by (cases "ev_type ev") (simp_all add: should_restart_def Let_def is_recovery_def)
      with rec facts show thesis by (intro recovered [of p]) simp_all
    next
      case norec: False
      then have yes: "r' = r \<and> (yes \<longrightarrow> ut_cooldown_until (rr_heap r ! p) \<le> now)" using facts
        by (cases "ev_type ev")
          (auto simp add: should_restart_def Let_def is_recovery_def time_before_def split: if_splits)
      show thesis
      proof (cases yes)
        case True
        with yes facts show thesis by (intro restart [of p]) simp_all
      next
        case False
        with yes norec show thesis by (intro no) simp_all
      qed
    qed
  qed
qed

lemma handle_event_cases:
  obtains (idle) "same_but_idle s (handle_event ev s)" "rs_now (handle_event ev s) = rs_now s"
  | (decided) u p where "map_of (rr_trackers (rs_restarter s)) u = Some p"
      "rp_enabled (ut_policy (rr_heap (rs_restarter s) ! p))"
      "ut_cooldown_until (rr_heap (rs_restarter s) ! p) \<le> rs_now s"
      "rs_restarter (handle_event ev s) = rs_restarter s"
      "rs_jobs (handle_event ev s) = rs_jobs s @ [JSpawned u]"
      "rs_log (handle_event ev s) = ODecided (rs_now s) u (length (rs_jobs s)) # rs_log s"
      "rs_now (handle_event ev s) = rs_now s"
  | (recovered) u p where "map_of (rr_trackers (rs_restarter s)) u = Some p"
      "rs_restarter (handle_event ev s) = reset_tracker p (rs_restarter s)"
      "rs_jobs (handle_event ev s) = rs_jobs s" "rs_log (handle_event ev s) = ORecovered u # rs_log s"
      "rs_now (handle_event ev s) = rs_now s"
proof -
  obtain yes r' sm' where e: "should_restart (rs_now s) ev (rs_restarter s) (rs_sm s) = (yes, r', sm')"
    by (metis prod_cases3)
  from e show thesis
  proof (cases rule: should_restart_cases)
    case no
    with e have "same_but_idle s (handle_event ev s) \<and> rs_now (handle_event ev s) = rs_now s"
      by (auto simp: handle_event_def same_but_idle_def)
    then show thesis using idle by blast
  next
    case (recovered p)
    with e show thesis by (intro that(3) [of "ev_unit_name ev" p]) (auto simp: handle_event_def tracks_enabled_def)
  next
    case (restart p)
    with e show thesis by (intro that(2) [of "ev_unit_name ev" p]) (auto simp: handle_event_def)
  qed
qed

lemma run_job_cases:
  obtains (idle) "same_but_idle s (run_job i ok s)" "rs_now (run_job i ok s) = rs_now s"
  | (move) j where "i < length (rs_jobs s)" "rs_restarter (run_job i ok s) = rs_restarter s"
      "rs_jobs (run_job i ok s) = (rs_jobs s)[i := j]" "rs_log (run_job i ok s) = rs_log s"
      "rs_now (run_job i ok s) = rs_now s"
      "j = JDone \<or> (\<exists>u. j = JCascade u \<and> (\<exists>p. rs_jobs s ! i = JRestarting u p))
       \<or> (\<exists>u ds. j = JDependents u ds \<and> rs_jobs s ! i = JCascade u)"
  | (attempt) u p where "i < length (rs_jobs s)" "rs_jobs s ! i = JSpawned u"
      "map_of (rr_trackers (rs_restarter s)) u = Some p"
      "rs_restarter (run_job i ok s) = snd (attempt_begin u (rs_restarter s))"
      "rs_jobs (run_job i ok s) = (rs_jobs s)
         [i := JSleeping u p (rs_now s + max 0 (snd (the (fst (attempt_begin u (rs_restarter s))))))]"
      "rs_log (run_job i ok s) =
         OAttempt (rs_now s) u (snd (the (fst (attempt_begin u (rs_restarter s))))) i # rs_log s"
      "rs_now (run_job i ok s) = rs_now s"
  | (restart) u p wake where "i < length (rs_jobs s)" "rs_jobs s ! i = JSleeping u p wake"
      "wake \<le> rs_now s" "rs_restarter (run_job i ok s) = rs_restarter s"
      "rs_jobs (run_job i ok s) = (rs_jobs s)[i := JRestarting u p]"
      "rs_log (run_job i ok s) = ORestart (rs_now s) u i # rs_log s"
      "rs_now (run_job i ok s) = rs_now s"
  | (failed) u p where "i < length (rs_jobs s)" "rs_jobs s ! i = JRestarting u p"
      "rs_restarter (run_job i ok s) = enter_cooldown (rs_now s) p (rs_restarter s)"
      "rs_jobs (run_job i ok s) = (rs_jobs s)[i := JDone]"
      "rs_log (run_job i ok s) = OFailed (rs_now s) u p i # rs_log s"
      "rs_now (run_job i ok s) = rs_now s"
  | (cascade) u d ds where "i < length (rs_jobs s)" "rs_jobs s ! i = JDependents u (d # ds)"
      "rs_restarter (run_job i ok s) = rs_restarter s"
      "rs_jobs (run_job i ok s) = (rs_jobs s)[i := JDependents u ds]"
      "rs_log (run_job i ok s) = OCascade (rs_now s) u d i # rs_log s"
      "rs_now (run_job i ok s) = rs_now s"
proof (cases "i < length (rs_jobs s)")
  case False
  then show thesis by (intro idle) (simp_all add: run_job_def same_but_idle_def)
next
  case i: True
  show thesis
  proof (cases "rs_jobs s ! i")
    case (JSpawned u)
    show thesis
    proof (cases "map_of (rr_trackers (rs_restarter s)) u")
      case None
      with i JSpawned show thesis by (intro move [of JDone]) (simp_all add: run_job_def attempt_begin_def)
    next
      case (Some p)
      with i JSpawned show thesis
        by (intro attempt [of u p]) (auto simp: run_job_def attempt_begin_def Let_def)
    qed
  next
    case (JSleeping u p wake)
    show thesis
    proof (cases "rs_now s < wake")
      case True
      with i JSleeping show thesis by (intro idle) (simp_all add: run_job_def same_but_idle_def)
    next
      case False
      with i JSleeping show thesis by (intro restart [of u p wake]) (simp_all add: run_job_def)
    qed
  next
    case (JRestarting u p)
    show thesis
    proof (cases ok)
      case True
      with i JRestarting show thesis by (intro move [of "JCascade u"]) (simp_all add: run_job_def)
    next
      case False
      with i JRestarting show thesis by (intro failed [of u p]) (simp_all add: run_job_def)
    qed
  next
    case (JCascade u)
    with i show thesis
      by (intro move [of "JDependents u (read_dependents u (rs_restarter s))"]) (simp_all add: run_job_def)
  next
    case (JDependents u ds)
    show thesis
    proof (cases ds)
      case Nil
      with i JDependents show thesis by (intro move [of JDone]) (simp_all add: run_job_def)
    next
      case (Cons d ds')
      with i JDependents show thesis by (intro cascade [of u d ds']) (simp_all add: run_job_def)
    qed
  next
    case JDone
    with i show thesis by (intro idle) (simp_all add: run_job_def same_but_idle_def)
  qed
qed

section \<open>The invariant\<close>

text \<open>The trackers are what the log says; no two units share one.\<close>

definition spec_tracker :: "observation list \<Rightarrow> string \<Rightarrow> restart_policy \<Rightarrow> unit_tracker" where
  "spec_tracker l u pol =
     \<lparr>ut_policy = pol, ut_attempts = wrap64 (int (attempts_in l u)), ut_cooldown_until = cooldown_in l u\<rparr>"

definition tr_inv :: "restarter \<Rightarrow> observation list \<Rightarrow> bool" where
  "tr_inv r l \<longleftrightarrow>
     rr_ok r
     \<and> (\<forall>u. map_of (rr_trackers r) u = map_option fst (tracker_in l u))
     \<and> (\<forall>u p pol. tracker_in l u = Some (p, pol) \<longrightarrow> rr_heap r ! p = spec_tracker l u pol)
     \<and> (\<forall>u v p. map_of (rr_trackers r) u = Some p \<longrightarrow> map_of (rr_trackers r) v = Some p \<longrightarrow> u = v)"

lemma tr_invI:
  assumes "gm_ok (rr_trackers r)"
    and "\<And>u. map_of (rr_trackers r) u = map_option fst (tracker_in l u)"
    and "\<And>u p pol. tracker_in l u = Some (p, pol) \<Longrightarrow> p < length (rr_heap r) \<and> rr_heap r ! p = spec_tracker l u pol"
    and "\<And>u v p pol pol'. tracker_in l u = Some (p, pol) \<Longrightarrow> tracker_in l v = Some (p, pol') \<Longrightarrow> u = v"
  shows "tr_inv r l"
proof -
  have "rr_ok r" using assms(1,2,3) by (intro rr_okI) auto
  then show ?thesis unfolding tr_inv_def using assms(2,3,4) by auto
qed

lemma tr_inv_facts:
  assumes "tr_inv r l"
  shows "rr_ok r" "gm_ok (rr_trackers r)" "map_of (rr_trackers r) u = map_option fst (tracker_in l u)"
    "tracker_in l u = Some (p, pol) \<Longrightarrow> p < length (rr_heap r) \<and> rr_heap r ! p = spec_tracker l u pol"
    "tracker_in l u = Some (p, pol) \<Longrightarrow> tracker_in l v = Some (p, pol') \<Longrightarrow> u = v"
proof -
  from assms show ok: "rr_ok r" by (simp add: tr_inv_def)
  then show "gm_ok (rr_trackers r)" by (rule rr_ok_gm)
  from assms show m: "map_of (rr_trackers r) u = map_option fst (tracker_in l u)" for u
    by (simp add: tr_inv_def)
  show "p < length (rr_heap r) \<and> rr_heap r ! p = spec_tracker l u pol" if "tracker_in l u = Some (p, pol)"
    using that assms rr_ok_ptr [OF ok, of u p] m [of u] by (simp add: tr_inv_def)
  show "u = v" if "tracker_in l u = Some (p, pol)" "tracker_in l v = Some (p, pol')"
    using that assms m [of u] m [of v] unfolding tr_inv_def by (metis option.simps(9) fst_conv)
qed

lemma tr_inv_tracker:
  assumes "tr_inv r l" "map_of (rr_trackers r) u = Some p"
  obtains pol where "tracker_in l u = Some (p, pol)" "rr_heap r ! p = spec_tracker l u pol"
    "p < length (rr_heap r)"
proof -
  from assms(2) tr_inv_facts(3) [OF assms(1), of u] obtain pol where "tracker_in l u = Some (p, pol)" by auto
  with tr_inv_facts(4) [OF assms(1) this] show thesis using that by blast
qed

lemma tr_inv_new: "tr_inv restarter_new []"
  by (rule tr_invI) (simp_all add: restarter_new_def)

lemma tr_inv_register:
  assumes "tr_inv r l"
  shows "tr_inv (rr_register u pol r) (ORegistered u (length (rr_heap r)) pol # l)"
proof (rule tr_invI)
  note f = tr_inv_facts [OF assms]
  show "gm_ok (rr_trackers (rr_register u pol r))" using f(2) by (simp add: rr_register_def)
  show "map_of (rr_trackers (rr_register u pol r)) v =
      map_option fst (tracker_in (ORegistered u (length (rr_heap r)) pol # l) v)" for v
    using f(3) [of v] by (simp add: rr_register_def)
  show "p < length (rr_heap (rr_register u pol r)) \<and>
      rr_heap (rr_register u pol r) ! p = spec_tracker (ORegistered u (length (rr_heap r)) pol # l) v pol'"
    if "tracker_in (ORegistered u (length (rr_heap r)) pol # l) v = Some (p, pol')" for v p pol'
    using that f(4) [of v p pol']
    by (auto simp: rr_register_def spec_tracker_def new_tracker_def nth_append wrap64_def split: if_splits)
  show "v = w"
    if "tracker_in (ORegistered u (length (rr_heap r)) pol # l) v = Some (p, pol1)"
      "tracker_in (ORegistered u (length (rr_heap r)) pol # l) w = Some (p, pol2)" for v w p pol1 pol2
  proof -
    have "q < length (rr_heap r)" if "tracker_in l x = Some (q, pol')" for x q pol'
      using f(4) [OF that] by simp
    from this [of v p pol1] this [of w p pol2] show ?thesis
      using that f(5) [of v p pol1 w pol2] by (cases "u = v"; cases "u = w") simp_all
  qed
qed

lemma tr_inv_unregister:
  assumes "tr_inv r l"
  shows "tr_inv (rr_unregister u r) (OUnregistered u # l)"
proof (rule tr_invI)
  note f = tr_inv_facts [OF assms]
  show "gm_ok (rr_trackers (rr_unregister u r))" using f(2) by (simp add: rr_unregister_def)
  show "map_of (rr_trackers (rr_unregister u r)) v = map_option fst (tracker_in (OUnregistered u # l) v)" for v
    using f(3) [of v] by (simp add: rr_unregister_def)
  show "p < length (rr_heap (rr_unregister u r)) \<and>
      rr_heap (rr_unregister u r) ! p = spec_tracker (OUnregistered u # l) v pol"
    if "tracker_in (OUnregistered u # l) v = Some (p, pol)" for v p pol
    using that f(4) [of v p pol] by (auto simp: rr_unregister_def spec_tracker_def split: if_splits)
  show "v = w"
    if "tracker_in (OUnregistered u # l) v = Some (p, pol1)"
      "tracker_in (OUnregistered u # l) w = Some (p, pol2)" for v w p pol1 pol2
    using that f(5) [of v p pol1 w pol2] by (auto split: if_splits)
qed

text \<open>Writing through the pointer of one unit leaves the trackers of the others alone.\<close>

lemma tr_inv_write:
  assumes inv: "tr_inv r l"
    and p: "p < length (rr_heap r)"
    and own: "\<And>v. map_of (rr_trackers r) v = Some p \<Longrightarrow> v = u"
    and same: "\<And>v. tracker_in l' v = tracker_in l v"
    and others: "\<And>v q pol. tracker_in l v = Some (q, pol) \<Longrightarrow> q \<noteq> p \<Longrightarrow> spec_tracker l' v pol = spec_tracker l v pol"
    and wr: "\<And>pol. tracker_in l u = Some (p, pol) \<Longrightarrow> x = spec_tracker l' u pol"
  shows "tr_inv (r\<lparr>rr_heap := (rr_heap r)[p := x]\<rparr>) l'"
proof (rule tr_invI)
  note f = tr_inv_facts [OF inv]
  show "gm_ok (rr_trackers (r\<lparr>rr_heap := (rr_heap r)[p := x]\<rparr>))" using f(2) by simp
  show "map_of (rr_trackers (r\<lparr>rr_heap := (rr_heap r)[p := x]\<rparr>)) v = map_option fst (tracker_in l' v)" for v
    using f(3) by (simp add: same)
  show "q < length (rr_heap (r\<lparr>rr_heap := (rr_heap r)[p := x]\<rparr>)) \<and>
      rr_heap (r\<lparr>rr_heap := (rr_heap r)[p := x]\<rparr>) ! q = spec_tracker l' v pol"
    if "tracker_in l' v = Some (q, pol)" for v q pol
  proof (cases "q = p")
    case True
    have "tracker_in l v = Some (p, pol)" using that True same by simp
    moreover have "v = u" using own [of v] f(3) [of v] calculation by simp
    ultimately show ?thesis using True p wr [of pol] by simp
  next
    case False
    then show ?thesis using that f(4) [of v q pol] others [of v q pol] by (simp add: same)
  qed
  show "v = w" if "tracker_in l' v = Some (q, pol)" "tracker_in l' w = Some (q, pol')" for v w q pol pol'
    using that f(5) [of v q pol w pol'] by (simp add: same)
qed

lemma tr_inv_own: "tr_inv r l \<Longrightarrow> map_of (rr_trackers r) u = Some p \<Longrightarrow> map_of (rr_trackers r) v = Some p \<Longrightarrow> v = u"
  by (auto simp: tr_inv_def)

lemma tr_inv_recovered:
  assumes inv: "tr_inv r l" and u: "map_of (rr_trackers r) u = Some p"
  shows "tr_inv (reset_tracker p r) (ORecovered u # l)"
proof -
  obtain pol where t: "tracker_in l u = Some (p, pol)" "rr_heap r ! p = spec_tracker l u pol" "p < length (rr_heap r)"
    using tr_inv_tracker [OF inv u] .
  show ?thesis unfolding reset_tracker_def
    by (rule tr_inv_write [OF inv t(3), of u])
      (use tr_inv_own [OF inv u] t in \<open>auto simp: spec_tracker_def wrap64_def\<close>)
qed

definition backoff_of :: "unit_tracker \<Rightarrow> duration" where
  "backoff_of t = wrap64 (rp_backoff (ut_policy t) *
     2 ^ nat (if ut_attempts t > max_backoff_shift then max_backoff_shift else ut_attempts t))"

lemma attempt_begin_Some:
  "map_of (rr_trackers r) u = Some p \<Longrightarrow>
   attempt_begin u r = (Some (p, backoff_of (rr_heap r ! p)),
     r\<lparr>rr_heap := (rr_heap r)[p := (rr_heap r ! p)
        \<lparr>ut_attempts := wrap64 (ut_attempts (rr_heap r ! p) + 1)\<rparr>]\<rparr>)"
  by (simp add: attempt_begin_def backoff_of_def Let_def)

lemma wrap64_Suc:
  "wrap64 (wrap64 x + 1) = wrap64 (x + 1)"
  "wrap64 (1 + wrap64 x) = wrap64 (1 + x)"
  by (simp_all add: wrap64_def algebra_simps mod_simps)

lemma tr_inv_attempt:
  assumes inv: "tr_inv r l" and u: "map_of (rr_trackers r) u = Some p"
  shows "tr_inv (snd (attempt_begin u r)) (OAttempt t u d g # l)"
proof -
  obtain pol where t: "tracker_in l u = Some (p, pol)" "rr_heap r ! p = spec_tracker l u pol" "p < length (rr_heap r)"
    using tr_inv_tracker [OF inv u] .
  show ?thesis unfolding attempt_begin_Some [OF u] snd_conv
    by (rule tr_inv_write [OF inv t(3), of u])
      (use tr_inv_own [OF inv u] t in \<open>auto simp: spec_tracker_def wrap64_Suc add.commute\<close>)
qed

lemma tr_inv_failed:
  assumes inv: "tr_inv r l" and p: "p < length (rr_heap r)"
    and own: "\<And>v. map_of (rr_trackers r) v = Some p \<Longrightarrow> v = u"
  shows "tr_inv (enter_cooldown t p r) (OFailed t u p g # l)"
  unfolding enter_cooldown_def
  by (rule tr_inv_write [OF inv p own])
    (use tr_inv_facts(4) [OF inv] in \<open>auto simp: spec_tracker_def time_add_def split: option.splits\<close>)

lemma tr_inv_log [simp]:
  "tr_inv r (ODecided t u g # l) \<longleftrightarrow> tr_inv r l"
  "tr_inv r (ORestart t u g # l) \<longleftrightarrow> tr_inv r l"
  "tr_inv r (OCascade t u v g # l) \<longleftrightarrow> tr_inv r l"
  by (simp_all add: tr_inv_def spec_tracker_def)

lemma tr_inv_cong:
  "rr_trackers r' = rr_trackers r \<Longrightarrow> rr_heap r' = rr_heap r \<Longrightarrow> tr_inv r l \<Longrightarrow> tr_inv r' l"
  by (simp add: tr_inv_def rr_ok_def)

text \<open>
  A goroutine holds a tracker of its own unit, and stands where its own log entries say; no entry
  names a goroutine that is yet to be started.
\<close>

definition owns :: "restarter \<Rightarrow> string \<Rightarrow> nat \<Rightarrow> bool" where
  "owns r u p \<longleftrightarrow> p < length (rr_heap r) \<and> (\<forall>v. map_of (rr_trackers r) v = Some p \<longrightarrow> v = u)"

fun job_good :: "restarter \<Rightarrow> progress \<Rightarrow> job \<Rightarrow> bool" where
  "job_good r g (JSpawned u) \<longleftrightarrow> g = PDecided u"
| "job_good r g (JSleeping u p wake) \<longleftrightarrow> owns r u p \<and> g = PWaitsUntil wake u"
| "job_good r g (JRestarting u p) \<longleftrightarrow> owns r u p \<and> g = PRestarted u"
| "job_good r g (JCascade u) \<longleftrightarrow> g = PRestarted u"
| "job_good r g (JDependents u ds) \<longleftrightarrow> g = PRestarted u"
| "job_good r g JDone \<longleftrightarrow> True"

definition jobs_inv :: "restarter \<Rightarrow> observation list \<Rightarrow> job list \<Rightarrow> bool" where
  "jobs_inv r l js \<longleftrightarrow>
     (\<forall>i. if i < length js then job_good r (progress_in l i) (js ! i) else progress_in l i = PNone)"

definition rs_inv :: "'h rsys \<Rightarrow> bool" where
  "rs_inv s \<longleftrightarrow>
     tr_inv (rs_restarter s) (rs_log s)
     \<and> jobs_inv (rs_restarter s) (rs_log s) (rs_jobs s)
     \<and> log_ok (rs_log s)"

lemma owns_mono:
  assumes "owns r u p" "length (rr_heap r) \<le> length (rr_heap r')"
    and "\<And>v q. map_of (rr_trackers r') v = Some q \<Longrightarrow> q < length (rr_heap r) \<Longrightarrow> map_of (rr_trackers r) v = Some q"
  shows "owns r' u p"
  using assms by (auto simp: owns_def)

lemma job_good_mono:
  assumes "job_good r g j" "length (rr_heap r) \<le> length (rr_heap r')"
    and "\<And>v q. map_of (rr_trackers r') v = Some q \<Longrightarrow> q < length (rr_heap r) \<Longrightarrow> map_of (rr_trackers r) v = Some q"
  shows "job_good r' g j"
  using assms(1) owns_mono [OF _ assms(2,3)] by (cases j) simp_all

lemma jobs_inv_mono:
  assumes "jobs_inv r l js" "length (rr_heap r) \<le> length (rr_heap r')"
    and "\<And>v q. map_of (rr_trackers r') v = Some q \<Longrightarrow> q < length (rr_heap r) \<Longrightarrow> map_of (rr_trackers r) v = Some q"
    and "\<And>i. progress_in l' i = progress_in l i"
  shows "jobs_inv r' l' js"
  using assms(1) job_good_mono [OF _ assms(2,3)] unfolding jobs_inv_def assms(4) by metis

text \<open>A step of goroutine \<open>i\<close> has to justify the new place of that goroutine only.\<close>

lemma jobs_inv_update:
  assumes "jobs_inv r l js" "length (rr_heap r) \<le> length (rr_heap r')"
    and "\<And>v q. map_of (rr_trackers r') v = Some q \<Longrightarrow> q < length (rr_heap r) \<Longrightarrow> map_of (rr_trackers r) v = Some q"
    and "i < length js" "\<And>k. k \<noteq> i \<Longrightarrow> progress_in l' k = progress_in l k"
    and "job_good r' (progress_in l' i) j"
  shows "jobs_inv r' l' (js[i := j])"
  unfolding jobs_inv_def
proof
  fix k
  show "if k < length (js[i := j]) then job_good r' (progress_in l' k) (js[i := j] ! k)
    else progress_in l' k = PNone"
  proof (cases "k = i")
    case False
    then show ?thesis
      using assms(1,5) job_good_mono [OF _ assms(2,3)] unfolding jobs_inv_def by (metis length_list_update nth_list_update_neq)
  qed (use assms(4,6) in simp)
qed

lemma jobs_inv_nth: "jobs_inv r l js \<Longrightarrow> i < length js \<Longrightarrow> job_good r (progress_in l i) (js ! i)"
  unfolding jobs_inv_def by metis

lemma jobs_inv_spawn:
  assumes "jobs_inv r l js"
  shows "jobs_inv r (ODecided t u (length js) # l) (js @ [JSpawned u])" "progress_in l (length js) = PNone"
proof -
  have i: "if i < length js then job_good r (progress_in l i) (js ! i) else progress_in l i = PNone" for i
    using assms by (simp add: jobs_inv_def)
  show "progress_in l (length js) = PNone" using i [of "length js"] by simp
  show "jobs_inv r (ODecided t u (length js) # l) (js @ [JSpawned u])"
    unfolding jobs_inv_def using i by (auto simp: nth_append)
qed

lemma spec_tracker_sel [simp]:
  "ut_policy (spec_tracker l u pol) = pol"
  "ut_attempts (spec_tracker l u pol) = wrap64 (int (attempts_in l u))"
  "ut_cooldown_until (spec_tracker l u pol) = cooldown_in l u"
  by (simp_all add: spec_tracker_def)

lemma backoff_of_spec:
  assumes "int (attempts_in l u) \<le> int64_max"
  shows "backoff_of (spec_tracker l u pol) = wrap64 (rp_backoff pol * 2 ^ min 6 (attempts_in l u))"
proof -
  have "wrap64 (int (attempts_in l u)) = int (attempts_in l u)"
    using assms by (intro wrap64_id) (simp_all add: int64_min_def)
  then show ?thesis
    by (cases "attempts_in l u \<le> 6") (simp_all add: backoff_of_def max_backoff_shift_def min_def)
qed

lemma rs_inv_cong:
  assumes "rs_inv s" "rr_trackers (rs_restarter t) = rr_trackers (rs_restarter s)"
    "rr_heap (rs_restarter t) = rr_heap (rs_restarter s)" "rs_jobs t = rs_jobs s" "rs_log t = rs_log s"
  shows "rs_inv t"
proof -
  have "jobs_inv (rs_restarter t) (rs_log s) (rs_jobs s)"
    by (rule jobs_inv_mono [of "rs_restarter s"]) (use assms in \<open>auto simp: rs_inv_def\<close>)
  then show ?thesis using assms tr_inv_cong [OF assms(2,3)] by (simp add: rs_inv_def)
qed

lemma rs_inv_handle_event:
  assumes "rs_inv s"
  shows "rs_inv (handle_event ev s)"
proof (cases rule: handle_event_cases [of s ev])
  case idle
  with assms show ?thesis by (auto simp: same_but_idle_def intro: rs_inv_cong)
next
  case (decided u p)
  have inv: "tr_inv (rs_restarter s) (rs_log s)" and jobs: "jobs_inv (rs_restarter s) (rs_log s) (rs_jobs s)"
    using assms by (simp_all add: rs_inv_def)
  obtain pol where t: "tracker_in (rs_log s) u = Some (p, pol)"
    "rr_heap (rs_restarter s) ! p = spec_tracker (rs_log s) u pol"
    using tr_inv_tracker [OF inv decided(1)] by blast
  show ?thesis
    using assms decided t jobs_inv_spawn [OF jobs] by (simp add: rs_inv_def)
next
  case (recovered u p)
  have inv: "tr_inv (rs_restarter s) (rs_log s)" using assms by (simp add: rs_inv_def)
  have "jobs_inv (reset_tracker p (rs_restarter s)) (ORecovered u # rs_log s) (rs_jobs s)"
    by (rule jobs_inv_mono [of "rs_restarter s" "rs_log s"])
      (use assms in \<open>auto simp: rs_inv_def reset_tracker_def\<close>)
  then show ?thesis
    using assms recovered tr_inv_recovered [OF inv recovered(1)] by (simp add: rs_inv_def)
qed

lemma rs_inv_run_job:
  assumes "rs_inv s"
  shows "rs_inv (run_job i ok s)"
proof -
  have inv: "tr_inv (rs_restarter s) (rs_log s)" and jobs: "jobs_inv (rs_restarter s) (rs_log s) (rs_jobs s)"
    and log: "log_ok (rs_log s)"
    using assms by (simp_all add: rs_inv_def)
  show ?thesis
  proof (cases rule: run_job_cases [of s i ok])
    case idle
    with assms show ?thesis by (auto simp: same_but_idle_def intro: rs_inv_cong)
  next
    case (move j)
    have "job_good (rs_restarter s) (progress_in (rs_log s) i) j"
      using move(6) jobs_inv_nth [OF jobs move(1)] by auto
    then have "jobs_inv (rs_restarter s) (rs_log s) ((rs_jobs s)[i := j])"
      by (intro jobs_inv_update [OF jobs]) (use move in simp_all)
    then show ?thesis using inv log move by (simp add: rs_inv_def)
  next
    case (attempt u p)
    let ?t = "rr_heap (rs_restarter s) ! p"
    let ?r = "snd (attempt_begin u (rs_restarter s))"
    let ?l = "OAttempt (rs_now s) u (backoff_of ?t) i # rs_log s"
    note b = attempt_begin_Some [OF attempt(3)]
    obtain pol where t: "tracker_in (rs_log s) u = Some (p, pol)" "?t = spec_tracker (rs_log s) u pol"
      "p < length (rr_heap (rs_restarter s))"
      using tr_inv_tracker [OF inv attempt(3)] .
    have g: "progress_in (rs_log s) i = PDecided u"
      using jobs_inv_nth [OF jobs attempt(1)] attempt(2) by simp
    have "job_good ?r (progress_in ?l i) (JSleeping u p (rs_now s + max 0 (backoff_of ?t)))"
      using t(3) tr_inv_own [OF inv attempt(3)] by (simp add: b owns_def)
    then have "jobs_inv ?r ?l ((rs_jobs s)[i := JSleeping u p (rs_now s + max 0 (backoff_of ?t))])"
      by (intro jobs_inv_update [OF jobs]) (use attempt(1) in \<open>auto simp: b\<close>)
    then show ?thesis
      using tr_inv_attempt [OF inv attempt(3)] g log attempt(4-6) backoff_of_spec [of "rs_log s" u pol] t(1,2)
      by (simp add: rs_inv_def b)
  next
    case (restart u p wake)
    let ?l = "ORestart (rs_now s) u i # rs_log s"
    have g: "owns (rs_restarter s) u p" "progress_in (rs_log s) i = PWaitsUntil wake u"
      using jobs_inv_nth [OF jobs restart(1)] restart(2) by simp_all
    have "jobs_inv (rs_restarter s) ?l ((rs_jobs s)[i := JRestarting u p])"
      using g(1) by (intro jobs_inv_update [OF jobs]) (use restart(1) in simp_all)
    then show ?thesis using inv g(2) log restart(3-6) by (simp add: rs_inv_def)
  next
    case (failed u p)
    let ?r = "enter_cooldown (rs_now s) p (rs_restarter s)"
    let ?l = "OFailed (rs_now s) u p i # rs_log s"
    have g: "owns (rs_restarter s) u p" "progress_in (rs_log s) i = PRestarted u"
      using jobs_inv_nth [OF jobs failed(1)] failed(2) by simp_all
    have "tr_inv ?r ?l" using g(1) by (intro tr_inv_failed [OF inv]) (auto simp: owns_def)
    moreover have "jobs_inv ?r ?l ((rs_jobs s)[i := JDone])"
      by (intro jobs_inv_update [OF jobs]) (use failed(1) in \<open>auto simp: enter_cooldown_def\<close>)
    ultimately show ?thesis using log g(2) failed by (simp add: rs_inv_def)
  next
    case (cascade u d ds)
    let ?l = "OCascade (rs_now s) u d i # rs_log s"
    have g: "progress_in (rs_log s) i = PRestarted u"
      using jobs_inv_nth [OF jobs cascade(1)] cascade(2) by simp
    have "jobs_inv (rs_restarter s) ?l ((rs_jobs s)[i := JDependents u ds])"
      using g by (intro jobs_inv_update [OF jobs]) (use cascade(1) in simp_all)
    then show ?thesis using inv log g cascade by (simp add: rs_inv_def)
  qed
qed

lemma rs_inv_step: "rs_inv s \<Longrightarrow> rs_inv (rs_step l s)"
proof (cases l)
  case (Advance d)
  assume "rs_inv s" then show ?thesis using Advance by (auto intro: rs_inv_cong)
next
  case (Deliver ev)
  assume "rs_inv s" then show ?thesis using Deliver by (simp add: rs_inv_handle_event)
next
  case (DoRegister u pol)
  assume inv: "rs_inv s"
  let ?l = "ORegistered u (length (rr_heap (rs_restarter s))) pol # rs_log s"
  have "jobs_inv (rr_register u pol (rs_restarter s)) ?l (rs_jobs s)"
    by (rule jobs_inv_mono [of "rs_restarter s" "rs_log s"])
      (use inv in \<open>auto simp: rs_inv_def rr_register_def split: if_splits\<close>)
  then show ?thesis using inv DoRegister tr_inv_register by (simp add: rs_inv_def)
next
  case (DoUnregister u)
  assume inv: "rs_inv s"
  let ?l = "OUnregistered u # rs_log s"
  have "jobs_inv (rr_unregister u (rs_restarter s)) ?l (rs_jobs s)"
    by (rule jobs_inv_mono [of "rs_restarter s" "rs_log s"])
      (use inv in \<open>auto simp: rs_inv_def rr_unregister_def split: if_splits\<close>)
  then show ?thesis using inv DoUnregister tr_inv_unregister by (simp add: rs_inv_def)
next
  case (DoSetDependents m)
  assume "rs_inv s" then show ?thesis using DoSetDependents by (auto simp: set_dependents_def intro: rs_inv_cong)
next
  case (Run i ok)
  assume "rs_inv s" then show ?thesis using Run by (simp add: rs_inv_run_job)
qed

lemma rs_inv_init: "rs_init s \<Longrightarrow> rs_inv s"
  using tr_inv_new
  by (simp add: rs_init_def rs_inv_def jobs_inv_def)

inductive_cases r_next_cases: "r_next s t"

interpretation rr_sys: transition_invariant rs_init r_next rs_inv
  by unfold_locales (auto simp: rs_inv_init rs_inv_step elim!: r_next_cases)

lemma reach_rs_run: "reach rs_init r_next s \<Longrightarrow> reach rs_init r_next (rs_run ls s)"
  unfolding rs_run_def
  by (induction ls arbitrary: s) (auto intro: reach_step r_next.intros)

lemma reach_rs_start: "reach rs_init r_next (rs_run ls rs_start)"
  by (intro reach_rs_run reach_init) (simp add: rs_init_def rs_start_def)

section \<open>Properties\<close>

definition sample_policy :: restart_policy where
  "sample_policy = \<lparr>rp_enabled = True, rp_backoff = 5 * second, rp_cooldown = 60 * second\<rparr>"

definition failed_event :: "string \<Rightarrow> event" where
  "failed_event u = \<lparr>ev_type = EventStateChanged, ev_unit_name = u, ev_active_state = ''failed'',
     ev_sub_state = ''failed'', ev_healthy = None, ev_timestamp = 0\<rparr>"

lemmas rs_eval =
  rs_run_def rs_start_def run_job_def handle_event_def should_restart_def attempt_begin_def
  rr_register_def rr_unregister_def enter_cooldown_def new_tracker_def restarter_new_def
  tracks_enabled_def is_recovery_def sample_policy_def failed_event_def second_def zero_time_def
  time_before_def time_add_def max_backoff_shift_def wrap64_def increment_restart_count_def sm_new_def

text \<open>C2. Under every interleaving of events, registrations and restart goroutines, the history
  satisfies the restarter's contract, goroutine by goroutine: a restart is decided only for a unit
  registered with an enabled policy and out of its cooldown, and starts a goroutine of its own;
  that goroutine attempts once, with the policy's backoff doubled per attempt since the last
  recovery or registration, at most six times; it restarts the unit once, and no earlier than its
  own attempt's backoff after its own attempt; dependents are restarted only after the same
  goroutine's restart of their dependency, and not once that has failed.\<close>

theorem restarter_meets_contract:
  assumes "reach rs_init r_next s"
  shows "log_ok (rs_log s)"
  using rr_sys.inv_reach [OF assms] by (simp add: rs_inv_def)

theorem restarter_meets_contract_witness:
  "log_ok (rs_log (rs_run [DoRegister ''a'' sample_policy, Deliver (failed_event ''a''), Run 0 True,
      Advance 5000000000, Run 0 True, Run 0 False, Advance 60000000000, Deliver (failed_event ''a''),
      Run 1 True] (rs_start :: unit rsys)))
   \<and> rs_log (rs_run [DoRegister ''a'' sample_policy, Deliver (failed_event ''a''), Run 0 True,
      Advance 5000000000, Run 0 True, Run 0 False, Advance 60000000000, Deliver (failed_event ''a''),
      Run 1 True] (rs_start :: unit rsys))
     = [OAttempt 65000000000 ''a'' 10000000000 1, ODecided 65000000000 ''a'' 1, OFailed 5000000000 ''a'' 0 0,
        ORestart 5000000000 ''a'' 0, OAttempt 0 ''a'' 5000000000 0, ODecided 0 ''a'' 0,
        ORegistered ''a'' 0 sample_policy]"
  by (rule conjI, rule restarter_meets_contract [OF reach_rs_start], simp add: rs_eval)

text \<open>What an event does, on every branch: the restarter decides to restart exactly on a failed
  state or on a health change other than "healthy", for a registered unit whose policy is enabled
  and whose cooldown is over; a recovery of such a unit clears its attempts and its cooldown; no
  other tracker changes.\<close>

theorem should_restart_spec:
  assumes "rr_ok r" and "\<And>u v p. map_of (rr_trackers r) u = Some p \<Longrightarrow> map_of (rr_trackers r) v = Some p \<Longrightarrow> u = v"
  shows "(fst (should_restart now ev r sm) \<longleftrightarrow>
      (\<exists>t. tracker_of r (ev_unit_name ev) = Some t \<and> rp_enabled (ut_policy t) \<and> is_failure ev
         \<and> ut_cooldown_until t \<le> now))
   \<and> tracker_of (fst (snd (should_restart now ev r sm))) u =
      map_option (\<lambda>t. if u = ev_unit_name ev \<and> rp_enabled (ut_policy t) \<and> is_recovery ev
                      then t\<lparr>ut_attempts := 0, ut_cooldown_until := zero_time\<rparr> else t)
        (tracker_of r u)"
proof (cases "map_of (rr_trackers r) (ev_unit_name ev)")
  case None
  then show ?thesis
    by (cases "tracker_of r u") (auto simp: should_restart_def tracker_of_def)
next
  case (Some p)
  let ?t = "rr_heap r ! p"
  have len: "p < length (rr_heap r)" using rr_ok_ptr [OF assms(1) Some] .
  have dec: "fst (should_restart now ev r sm) \<longleftrightarrow>
      rp_enabled (ut_policy ?t) \<and> is_failure ev \<and> ut_cooldown_until ?t \<le> now"
    using Some by (cases "ev_type ev") (auto simp: should_restart_def Let_def is_failure_def time_before_def)
  have new: "fst (snd (should_restart now ev r sm)) =
      (if rp_enabled (ut_policy ?t) \<and> is_recovery ev then reset_tracker p r else r)"
    using Some by (cases "ev_type ev") (auto simp: should_restart_def Let_def is_recovery_def)
  have reset: "tracker_of (reset_tracker p r) u =
      (if u = ev_unit_name ev then Some (?t\<lparr>ut_attempts := 0, ut_cooldown_until := zero_time\<rparr>)
       else tracker_of r u)"
    using Some len assms(2) [OF Some, of u]
    by (cases "map_of (rr_trackers r) u") (auto simp: tracker_of_def reset_tracker_def nth_list_update)
  have t: "tracker_of r (ev_unit_name ev) = Some ?t" using Some by (simp add: tracker_of_def)
  have keep: "map_option (\<lambda>t. if u = ev_unit_name ev \<and> P t then f t else t) (tracker_of r u) = tracker_of r u"
    if "u \<noteq> ev_unit_name ev" for P f
    using that by (cases "tracker_of r u") simp_all
  show ?thesis
    using dec new reset t keep by (cases "u = ev_unit_name ev") (simp_all only: option.map fst_conv, auto)
qed

theorem should_restart_spec_witness:
  "fst (should_restart 7 (failed_event ''a'') (rr_register ''a'' sample_policy restarter_new)
        (sm_new :: unit state_manager))"
proof -
  let ?r = "rr_register ''a'' sample_policy restarter_new"
  have "tracker_of ?r ''a'' = Some (new_tracker sample_policy)"
    by (simp add: tracker_of_def rr_register_def restarter_new_def)
  moreover have "is_failure (failed_event ''a'')" by (simp add: is_failure_def failed_event_def)
  moreover have "rr_ok ?r" by (simp add: rr_ok_def rr_register_def restarter_new_def gm_ok_def)
  moreover have "map_of (rr_trackers ?r) u = Some p \<Longrightarrow> map_of (rr_trackers ?r) v = Some p \<Longrightarrow> u = v" for u v p
    by (simp add: rr_register_def restarter_new_def split: if_splits)
  moreover have "ev_unit_name (failed_event ''a'') = ''a''" by (simp add: failed_event_def)
  ultimately show ?thesis
    using should_restart_spec [of ?r 7 "failed_event ''a''" "sm_new :: unit state_manager" "''a''"]
    by (simp add: new_tracker_def sample_policy_def zero_time_def)
qed

text \<open>C27. The backoff of an attempt is the policy's backoff times two to the number of attempts, at
  most 64 times the policy's backoff, never less than it, and without overflow when the policy's
  backoff is at most a 64th of the longest duration; the attempt is counted.\<close>

theorem attempt_backoff_bounds:
  assumes "rr_ok r" "tracker_of r u = Some t" "0 \<le> ut_attempts t" "ut_attempts t < int64_max"
    and "0 \<le> rp_backoff (ut_policy t)" "64 * rp_backoff (ut_policy t) \<le> int64_max"
  shows "\<exists>p d r'. attempt_begin u r = (Some (p, d), r')
    \<and> d = rp_backoff (ut_policy t) * 2 ^ nat (min 6 (ut_attempts t))
    \<and> rp_backoff (ut_policy t) \<le> d \<and> d \<le> 64 * rp_backoff (ut_policy t)
    \<and> tracker_of r' u = Some (t\<lparr>ut_attempts := ut_attempts t + 1\<rparr>)"
proof -
  let ?b = "rp_backoff (ut_policy t)" and ?n = "nat (min 6 (ut_attempts t))"
  obtain p where p: "map_of (rr_trackers r) u = Some p" "t = rr_heap r ! p"
    using assms(2) by (auto simp: tracker_of_def)
  have len: "p < length (rr_heap r)" using rr_ok_ptr [OF assms(1) p(1)] .
  have "(2 :: int) ^ ?n \<le> 2 ^ 6" by (rule power_increasing) simp_all
  then have hi: "?b * 2 ^ ?n \<le> 64 * ?b" using assms(5) mult_left_mono [of "2 ^ ?n" 64 ?b] by simp
  have lo: "?b \<le> ?b * 2 ^ ?n" using assms(5) mult_left_mono [of 1 "2 ^ ?n" ?b] by simp
  have "backoff_of t = wrap64 (?b * 2 ^ ?n)"
    by (cases "ut_attempts t > 6") (simp_all add: backoff_of_def max_backoff_shift_def min_def)
  also have "\<dots> = ?b * 2 ^ ?n"
    using hi lo assms(5,6) by (intro wrap64_id) (simp_all add: int64_min_def)
  finally have d: "backoff_of t = ?b * 2 ^ ?n" .
  have "wrap64 (ut_attempts t + 1) = ut_attempts t + 1"
    using assms(3,4) by (intro wrap64_id) (simp_all add: int64_min_def)
  then show ?thesis
    using attempt_begin_Some [OF p(1)] p len d hi lo by (simp add: tracker_of_def)
qed

theorem attempt_backoff_bounds_witness:
  "\<exists>p d r'. attempt_begin ''a'' (rr_register ''a'' sample_policy restarter_new) = (Some (p, d), r')
    \<and> d = 5 * second * 2 ^ nat (min 6 0) \<and> 5 * second \<le> d \<and> d \<le> 64 * (5 * second)
    \<and> tracker_of r' ''a'' = Some ((new_tracker sample_policy)\<lparr>ut_attempts := 0 + 1\<rparr>)"
  using attempt_backoff_bounds [of "rr_register ''a'' sample_policy restarter_new" "''a''"
      "new_tracker sample_policy"]
  by (simp add: tracker_of_def rr_register_def restarter_new_def rr_ok_def gm_ok_def new_tracker_def
      sample_policy_def second_def int64_max_def)




text \<open>Unregistering a unit does not stop a restart that is already waiting: a goroutine asleep in
  its backoff restarts the unit afterwards, although the unit has no tracker any more. This is what
  an idle-stopped backend meets: monitoring is torn down, and the pending restart brings it back.\<close>

theorem pending_restart_survives_unregister:
  "\<exists>s :: unit rsys. reach rs_init r_next s \<and> map_of (rr_trackers (rs_restarter s)) ''web'' = None
     \<and> (\<exists>t pre. rs_log s = [ORestart t ''web'' 0, OUnregistered ''web''] @ pre)"
proof (intro exI conjI)
  let ?s = "rs_run [DoRegister ''web'' sample_policy, Deliver (failed_event ''web''), Run 0 True,
      DoUnregister ''web'', Advance 5000000000, Run 0 True] (rs_start :: unit rsys)"
  show "reach rs_init r_next ?s" by (rule reach_rs_start)
  show "map_of (rr_trackers (rs_restarter ?s)) ''web'' = None" by (simp add: rs_eval)
  show "rs_log ?s = [ORestart 5000000000 ''web'' 0, OUnregistered ''web''] @
      [OAttempt 0 ''web'' 5000000000 0, ODecided 0 ''web'' 0, ORegistered ''web'' 0 sample_policy]"
    by (simp add: rs_eval)
qed

end
