(* ===== verification/RestarterLiveness.thy ===== *)
theory RestarterLiveness
  imports Restarter
begin

text \<open>
  The restart goroutines end: in every execution a goroutine changes its counter finitely often, and
  under a schedule that lets it run and time pass it comes to its end, whatever the other goroutines
  and the rest of the daemon do in between. An execution is an infinite schedule of labels.
\<close>

primrec rs_trace :: "(nat \<Rightarrow> r_label) \<Rightarrow> 'h rsys \<Rightarrow> nat \<Rightarrow> 'h rsys" where
  "rs_trace lab s 0 = s"
| "rs_trace lab s (Suc n) = rs_step (lab n) (rs_trace lab s n)"

definition fair_to :: "nat \<Rightarrow> (nat \<Rightarrow> r_label) \<Rightarrow> bool" where
  "fair_to i lab \<longleftrightarrow>
     (\<forall>n. \<exists>m \<ge> n. \<exists>ok. lab m = Run i ok) \<and> (\<forall>n. \<exists>m \<ge> n. \<exists>d > 0. lab m = Advance d)"

section \<open>A goroutine moves forward\<close>

fun job_phase :: "job \<Rightarrow> nat" where
  "job_phase (JSpawned u) = 5"
| "job_phase (JSleeping u p wake) = 4"
| "job_phase (JRestarting u p) = 3"
| "job_phase (JCascade u) = 2"
| "job_phase (JDependents u ds) = 1"
| "job_phase JDone = 0"

fun job_left :: "job \<Rightarrow> nat" where
  "job_left (JDependents u ds) = length ds"
| "job_left j = 0"

definition job_order :: "(job \<times> job) set" where
  "job_order = inv_image (less_than <*lex*> less_than) (\<lambda>j. (job_phase j, job_left j))"

lemma wf_job_order: "wf job_order"
  by (simp add: job_order_def wf_inv_image wf_lex_prod)

lemma run_job_moves:
  assumes "k < length (rs_jobs s)"
  shows "rs_jobs (run_job i ok s) ! k = rs_jobs s ! k
    \<or> i = k \<and> (rs_jobs (run_job i ok s) ! k, rs_jobs s ! k) \<in> job_order"
proof (cases "i < length (rs_jobs s)")
  case True
  show ?thesis
  proof (cases "rs_jobs s ! i")
    case (JDependents u ds)
    then show ?thesis using assms
      by (cases ds; cases "i = k") (simp_all add: run_job_def job_order_def)
  qed (use assms in \<open>cases "i = k"; auto simp: run_job_def job_order_def split: option.split prod.split\<close>)+
qed (simp add: run_job_def)

lemma jobs_length: "length (rs_jobs s) \<le> length (rs_jobs (rs_step l s))"
  by (cases l) (auto simp: handle_event_def run_job_def split: prod.split job.split option.split list.split)

lemma step_moves:
  assumes "k < length (rs_jobs s)"
  shows "rs_jobs (rs_step l s) ! k = rs_jobs s ! k \<or> (rs_jobs (rs_step l s) ! k, rs_jobs s ! k) \<in> job_order"
proof (cases l)
  case (Deliver ev)
  then show ?thesis using assms by (auto simp: handle_event_def nth_append split: prod.split)
next
  case (Run i ok)
  then show ?thesis using run_job_moves [OF assms] by auto
qed simp_all

text \<open>What lets each counter move: its own turn, and for a sleeping one its time.\<close>

definition awake :: "instant \<Rightarrow> job \<Rightarrow> bool" where
  "awake now j = (case j of JSleeping u p wake \<Rightarrow> wake \<le> now | _ \<Rightarrow> True)"

lemma own_turn_moves:
  assumes "k < length (rs_jobs s)" "rs_jobs s ! k \<noteq> JDone" "awake (rs_now s) (rs_jobs s ! k)"
  shows "rs_jobs (run_job k ok s) ! k \<noteq> rs_jobs s ! k"
proof (cases "rs_jobs s ! k")
  case (JDependents u ds)
  then show ?thesis using assms(1) by (cases ds) (simp_all add: run_job_def)
qed (use assms in \<open>auto simp: run_job_def awake_def split: option.split prod.split\<close>)

section \<open>Executions\<close>

lemma trace_length: "i < length (rs_jobs s) \<Longrightarrow> i < length (rs_jobs (rs_trace lab s n))"
  by (induction n) (auto intro: less_le_trans [OF _ jobs_length])

lemma step_now: "rs_now s \<le> rs_now (rs_step l s)"
  by (cases l) (auto simp: handle_event_def run_job_def split: prod.split job.split option.split list.split)

lemma trace_now: "n \<le> m \<Longrightarrow> rs_now (rs_trace lab s n) \<le> rs_now (rs_trace lab s m)"
  by (induction rule: dec_induct) (auto intro: order_trans [OF _ step_now])

lemma time_passes:
  assumes "\<forall>n. \<exists>m \<ge> n. \<exists>d > 0. lab m = Advance d"
  shows "\<exists>n. rs_now s + int k \<le> rs_now (rs_trace lab s n)"
proof (induction k)
  case 0
  show ?case by (intro exI [of _ 0]) simp
next
  case (Suc k)
  then obtain n where n: "rs_now s + int k \<le> rs_now (rs_trace lab s n)" by blast
  obtain m d where m: "n \<le> m" "0 < d" "lab m = Advance d" using assms by blast
  have "rs_now (rs_trace lab s n) \<le> rs_now (rs_trace lab s m)" by (rule trace_now [OF m(1)])
  then show ?case using n m(2,3) by (intro exI [of _ "Suc m"]) simp
qed

lemma time_reaches:
  assumes "\<forall>n. \<exists>m \<ge> n. \<exists>d > 0. lab m = Advance d"
  shows "\<exists>n. wake \<le> rs_now (rs_trace lab s n)"
proof -
  obtain n where "rs_now s + int (nat (wake - rs_now s)) \<le> rs_now (rs_trace lab s n)"
    using time_passes [OF assms] by blast
  then have "wake \<le> rs_now (rs_trace lab s n)" by (simp split: if_splits)
  then show ?thesis ..
qed

text \<open>A counter settles: a sequence that only repeats itself or descends stops descending.\<close>

lemma descending_settles:
  fixes f :: "nat \<Rightarrow> 'a"
  assumes "wf R" "\<And>n. f (Suc n) = f n \<or> (f (Suc n), f n) \<in> R"
  shows "\<exists>N. \<forall>n \<ge> N. f n = f N"
proof -
  obtain N where N: "\<And>y. (y, f N) \<in> R\<^sup>+ \<Longrightarrow> y \<notin> range f"
    using wfE_min [OF wf_trancl [OF assms(1)], of "f 0" "range f"] by blast
  have "f n = f N \<or> (f n, f N) \<in> R\<^sup>+" if "N \<le> n" for n
    using that
  proof (induction n rule: dec_induct)
    case base
    show ?case by simp
  next
    case (step n)
    then show ?case using assms(2) [of n] by (auto intro: trancl_into_trancl2)
  qed
  then show ?thesis using N by (intro exI [of _ N]) blast
qed

lemma counter_settles:
  assumes "i < length (rs_jobs s)"
  shows "\<exists>N. \<forall>n \<ge> N. rs_jobs (rs_trace lab s n) ! i = rs_jobs (rs_trace lab s N) ! i"
  by (rule descending_settles [OF wf_job_order])
    (use step_moves [OF trace_length [OF assms]] in simp)

text \<open>C16. Every restart goroutine comes to its end: in every execution that lets it run and time pass,
  whatever events, registrations, reloads and other goroutines are interleaved with it and whatever
  the manager answers, it gets through its backoff, its restart and its dependents, or gives up.\<close>

theorem restart_goroutine_ends:
  assumes "i < length (rs_jobs s)" "fair_to i lab"
  shows "\<exists>n. rs_jobs (rs_trace lab s n) ! i = JDone"
proof (rule ccontr)
  assume never: "\<nexists>n. rs_jobs (rs_trace lab s n) ! i = JDone"
  obtain N where N: "\<And>n. N \<le> n \<Longrightarrow> rs_jobs (rs_trace lab s n) ! i = rs_jobs (rs_trace lab s N) ! i"
    using counter_settles [OF assms(1)] by blast
  let ?j = "rs_jobs (rs_trace lab s N) ! i"
  obtain T where T: "\<And>n. T \<le> n \<Longrightarrow> awake (rs_now (rs_trace lab s n)) ?j"
  proof (cases ?j)
    case (JSleeping u p wake)
    obtain n where "wake \<le> rs_now (rs_trace lab s n)"
      using time_reaches assms(2) unfolding fair_to_def by blast
    then have "awake (rs_now (rs_trace lab s m)) ?j" if "n \<le> m" for m
      using trace_now [OF that, of lab s] JSleeping by (simp add: awake_def)
    then show ?thesis by (rule that)
  qed (simp_all add: awake_def that)
  obtain m ok where m: "max N T \<le> m" "lab m = Run i ok"
    using assms(2) unfolding fair_to_def by blast
  have "rs_jobs (run_job i ok (rs_trace lab s m)) ! i \<noteq> rs_jobs (rs_trace lab s m) ! i"
    by (rule own_turn_moves [OF trace_length [OF assms(1)]]) (use never T [of m] N [of m] m in auto)
  moreover have "rs_trace lab s (Suc m) = run_job i ok (rs_trace lab s m)" using m(2) by simp
  ultimately show False using N [of m] N [of "Suc m"] m(1) by simp
qed

text \<open>A schedule that lets time and the first goroutine go in turn.\<close>

definition in_turn :: "nat \<Rightarrow> r_label" where
  "in_turn n = (if even n then Advance 1 else Run 0 True)"

lemma in_turn_fair: "fair_to 0 in_turn"
proof -
  have "\<exists>m \<ge> n. odd m" "\<exists>m \<ge> n. even m" for n :: nat
    by (intro exI [of _ "2 * n + 1"]; simp) (intro exI [of _ "2 * n"]; simp)
  then show ?thesis by (fastforce simp: fair_to_def in_turn_def)
qed

theorem restart_goroutine_ends_witness:
  "\<exists>n. rs_jobs (rs_trace in_turn (rs_run
      [DoRegister ''db.service'' \<lparr>rp_enabled = True, rp_backoff = 5 * second, rp_cooldown = 60 * second\<rparr>,
       Deliver \<lparr>ev_type = EventStateChanged, ev_unit_name = ''db.service'', ev_active_state = ''failed'',
         ev_sub_state = ''failed'', ev_healthy = None, ev_timestamp = 0\<rparr>] (rs_start :: unit rsys)) n) ! 0 = JDone"
  by (rule restart_goroutine_ends [OF _ in_turn_fair])
    (simp add: rs_run_def rs_start_def handle_event_def should_restart_def rr_register_def restarter_new_def
      new_tracker_def time_before_def zero_time_def)

end
