(* ===== verification/HealthChecker.thy ===== *)
theory HealthChecker
  imports Config
begin

text \<open>
  \<^verbatim>\<open>internal/healthcheck/checker.go\<close>: the one-shot probes and the checker that turns
  probe results into health reports. The network, the HTTP client and the shell are the fields of
  \<open>net_env\<close>. The checker runs one goroutine per check; a goroutine's tick is two critical
  sections of the mutex (record the result, then perhaps report), so the model interleaves those
  of all goroutines. The log is a ghost, newest entry first.
\<close>

section \<open>Probes\<close>

record 'e http_response =
  hr_status :: int
  hr_body :: string
  hr_body_error :: "'e option"

record 'e net_env =
  ne_dial :: "duration \<Rightarrow> string \<Rightarrow> string \<Rightarrow> 'e + 'e option"
  ne_new_request :: "string \<Rightarrow> string \<Rightarrow> 'e option"
  ne_http :: "duration \<Rightarrow> string \<Rightarrow> string \<Rightarrow> string gomap \<Rightarrow> 'e + 'e http_response"
  ne_script :: "duration \<Rightarrow> string \<Rightarrow> string \<times> 'e option"

datatype 'e probe_error =
  UnknownType string
| TcpDial string 'e
| UnixDial string 'e
| CloseError 'e
| CreatingRequest 'e
| HttpFailed string string 'e
| ExpectedStatus string int int
| ReturnedStatus string int
| ReadingBody string 'e
| BodyMismatch string string
| ScriptFailed string string 'e

text \<open>
  A probe passes, fails, or dereferences a nil sub-configuration (a panic).
\<close>

datatype 'e probe_result = Pass | Fail "'e probe_error" | NilDeref

definition close_result :: "'e option \<Rightarrow> 'e probe_result" where
  "close_result r = (case r of None \<Rightarrow> Pass | Some e \<Rightarrow> Fail (CloseError e))"

definition check_tcp :: "'e net_env \<Rightarrow> duration \<Rightarrow> tcp_health_check \<Rightarrow> 'e probe_result" where
  "check_tcp env timeout cfg =
     (case ne_dial env timeout ''tcp'' (tcp_address cfg) of
        Inl e \<Rightarrow> Fail (TcpDial (tcp_address cfg) e)
      | Inr closed \<Rightarrow> close_result closed)"

definition check_unix :: "'e net_env \<Rightarrow> duration \<Rightarrow> unix_health_check \<Rightarrow> 'e probe_result" where
  "check_unix env timeout cfg =
     (case ne_dial env timeout ''unix'' (unix_address cfg) of
        Inl e \<Rightarrow> Fail (UnixDial (unix_address cfg) e)
      | Inr closed \<Rightarrow> close_result closed)"

definition body_limit :: nat where
  "body_limit = 131072"

text \<open>\<^verbatim>\<open>io.ReadAll(io.LimitReader(body, limit))\<close>: an error past the limit is not seen.\<close>

definition read_limited :: "'e http_response \<Rightarrow> 'e + string" where
  "read_limited resp =
     (if body_limit \<le> length (hr_body resp) then Inr (take body_limit (hr_body resp))
      else case hr_body_error resp of Some e \<Rightarrow> Inl e | None \<Rightarrow> Inr (hr_body resp))"

definition check_http :: "'e net_env \<Rightarrow> duration \<Rightarrow> http_health_check \<Rightarrow> 'e probe_result" where
  "check_http env timeout cfg =
     (let m = (if http_method cfg = [] then ''GET'' else http_method cfg) in
      case ne_new_request env m (http_address cfg) of
        Some e \<Rightarrow> Fail (CreatingRequest e)
      | None \<Rightarrow>
     (case ne_http env timeout m (http_address cfg) (http_headers cfg) of
        Inl e \<Rightarrow> Fail (HttpFailed m (http_address cfg) e)
      | Inr resp \<Rightarrow>
          if http_expected_status cfg > 0 \<and> hr_status resp \<noteq> http_expected_status cfg
          then Fail (ExpectedStatus (http_address cfg) (http_expected_status cfg) (hr_status resp))
          else if \<not> http_expected_status cfg > 0 \<and> (hr_status resp < 200 \<or> hr_status resp \<ge> 300)
          then Fail (ReturnedStatus (http_address cfg) (hr_status resp))
          else if http_response_match cfg \<noteq> [] then
            (case read_limited resp of
               Inl e \<Rightarrow> Fail (ReadingBody (http_address cfg) e)
             | Inr body \<Rightarrow>
                 if str_contains body (http_response_match cfg) then Pass
                 else Fail (BodyMismatch (http_address cfg) (http_response_match cfg)))
          else Pass))"

definition check_script :: "'e net_env \<Rightarrow> duration \<Rightarrow> script_health_check \<Rightarrow> 'e probe_result" where
  "check_script env timeout cfg =
     (case ne_script env timeout (script_command cfg) of
        (out, None) \<Rightarrow> Pass
      | (out, Some e) \<Rightarrow> Fail (ScriptFailed (script_command cfg) out e))"

definition probe :: "'e net_env \<Rightarrow> health_check \<Rightarrow> 'e probe_result" where
  "probe env hc =
     (if hc_type hc = ''tcp'' then
        (case hc_tcp hc of None \<Rightarrow> NilDeref | Some c \<Rightarrow> check_tcp env (hc_timeout hc) c)
      else if hc_type hc = ''http'' then
        (case hc_http hc of None \<Rightarrow> NilDeref | Some c \<Rightarrow> check_http env (hc_timeout hc) c)
      else if hc_type hc = ''unix'' then
        (case hc_unix hc of None \<Rightarrow> NilDeref | Some c \<Rightarrow> check_unix env (hc_timeout hc) c)
      else if hc_type hc = ''script'' then
        (case hc_script hc of None \<Rightarrow> NilDeref | Some c \<Rightarrow> check_script env (hc_timeout hc) c)
      else Fail (UnknownType (hc_type hc)))"

section \<open>The checker\<close>

record 'e hc_result =
  res_unit_name :: string
  res_healthy :: bool
  res_errors :: "'e list"

record 'e checker =
  ck_unit_name :: string
  ck_checks :: "health_check list"
  ck_failures :: "int list"
  ck_last_errors :: "'e option list"
  ck_last_healthy :: "bool option"

definition checker_new :: "string \<Rightarrow> health_check list \<Rightarrow> 'e checker" where
  "checker_new unit checks =
     \<lparr>ck_unit_name = unit, ck_checks = checks, ck_failures = replicate (length checks) 0,
      ck_last_errors = replicate (length checks) None, ck_last_healthy = None\<rparr>"

text \<open>The two critical sections of a tick in \<^verbatim>\<open>runCheck\<close>; the first returns whether to report.\<close>

definition record_probe :: "nat \<Rightarrow> 'e option \<Rightarrow> 'e checker \<Rightarrow> bool \<times> 'e checker" where
  "record_probe idx err c =
     (case err of
        Some e \<Rightarrow>
          (let failures = wrap64 (ck_failures c ! idx + 1) in
           (failures \<ge> hc_retries (ck_checks c ! idx),
            c\<lparr>ck_failures := (ck_failures c)[idx := failures],
              ck_last_errors := (ck_last_errors c)[idx := Some e]\<rparr>))
      | None \<Rightarrow>
          (True, c\<lparr>ck_failures := (ck_failures c)[idx := 0],
                   ck_last_errors := (ck_last_errors c)[idx := None]\<rparr>))"

text \<open>The errors \<^verbatim>\<open>reportStatus\<close> collects; \<^verbatim>\<open>errors.Join\<close> drops the nil ones.\<close>

definition collected :: "'e checker \<Rightarrow> 'e option list" where
  "collected c = map (\<lambda>i. ck_last_errors c ! i)
     (filter (\<lambda>i. ck_failures c ! i \<ge> hc_retries (ck_checks c ! i)) [0..<length (ck_checks c)])"

definition join_errors :: "'e option list \<Rightarrow> 'e list" where
  "join_errors es = map the (filter (\<lambda>e. e \<noteq> None) es)"

definition report_status :: "'e checker \<Rightarrow> 'e hc_result option \<times> 'e checker" where
  "report_status c =
     (let errs = collected c; healthy = (length errs = 0) in
      if ck_last_healthy c = Some healthy then (None, c)
      else
        (Some (if healthy
               then \<lparr>res_unit_name = ck_unit_name c, res_healthy = True, res_errors = []\<rparr>
               else \<lparr>res_unit_name = ck_unit_name c, res_healthy = False, res_errors = join_errors errs\<rparr>),
         c\<lparr>ck_last_healthy := Some healthy\<rparr>))"

section \<open>Interleavings\<close>

datatype 'e hc_obs = OProbe nat "'e option" | OReport "'e hc_result"

text \<open>\<open>hs_reporting\<close> marks the goroutines between their two critical sections.\<close>

record 'e hc_sys =
  hs_checker :: "'e checker"
  hs_reporting :: "bool list"
  hs_log :: "'e hc_obs list"

datatype 'e hc_label = Tick nat "'e option" | Report nat

fun hs_step :: "'e hc_label \<Rightarrow> 'e hc_sys \<Rightarrow> 'e hc_sys" where
  "hs_step (Tick i err) s =
     (if i < length (ck_checks (hs_checker s)) \<and> \<not> hs_reporting s ! i then
        (case record_probe i err (hs_checker s) of (report, c) \<Rightarrow>
           s\<lparr>hs_checker := c, hs_reporting := (hs_reporting s)[i := report],
             hs_log := OProbe i err # hs_log s\<rparr>)
      else s)"
| "hs_step (Report i) s =
     (if i < length (ck_checks (hs_checker s)) \<and> hs_reporting s ! i then
        (case report_status (hs_checker s) of (r, c) \<Rightarrow>
           s\<lparr>hs_checker := c, hs_reporting := (hs_reporting s)[i := False],
             hs_log := (case r of None \<Rightarrow> hs_log s | Some res \<Rightarrow> OReport res # hs_log s)\<rparr>)
      else s)"

definition hs_run :: "'e hc_label list \<Rightarrow> 'e hc_sys \<Rightarrow> 'e hc_sys" where
  "hs_run = fold hs_step"

definition hs_start :: "string \<Rightarrow> health_check list \<Rightarrow> 'e hc_sys" where
  "hs_start unit checks =
     \<lparr>hs_checker = checker_new unit checks, hs_reporting = replicate (length checks) False, hs_log = []\<rparr>"

inductive h_next :: "'e hc_sys \<Rightarrow> 'e hc_sys \<Rightarrow> bool" where
  "h_next s (hs_step l s)"

inductive_cases h_next_cases: "h_next s t"

definition hs_init :: "string \<Rightarrow> health_check list \<Rightarrow> 'e hc_sys \<Rightarrow> bool" where
  "hs_init unit checks s \<longleftrightarrow> s = hs_start unit checks"

section \<open>The specification, over the log\<close>

text \<open>Consecutive failures and the last error of a check, from the probes alone.\<close>

fun consec :: "'e hc_obs list \<Rightarrow> nat \<Rightarrow> nat" where
  "consec [] i = 0"
| "consec (OProbe j e # l) i =
     (if j = i then (case e of None \<Rightarrow> 0 | Some _ \<Rightarrow> Suc (consec l i)) else consec l i)"
| "consec (OReport r # l) i = consec l i"

fun last_error :: "'e hc_obs list \<Rightarrow> nat \<Rightarrow> 'e option" where
  "last_error [] i = None"
| "last_error (OProbe j e # l) i = (if j = i then e else last_error l i)"
| "last_error (OReport r # l) i = last_error l i"

fun last_report :: "'e hc_obs list \<Rightarrow> bool option" where
  "last_report [] = None"
| "last_report (OProbe j e # l) = last_report l"
| "last_report (OReport r # l) = Some (res_healthy r)"

definition failing :: "health_check list \<Rightarrow> 'e hc_obs list \<Rightarrow> nat list" where
  "failing checks l =
     filter (\<lambda>i. hc_retries (checks ! i) \<le> int (consec l i)) [0..<length checks]"

text \<open>
  The promise: a report says healthy exactly when no check has failed its number of retries in a
  row, carries the last errors of those that have, and differs from the report before it.
\<close>

fun reports_ok :: "string \<Rightarrow> health_check list \<Rightarrow> 'e hc_obs list \<Rightarrow> bool" where
  "reports_ok unit checks [] \<longleftrightarrow> True"
| "reports_ok unit checks (OProbe j e # l) \<longleftrightarrow> reports_ok unit checks l"
| "reports_ok unit checks (OReport r # l) \<longleftrightarrow>
     reports_ok unit checks l
     \<and> res_unit_name r = unit
     \<and> res_healthy r = (failing checks l = [])
     \<and> res_errors r = join_errors (map (last_error l) (failing checks l))
     \<and> last_report l \<noteq> Some (res_healthy r)"

definition some_pass :: "'e hc_obs list \<Rightarrow> bool" where
  "some_pass l \<longleftrightarrow> (\<exists>ob \<in> set l. case ob of OProbe j None \<Rightarrow> True | _ \<Rightarrow> False)"

section \<open>The invariant\<close>

definition mirrors :: "string \<Rightarrow> health_check list \<Rightarrow> 'e hc_sys \<Rightarrow> bool" where
  "mirrors unit checks s \<longleftrightarrow>
     (let c = hs_checker s; l = hs_log s in
      ck_unit_name c = unit \<and> ck_checks c = checks
      \<and> length (ck_failures c) = length checks \<and> length (ck_last_errors c) = length checks
      \<and> length (hs_reporting s) = length checks
      \<and> (\<forall>i < length checks. ck_failures c ! i = wrap64 (int (consec l i)))
      \<and> (\<forall>i < length checks. ck_last_errors c ! i = last_error l i)
      \<and> ck_last_healthy c = last_report l)"

text \<open>When nobody is about to report, the last report is the current status.\<close>

definition settled :: "health_check list \<Rightarrow> 'e hc_obs list \<Rightarrow> bool" where
  "settled checks l \<longleftrightarrow>
     (case last_report l of
        Some b \<Rightarrow> b = (failing checks l = [])
      | None \<Rightarrow> \<not> some_pass l \<and> (\<forall>i \<in> set (failing checks l). consec l i = 0))"

definition h_inv :: "string \<Rightarrow> health_check list \<Rightarrow> 'e hc_sys \<Rightarrow> bool" where
  "h_inv unit checks s \<longleftrightarrow>
     mirrors unit checks s
     \<and> (int (length (hs_log s)) \<le> int64_max \<longrightarrow>
          reports_ok unit checks (hs_log s) \<and> (True \<in> set (hs_reporting s) \<or> settled checks (hs_log s)))"

lemma consec_le: "consec l i \<le> length l"
  by (induction l i rule: consec.induct) (auto split: option.split)

lemma consec_wrap: "int (length l) \<le> int64_max \<Longrightarrow> wrap64 (int (consec l i)) = int (consec l i)"
  using consec_le [of l i] by (intro wrap64_id) (simp_all add: int64_min_def)

lemma mirrors_collected:
  assumes "mirrors unit checks s" "int (length (hs_log s)) \<le> int64_max"
  shows "collected (hs_checker s) = map (last_error (hs_log s)) (failing checks (hs_log s))"
proof -
  let ?c = "hs_checker s"
  have "filter (\<lambda>i. ck_failures ?c ! i \<ge> hc_retries (checks ! i)) [0..<length checks] = failing checks (hs_log s)"
    unfolding failing_def
    by (rule filter_cong) (use assms(1) consec_wrap [OF assms(2)] in \<open>simp_all add: mirrors_def Let_def\<close>)
  moreover have "map (\<lambda>i. ck_last_errors ?c ! i) (failing checks (hs_log s)) =
      map (last_error (hs_log s)) (failing checks (hs_log s))"
    by (rule map_cong) (use assms(1) in \<open>simp_all add: mirrors_def failing_def Let_def\<close>)
  moreover have "ck_checks ?c = checks" using assms(1) by (simp add: mirrors_def Let_def)
  ultimately show ?thesis by (simp add: collected_def)
qed

lemma mirrors_start: "mirrors unit checks (hs_start unit checks)"
  by (simp add: mirrors_def hs_start_def checker_new_def wrap64_def)

lemma settled_start: "settled checks ([] :: 'e hc_obs list)"
  by (simp add: settled_def some_pass_def)

lemma h_inv_start: "h_inv unit checks (hs_start unit checks)"
  unfolding h_inv_def using mirrors_start [of unit checks]
  by (simp add: hs_start_def settled_start)

lemma wrap64_Suc_nat: "wrap64 (wrap64 (int n) + 1) = wrap64 (int (Suc n))"
  by (simp add: wrap64_def algebra_simps mod_simps)

lemma mirrors_tick:
  assumes m: "mirrors unit checks s" and i: "i < length checks"
  shows "mirrors unit checks (s\<lparr>hs_checker := snd (record_probe i err (hs_checker s)),
      hs_reporting := (hs_reporting s)[i := b], hs_log := OProbe i err # hs_log s\<rparr>)"
proof (cases err)
  case None
  then show ?thesis using m i
    by (auto simp: mirrors_def record_probe_def Let_def nth_list_update wrap64_def)
next
  case (Some e)
  then show ?thesis using m i
    by (auto simp: mirrors_def record_probe_def Let_def nth_list_update wrap64_Suc_nat)
qed

lemma record_probe_reports:
  assumes "mirrors unit checks s" "i < length checks" "int (Suc (length (hs_log s))) \<le> int64_max"
  shows "fst (record_probe i err (hs_checker s)) \<longleftrightarrow>
    err = None \<or> hc_retries (checks ! i) \<le> int (consec (OProbe i err # hs_log s) i)"
proof -
  have "consec (OProbe i err # hs_log s) i \<le> length (OProbe i err # hs_log s)" by (rule consec_le)
  then have "wrap64 (int (consec (OProbe i err # hs_log s) i)) = int (consec (OProbe i err # hs_log s) i)"
    using assms(3) by (intro wrap64_id) (simp_all add: int64_min_def)
  then show ?thesis
    using assms(1,2) by (cases err) (simp_all add: record_probe_def mirrors_def Let_def wrap64_Suc_nat)
qed

text \<open>A failure below the check's retries leaves the status as it was.\<close>

lemma failing_below:
  assumes "\<not> hc_retries (checks ! i) \<le> int (consec (OProbe i (Some e) # l) i)"
  shows "failing checks (OProbe i (Some e) # l) = failing checks l"
  using assms unfolding failing_def by (intro filter_cong) auto

lemma settled_below:
  assumes "settled checks l" "\<not> hc_retries (checks ! i) \<le> int (consec (OProbe i (Some e) # l) i)"
  shows "settled checks (OProbe i (Some e) # l)"
proof -
  have f: "failing checks (OProbe i (Some e) # l) = failing checks l" by (rule failing_below [OF assms(2)])
  have "i \<notin> set (failing checks l)" using assms(2) by (auto simp: failing_def)
  then have "\<forall>j \<in> set (failing checks l). consec (OProbe i (Some e) # l) j = consec l j" by auto
  then show ?thesis
    using assms(1) by (auto simp: settled_def f some_pass_def simp del: consec.simps split: option.split)
qed

lemma h_inv_tick:
  assumes inv: "h_inv unit checks s" and i: "i < length checks" and idle: "\<not> hs_reporting s ! i"
  shows "h_inv unit checks (hs_step (Tick i err) s)"
proof -
  have m: "mirrors unit checks s" using inv by (simp add: h_inv_def)
  obtain b c where r: "record_probe i err (hs_checker s) = (b, c)" by (metis surj_pair)
  let ?t = "s\<lparr>hs_checker := c, hs_reporting := (hs_reporting s)[i := b], hs_log := OProbe i err # hs_log s\<rparr>"
  have step: "hs_step (Tick i err) s = ?t"
    using m i idle r by (simp add: mirrors_def Let_def)
  have len: "length (hs_reporting s) = length checks" using m by (simp add: mirrors_def Let_def)
  have "mirrors unit checks ?t" using mirrors_tick [OF m i, of err b] r by simp
  moreover have "reports_ok unit checks (hs_log ?t)
      \<and> (True \<in> set (hs_reporting ?t) \<or> settled checks (hs_log ?t))"
    if small: "int (length (hs_log ?t)) \<le> int64_max"
  proof -
    have s: "int (Suc (length (hs_log s))) \<le> int64_max" using small by simp
    have old: "reports_ok unit checks (hs_log s)" "True \<in> set (hs_reporting s) \<or> settled checks (hs_log s)"
      using inv s by (simp_all add: h_inv_def)
    have b: "b \<longleftrightarrow> err = None \<or> hc_retries (checks ! i) \<le> int (consec (OProbe i err # hs_log s) i)"
      using record_probe_reports [OF m i s, of err] r by simp
    show ?thesis
    proof (cases b)
      case True
      then have "True \<in> set (hs_reporting ?t)" using i len by (simp add: set_update_memI)
      then show ?thesis using old(1) by simp
    next
      case False
      then obtain e where e: "err = Some e" using b by auto
      have "True \<in> set ((hs_reporting s)[i := False])" if "True \<in> set (hs_reporting s)"
      proof -
        obtain j where j: "j < length (hs_reporting s)" "hs_reporting s ! j"
          using \<open>True \<in> set (hs_reporting s)\<close> by (metis in_set_conv_nth)
        then have "j \<noteq> i" using idle by auto
        then have "(hs_reporting s)[i := False] ! j = True" using j by simp
        then show ?thesis using j(1) by (metis length_list_update nth_mem)
      qed
      moreover have "settled checks (hs_log s) \<Longrightarrow> settled checks (OProbe i err # hs_log s)"
        using settled_below [of checks "hs_log s" i e] b False e by blast
      ultimately show ?thesis using old False by auto
    qed
  qed
  ultimately show ?thesis unfolding step h_inv_def by blast
qed

lemma h_inv_report:
  assumes inv: "h_inv unit checks s" and i: "i < length checks" and busy: "hs_reporting s ! i"
  shows "h_inv unit checks (hs_step (Report i) s)"
proof -
  have m: "mirrors unit checks s" using inv by (simp add: h_inv_def)
  obtain r c where rc: "report_status (hs_checker s) = (r, c)" by (metis surj_pair)
  let ?l = "case r of None \<Rightarrow> hs_log s | Some res \<Rightarrow> OReport res # hs_log s"
  let ?t = "s\<lparr>hs_checker := c, hs_reporting := (hs_reporting s)[i := False], hs_log := ?l\<rparr>"
  have step: "hs_step (Report i) s = ?t"
    using m i busy rc by (simp add: mirrors_def Let_def)
  have "mirrors unit checks ?t"
    using m rc unfolding mirrors_def Let_def report_status_def by (auto split: if_splits)
  moreover have "reports_ok unit checks ?l \<and> settled checks ?l" if small: "int (length ?l) \<le> int64_max"
  proof -
    have s: "int (length (hs_log s)) \<le> int64_max" using small by (cases r) simp_all
    have old: "reports_ok unit checks (hs_log s)" using inv s by (simp add: h_inv_def)
    have lh: "ck_last_healthy (hs_checker s) = last_report (hs_log s)" "ck_unit_name (hs_checker s) = unit"
      using m by (simp_all add: mirrors_def Let_def)
    have fr: "failing checks (OReport res # l) = failing checks l" for res :: "'a hc_result" and l
      by (simp add: failing_def)
    show ?thesis
      using rc old lh
      by (auto simp: report_status_def mirrors_collected [OF m s] Let_def settled_def fr join_errors_def
          split: if_splits)
  qed
  ultimately show ?thesis unfolding step h_inv_def by simp
qed

lemma h_inv_step:
  assumes "h_inv unit checks s"
  shows "h_inv unit checks (hs_step l s)"
proof -
  have c: "ck_checks (hs_checker s) = checks" using assms by (simp add: h_inv_def mirrors_def Let_def)
  show ?thesis
  proof (cases l)
    case (Tick i err)
    show ?thesis
    proof (cases "i < length checks \<and> \<not> hs_reporting s ! i")
      case True
      then show ?thesis unfolding Tick by (intro h_inv_tick [OF assms]) simp_all
    next
      case False
      then have "hs_step (Tick i err) s = s" by (auto simp: c)
      then show ?thesis unfolding Tick by (simp only: assms)
    qed
  next
    case (Report i)
    show ?thesis
    proof (cases "i < length checks \<and> hs_reporting s ! i")
      case True
      then show ?thesis unfolding Report by (intro h_inv_report [OF assms]) simp_all
    next
      case False
      then have "hs_step (Report i) s = s" by (auto simp: c)
      then show ?thesis unfolding Report by (simp only: assms)
    qed
  qed
qed

interpretation hc_sys: transition_invariant "hs_init unit checks" h_next "h_inv unit checks"
  for unit :: string and checks :: "health_check list"
  by unfold_locales (auto simp: hs_init_def h_inv_start h_inv_step elim!: h_next_cases)

lemma reach_hs_run: "reach init h_next s \<Longrightarrow> reach init h_next (hs_run ls s)"
  unfolding hs_run_def by (induction ls arbitrary: s) (auto intro: reach_step h_next.intros)

section \<open>Properties\<close>

definition sample_check :: health_check where
  "sample_check = \<lparr>hc_type = ''tcp'', hc_interval = 10 * second, hc_timeout = 5 * second, hc_retries = 2,
     hc_tcp = Some \<lparr>tcp_address = ''db:5432''\<rparr>, hc_http = None, hc_unix = None, hc_script = None\<rparr>"

lemmas hs_eval =
  hs_run_def hs_start_def checker_new_def record_probe_def report_status_def collected_def
  join_errors_def sample_check_def wrap64_def Let_def

lemma reach_hs_start: "reach (hs_init unit checks) h_next (hs_run ls (hs_start unit checks))"
  by (intro reach_hs_run reach_init) (simp add: hs_init_def)

text \<open>C4. However the goroutines of the checks interleave, every report a checker sends is true when
  it is sent and news: it says healthy exactly when no check has failed its number of retries in
  a row, lists the last errors of the checks that have, and differs from the report before it.\<close>

theorem reports_are_true_changes:
  assumes "reach (hs_init unit checks) h_next s" "int (length (hs_log s)) \<le> int64_max"
  shows "reports_ok unit checks (hs_log s)"
  using hc_sys.inv_reach [OF assms(1)] assms(2) by (simp add: h_inv_def)

theorem reports_are_true_changes_witness:
  "reports_ok ''web'' [sample_check]
     (hs_log (hs_run [Tick 0 (Some ''refused''), Tick 0 (Some ''timeout''), Report 0, Tick 0 None, Report 0]
        (hs_start ''web'' [sample_check])))
   \<and> hs_log (hs_run [Tick 0 (Some ''refused''), Tick 0 (Some ''timeout''), Report 0, Tick 0 None, Report 0]
        (hs_start ''web'' [sample_check]))
     = [OReport \<lparr>res_unit_name = ''web'', res_healthy = True, res_errors = []\<rparr>, OProbe 0 None,
        OReport \<lparr>res_unit_name = ''web'', res_healthy = False, res_errors = [''timeout'']\<rparr>,
        OProbe 0 (Some ''timeout''), OProbe 0 (Some ''refused'')]"
proof -
  have log: "hs_log (hs_run [Tick 0 (Some ''refused''), Tick 0 (Some ''timeout''), Report 0, Tick 0 None, Report 0]
        (hs_start ''web'' [sample_check]))
     = [OReport \<lparr>res_unit_name = ''web'', res_healthy = True, res_errors = []\<rparr>, OProbe 0 None,
        OReport \<lparr>res_unit_name = ''web'', res_healthy = False, res_errors = [''timeout'']\<rparr>,
        OProbe 0 (Some ''timeout''), OProbe 0 (Some ''refused'')]"
    by (simp add: hs_eval)
  show ?thesis
    by (rule conjI, rule reports_are_true_changes [OF reach_hs_start]) (simp_all add: log int64_max_def)
qed

lemma settled_verdict:
  assumes "settled checks l" "\<forall>hc \<in> set checks. 1 \<le> hc_retries hc"
  shows "case last_report l of
      Some b \<Rightarrow> b = (failing checks l = [])
    | None \<Rightarrow> \<not> some_pass l \<and> failing checks l = []"
proof -
  have "failing checks l = []" if "\<forall>i \<in> set (failing checks l). consec l i = 0"
  proof -
    have "i \<notin> set (failing checks l)" for i
    proof
      assume i: "i \<in> set (failing checks l)"
      then have c: "consec l i = 0" using that by blast
      from i have "hc_retries (checks ! i) \<le> int (consec l i)" "checks ! i \<in> set checks"
        by (simp_all add: failing_def)
      then show False using assms(2) c by fastforce
    qed
    from this [of "hd (failing checks l)"] show ?thesis by (cases "failing checks l") simp_all
  qed
  then show ?thesis using assms(1) by (auto simp: settled_def split: option.splits)
qed

text \<open>C20. No change of status is lost: whenever no goroutine is between recording and reporting, the
  last report agrees with the status the probes give, and there is no report only while no probe
  has passed and no check has reached its retries.\<close>

theorem last_report_is_current:
  assumes "reach (hs_init unit checks) h_next s" "int (length (hs_log s)) \<le> int64_max"
    and "True \<notin> set (hs_reporting s)" "\<forall>hc \<in> set checks. 1 \<le> hc_retries hc"
  shows "case last_report (hs_log s) of
      Some b \<Rightarrow> b = (failing checks (hs_log s) = [])
    | None \<Rightarrow> \<not> some_pass (hs_log s) \<and> failing checks (hs_log s) = []"
  by (rule settled_verdict [OF _ assms(4)]) (use hc_sys.inv_reach [OF assms(1)] assms(2,3) in \<open>simp add: h_inv_def\<close>)

theorem last_report_is_current_witness:
  "case last_report (hs_log (hs_run [Tick 0 None, Report 0, Tick 0 (Some ''refused'')]
        (hs_start ''web'' [sample_check]))) of
      Some b \<Rightarrow> b = (failing [sample_check] (hs_log (hs_run [Tick 0 None, Report 0, Tick 0 (Some ''refused'')]
        (hs_start ''web'' [sample_check]))) = [])
    | None \<Rightarrow> \<not> some_pass (hs_log (hs_run [Tick 0 None, Report 0, Tick 0 (Some ''refused'')]
        (hs_start ''web'' [sample_check])))
      \<and> failing [sample_check] (hs_log (hs_run [Tick 0 None, Report 0, Tick 0 (Some ''refused'')]
        (hs_start ''web'' [sample_check]))) = []"
  by (rule last_report_is_current [OF reach_hs_start]) (simp_all add: hs_eval int64_max_def)

fun is_report :: "'e hc_obs \<Rightarrow> bool" where
  "is_report (OReport r) \<longleftrightarrow> True"
| "is_report (OProbe i e) \<longleftrightarrow> False"

lemma hs_step_log:
  "hs_log (hs_step l s) = hs_log s
   \<or> (\<exists>i err. l = Tick i err \<and> hs_log (hs_step l s) = OProbe i err # hs_log s)
   \<or> (\<exists>r. hs_log (hs_step l s) = OReport r # hs_log s)"
  by (cases l) (auto split: option.splits prod.splits)

lemma failing_check_no_report:
  assumes reach: "reach (hs_init unit checks) h_next s" and i: "i < length checks"
    and bad: "last_report (hs_log s) = Some False" "hc_retries (checks ! i) \<le> int (consec (hs_log s) i)"
    and small: "int (Suc (length (hs_log s))) \<le> int64_max" and l: "l \<noteq> Tick i None"
  shows "filter is_report (hs_log (hs_step l s)) = filter is_report (hs_log s)
    \<and> last_report (hs_log (hs_step l s)) = Some False
    \<and> hc_retries (checks ! i) \<le> int (consec (hs_log (hs_step l s)) i)
    \<and> length (hs_log (hs_step l s)) \<le> Suc (length (hs_log s))"
proof -
  have "reach (hs_init unit checks) h_next (hs_step l s)" by (rule reach_step [OF reach h_next.intros])
  then have inv: "h_inv unit checks (hs_step l s)" by (rule hc_sys.inv_reach)
  consider (same) "hs_log (hs_step l s) = hs_log s"
    | (probe) j err where "l = Tick j err" "hs_log (hs_step l s) = OProbe j err # hs_log s"
    | (report) r where "hs_log (hs_step l s) = OReport r # hs_log s"
    using hs_step_log [of l s] by blast
  then show ?thesis
  proof cases
    case same
    then show ?thesis using bad by simp
  next
    case probe
    then show ?thesis using bad l by (auto split: option.split)
  next
    case report
    have "int (length (hs_log (hs_step l s))) \<le> int64_max" using small report by simp
    then have "reports_ok unit checks (hs_log (hs_step l s))" using inv unfolding h_inv_def by blast
    then have "reports_ok unit checks (OReport r # hs_log s)" unfolding report .
    then have "res_healthy r = (failing checks (hs_log s) = [])" "res_healthy r" using bad(1) by auto
    moreover have "i \<in> set (failing checks (hs_log s))" using i bad(2) by (simp add: failing_def)
    ultimately show ?thesis by auto
  qed
qed

text \<open>C37. An outage is reported once: after an unhealthy report, as long as one check keeps failing
  (it has no passing probe), nothing more is reported, whatever the other checks do. Whoever acts
  on the reports acts once per outage, so a restart that does not cure it is not tried again.\<close>

theorem outage_reported_once:
  assumes "reach (hs_init unit checks) h_next s" "i < length checks"
    and "last_report (hs_log s) = Some False" "hc_retries (checks ! i) \<le> int (consec (hs_log s) i)"
    and "int (length (hs_log s) + length ls) \<le> int64_max" "Tick i None \<notin> set ls"
  shows "filter is_report (hs_log (hs_run ls s)) = filter is_report (hs_log s)"
  using assms
proof (induction ls arbitrary: s)
  case Nil
  then show ?case by (simp add: hs_run_def)
next
  case (Cons l ls)
  have n: "filter is_report (hs_log (hs_step l s)) = filter is_report (hs_log s)"
    "last_report (hs_log (hs_step l s)) = Some False"
    "hc_retries (checks ! i) \<le> int (consec (hs_log (hs_step l s)) i)"
    "length (hs_log (hs_step l s)) \<le> Suc (length (hs_log s))"
    using failing_check_no_report [OF Cons.prems(1-4), of l] Cons.prems(5,6) by auto
  have "filter is_report (hs_log (hs_run ls (hs_step l s))) = filter is_report (hs_log (hs_step l s))"
    by (rule Cons.IH [OF reach_step [OF Cons.prems(1) h_next.intros] Cons.prems(2) n(2,3)])
      (use n(4) Cons.prems(5,6) in auto)
  then show ?case using n(1) by (simp add: hs_run_def)
qed

theorem outage_reported_once_witness:
  "length (filter is_report (hs_log (hs_run [Tick 0 (Some ''e''), Report 0, Tick 0 (Some ''e''), Report 0]
      (hs_run [Tick 0 (Some ''e''), Tick 0 (Some ''e''), Report 0] (hs_start ''web'' [sample_check]))))) = 1"
proof -
  let ?s = "hs_run [Tick 0 (Some ''e''), Tick 0 (Some ''e''), Report 0] (hs_start ''web'' [sample_check])"
  have log: "hs_log ?s = [OReport \<lparr>res_unit_name = ''web'', res_healthy = False, res_errors = [''e'']\<rparr>,
      OProbe 0 (Some ''e''), OProbe 0 (Some ''e'')]"
    by (simp add: hs_eval)
  have "filter is_report (hs_log (hs_run [Tick 0 (Some ''e''), Report 0, Tick 0 (Some ''e''), Report 0] ?s)) =
      filter is_report (hs_log ?s)"
    by (rule outage_reported_once [OF reach_hs_start, of 0])
      (simp_all add: log, simp_all add: sample_check_def int64_max_def)
  then show ?thesis by (simp add: log)
qed

text \<open>An HTTP probe passes exactly when the request can be made and answered, the status is the
  expected one (any 2xx when none is set), and the expected text, if any, occurs in the first
  128 KiB of the body, read without an error before that limit.\<close>

theorem http_probe_passes_iff:
  "check_http env timeout cfg = Pass \<longleftrightarrow>
     (let m = (if http_method cfg = [] then ''GET'' else http_method cfg) in
      ne_new_request env m (http_address cfg) = None
      \<and> (\<exists>resp. ne_http env timeout m (http_address cfg) (http_headers cfg) = Inr resp
          \<and> (if http_expected_status cfg > 0 then hr_status resp = http_expected_status cfg
             else hr_status resp \<in> {200..299})
          \<and> (http_response_match cfg = []
             \<or> str_contains (take body_limit (hr_body resp)) (http_response_match cfg)
               \<and> (body_limit \<le> length (hr_body resp) \<or> hr_body_error resp = None))))"
proof -
  have read: "(\<exists>b. read_limited resp = Inr b \<and> P b) \<longleftrightarrow>
      P (take body_limit (hr_body resp)) \<and> (body_limit \<le> length (hr_body resp) \<or> hr_body_error resp = None)"
    for resp :: "'a http_response" and P
    by (auto simp: read_limited_def split: option.splits)
  have passes: "(case read_limited resp of Inl e \<Rightarrow> Fail (ReadingBody a e)
      | Inr body \<Rightarrow> if str_contains body x then Pass else Fail (BodyMismatch a x)) = Pass \<longleftrightarrow>
      (\<exists>b. read_limited resp = Inr b \<and> str_contains b x)" for resp :: "'a http_response" and a x
    by (cases "read_limited resp") auto
  define m where "m = (if http_method cfg = [] then ''GET'' else http_method cfg)"
  show ?thesis
  proof (cases "ne_new_request env m (http_address cfg)")
    case (Some e)
    then show ?thesis by (simp add: check_http_def m_def [symmetric])
  next
    case req: None
    show ?thesis
    proof (cases "ne_http env timeout m (http_address cfg) (http_headers cfg)")
      case (Inl e)
      then show ?thesis using req by (simp add: check_http_def m_def [symmetric])
    next
      case (Inr resp)
      then show ?thesis using req passes read
        by (auto simp: check_http_def m_def [symmetric] not_less not_le)
    qed
  qed
qed

lemma checks_total [simp]:
  "check_tcp env t c \<noteq> NilDeref" "check_unix env t d \<noteq> NilDeref"
  "check_http env t h \<noteq> NilDeref" "check_script env t sc \<noteq> NilDeref"
proof -
  have close: "close_result r \<noteq> NilDeref" for r by (cases r) (simp_all add: close_result_def)
  show "check_tcp env t c \<noteq> NilDeref"
    by (cases "ne_dial env t ''tcp'' (tcp_address c)") (simp_all add: check_tcp_def close)
  show "check_unix env t d \<noteq> NilDeref"
    by (cases "ne_dial env t ''unix'' (unix_address d)") (simp_all add: check_unix_def close)
  show "check_http env t h \<noteq> NilDeref"
    unfolding check_http_def Let_def by (auto split: option.split sum.split)
  show "check_script env t sc \<noteq> NilDeref"
    unfolding check_script_def by (auto split: option.split prod.split)
qed

lemma probe_total:
  assumes "hc_type hc = ''tcp'' \<Longrightarrow> hc_tcp hc \<noteq> None" "hc_type hc = ''http'' \<Longrightarrow> hc_http hc \<noteq> None"
    "hc_type hc = ''unix'' \<Longrightarrow> hc_unix hc \<noteq> None" "hc_type hc = ''script'' \<Longrightarrow> hc_script hc \<noteq> None"
  shows "probe env hc \<noteq> NilDeref"
proof -
  consider "hc_type hc = ''tcp''" | "hc_type hc = ''http''" | "hc_type hc = ''unix''" | "hc_type hc = ''script''"
    | "hc_type hc \<notin> {''tcp'', ''http'', ''unix'', ''script''}" by blast
  then show ?thesis
  proof cases
    case 1 with assms(1) show ?thesis by (auto simp: probe_def)
  next
    case 2 with assms(2) show ?thesis by (auto simp: probe_def)
  next
    case 3 with assms(3) show ?thesis by (auto simp: probe_def)
  next
    case 4 with assms(4) show ?thesis by (auto simp: probe_def)
  next
    case 5 then show ?thesis by (simp add: probe_def)
  qed
qed

lemma resolve_keeps_blocks:
  "hc_tcp (resolve_health_check inst hc) = None \<longleftrightarrow> hc_tcp hc = None"
  "hc_http (resolve_health_check inst hc) = None \<longleftrightarrow> hc_http hc = None"
  "hc_unix (resolve_health_check inst hc) = None \<longleftrightarrow> hc_unix hc = None"
  "hc_script (resolve_health_check inst hc) = None \<longleftrightarrow> hc_script hc = None"
  by (cases "hc_tcp hc"; cases "hc_http hc"; cases "hc_unix hc"; cases "hc_script hc";
      simp add: resolve_health_check_def)+

end
