(* ===== verification/Json.thy ===== *)
theory Json
  imports Prelude "HOL-Library.Char_ord" "HOL-Library.List_Lexorder"
begin

text \<open>
  JSON values as \<^verbatim>\<open>encoding/json\<close> builds and reads them: what the webhooks, the health endpoint and
  the control socket carry. The text of a value is the library's business. An object keeps its
  fields in the order they are written: the struct's order, or, for a Go map, its keys sorted.
  Strings are ordered by their bytes, as \<^verbatim>\<open>sort.Strings\<close> does.
\<close>

datatype json =
  JNull
| JBool bool
| JNum int
| JStr string
| JArr "json list"
| JObj "(string \<times> json) list"

section \<open>Fields\<close>

text \<open>A string field, and the fields that \<^verbatim>\<open>omitempty\<close> leaves out when they hold the zero value.\<close>

definition str_field :: "string \<Rightarrow> string \<Rightarrow> (string \<times> json) list" where
  "str_field k s = [(k, JStr s)]"

definition omit_empty_str :: "string \<Rightarrow> string \<Rightarrow> (string \<times> json) list" where
  "omit_empty_str k s = (if s = [] then [] else str_field k s)"

definition omit_empty_bool :: "string \<Rightarrow> bool option \<Rightarrow> (string \<times> json) list" where
  "omit_empty_bool k b = (case b of None \<Rightarrow> [] | Some v \<Rightarrow> [(k, JBool v)])"

definition json_of_map :: "string gomap \<Rightarrow> json" where
  "json_of_map m = JObj (map (\<lambda>(k, v). (k, JStr v)) (sort_key fst m))"

definition omit_empty_map :: "string \<Rightarrow> string gomap \<Rightarrow> (string \<times> json) list" where
  "omit_empty_map k m = (if m = [] then [] else [(k, json_of_map m)])"

text \<open>Reading a field back: the value, and the Go value a missing or null field leaves.\<close>

fun json_field :: "json \<Rightarrow> string \<Rightarrow> json option" where
  "json_field (JObj fs) k = map_of fs k"
| "json_field _ k = None"

definition read_str :: "json \<Rightarrow> string \<Rightarrow> string option" where
  "read_str j k =
     (case json_field j k of
        None \<Rightarrow> Some [] | Some JNull \<Rightarrow> Some [] | Some (JStr s) \<Rightarrow> Some s | _ \<Rightarrow> None)"

definition read_bool_ptr :: "json \<Rightarrow> string \<Rightarrow> bool option option" where
  "read_bool_ptr j k =
     (case json_field j k of
        None \<Rightarrow> Some None | Some JNull \<Rightarrow> Some None | Some (JBool b) \<Rightarrow> Some (Some b) | _ \<Rightarrow> None)"

definition read_int :: "json \<Rightarrow> string \<Rightarrow> int option" where
  "read_int j k =
     (case json_field j k of
        None \<Rightarrow> Some 0 | Some JNull \<Rightarrow> Some 0 | Some (JNum n) \<Rightarrow> Some n | _ \<Rightarrow> None)"

definition read_bool :: "json \<Rightarrow> string \<Rightarrow> bool option" where
  "read_bool j k = map_option (\<lambda>b. b = Some True) (read_bool_ptr j k)"

section \<open>Instants in RFC 3339\<close>

text \<open>
  \<^verbatim>\<open>Time.UTC().Format(time.RFC3339)\<close>, for years 0 to 9999: the date of a day number, counted from the
  Unix epoch, in the proleptic Gregorian calendar, with eras of 400 years beginning in March.
\<close>

definition civil_from_days :: "int \<Rightarrow> int \<times> int \<times> int" where
  "civil_from_days days =
     (let z = days + 719468;
          era = z div 146097;
          doe = z mod 146097;
          yoe = (doe - doe div 1460 + doe div 36524 - doe div 146096) div 365;
          doy = doe - (365 * yoe + yoe div 4 - yoe div 100);
          mp = (5 * doy + 2) div 153;
          d = doy - (153 * mp + 2) div 5 + 1;
          m = (if mp < 10 then mp + 3 else mp - 9)
      in (yoe + era * 400 + (if m \<le> 2 then 1 else 0), m, d))"

definition pad :: "nat \<Rightarrow> int \<Rightarrow> string" where
  "pad w n = (let s = show_nat (nat n) in replicate (w - length s) CHR ''0'' @ s)"

definition format_rfc3339 :: "instant \<Rightarrow> string" where
  "format_rfc3339 t =
     (let secs = t div second; sod = secs mod 86400 in
      case civil_from_days (secs div 86400) of
        (y, m, d) \<Rightarrow>
          pad 4 y @ ''-'' @ pad 2 m @ ''-'' @ pad 2 d @ ''T'' @
          pad 2 (sod div 3600) @ '':'' @ pad 2 (sod div 60 mod 60) @ '':'' @ pad 2 (sod mod 60) @ ''Z'')"

text \<open>The layout \<^verbatim>\<open>2006-01-02 15:04:05\<close>, of an instant in UTC.\<close>

definition format_datetime :: "instant \<Rightarrow> string" where
  "format_datetime t =
     (let secs = t div second; sod = secs mod 86400 in
      case civil_from_days (secs div 86400) of
        (y, m, d) \<Rightarrow>
          pad 4 y @ ''-'' @ pad 2 m @ ''-'' @ pad 2 d @ '' '' @
          pad 2 (sod div 3600) @ '':'' @ pad 2 (sod div 60 mod 60) @ '':'' @ pad 2 (sod mod 60))"

lemma format_epoch: "format_rfc3339 0 = ''1970-01-01T00:00:00Z''"
  by code_simp

lemma format_leap_day: "format_rfc3339 (1709210096 * second) = ''2024-02-29T12:34:56Z''"
  by code_simp

lemma format_zero_time: "format_rfc3339 zero_time = ''0001-01-01T00:00:00Z''"
  by code_simp

end
