(* ===== verification/Notify.thy ===== *)
theory Notify
  imports Config StateManager Json
begin

text \<open>
  \<^verbatim>\<open>internal/notify/notify.go\<close>: for each event, the webhooks, scripts and commands that are started,
  with the timeout, the body or the environment each one gets. Every delivery is a goroutine of its
  own; what the network and the processes answer is only logged, so the deliveries are the
  behaviour. The process environment the daemon runs with is a parameter.
\<close>

section \<open>Payload\<close>

record event_payload =
  pl_event_type :: string
  pl_unit_name :: string
  pl_active_state :: string
  pl_sub_state :: string
  pl_healthy :: "bool option"
  pl_timestamp :: string
  pl_variables :: "string gomap"

definition json_of_payload :: "event_payload \<Rightarrow> json" where
  "json_of_payload p =
     JObj (str_field ''event_type'' (pl_event_type p) @ str_field ''unit_name'' (pl_unit_name p) @
       omit_empty_str ''active_state'' (pl_active_state p) @ omit_empty_str ''sub_state'' (pl_sub_state p) @
       omit_empty_bool ''healthy'' (pl_healthy p) @ str_field ''timestamp'' (pl_timestamp p) @
       omit_empty_map ''variables'' (pl_variables p))"

section \<open>Notifier\<close>

record notifier =
  nt_variables :: "string gomap"
  nt_webhooks :: "webhook_config list"
  nt_scripts :: "script_config list"
  nt_execs :: "exec_config list"

definition notifier_new :: "notify_config \<Rightarrow> notifier" where
  "notifier_new cfg =
     \<lparr>nt_variables = nc_variables cfg, nt_webhooks = nc_webhooks cfg, nt_scripts = nc_scripts cfg,
      nt_execs = nc_execs cfg\<rparr>"

definition update_config :: "notify_config \<Rightarrow> notifier \<Rightarrow> notifier" where
  "update_config cfg n =
     n\<lparr>nt_variables := nc_variables cfg, nt_webhooks := nc_webhooks cfg, nt_scripts := nc_scripts cfg,
       nt_execs := nc_execs cfg\<rparr>"

definition payload_of :: "string gomap \<Rightarrow> event \<Rightarrow> event_payload" where
  "payload_of variables ev =
     (let p = \<lparr>pl_event_type = [], pl_unit_name = ev_unit_name ev, pl_active_state = [], pl_sub_state = [],
               pl_healthy = None, pl_timestamp = format_rfc3339 (ev_timestamp ev), pl_variables = variables\<rparr> in
      case ev_type ev of
        EventStateChanged \<Rightarrow>
          p\<lparr>pl_event_type := ''state_changed'', pl_active_state := ev_active_state ev,
            pl_sub_state := ev_sub_state ev\<rparr>
      | EventHealthChanged \<Rightarrow> p\<lparr>pl_event_type := ''health_changed'', pl_healthy := ev_healthy ev\<rparr>)"

definition matches_filter :: "string list \<Rightarrow> string \<Rightarrow> bool" where
  "matches_filter flt event_type \<longleftrightarrow> (if flt = [] then True else event_type \<in> set flt)"

section \<open>Deliveries\<close>

datatype delivery =
  Webhook string duration json
| ScriptRun string duration "string list"
| ExecRun string duration "string list"

definition with_default :: "duration \<Rightarrow> duration \<Rightarrow> duration" where
  "with_default timeout dflt = (if timeout = 0 then dflt else timeout)"

text \<open>\<^verbatim>\<open>strings.ToUpper\<close> of ASCII text.\<close>

definition upper_char :: "char \<Rightarrow> char" where
  "upper_char c = (let n = of_char c :: nat in if 97 \<le> n \<and> n \<le> 122 then char_of (n - 32) else c)"

definition to_upper :: "string \<Rightarrow> string" where
  "to_upper s = map upper_char s"

definition append_variables_env :: "string list \<Rightarrow> string gomap \<Rightarrow> string list" where
  "append_variables_env env vars =
     env @ map (\<lambda>(key, val). ''SUPERVISORD_VAR_'' @ to_upper key @ ''='' @ val) vars"

definition show_bool :: "bool \<Rightarrow> string" where
  "show_bool b = (if b then ''true'' else ''false'')"

definition process_env :: "string list \<Rightarrow> event_payload \<Rightarrow> string list" where
  "process_env base p =
     append_variables_env
       (base @
        [''SUPERVISORD_EVENT_TYPE='' @ pl_event_type p,
         ''SUPERVISORD_UNIT_NAME='' @ pl_unit_name p,
         ''SUPERVISORD_ACTIVE_STATE='' @ pl_active_state p,
         ''SUPERVISORD_SUB_STATE='' @ pl_sub_state p,
         ''SUPERVISORD_TIMESTAMP='' @ pl_timestamp p] @
        (case pl_healthy p of None \<Rightarrow> [] | Some h \<Rightarrow> [''SUPERVISORD_HEALTHY='' @ show_bool h]))
       (pl_variables p)"

definition send_webhook :: "webhook_config \<Rightarrow> event_payload \<Rightarrow> delivery" where
  "send_webhook wh p = Webhook (wh_url wh) (with_default (wh_timeout wh) (10 * second)) (json_of_payload p)"

definition run_script :: "string list \<Rightarrow> script_config \<Rightarrow> event_payload \<Rightarrow> delivery" where
  "run_script base sc p = ScriptRun (sc_path sc) (with_default (sc_timeout sc) (30 * second)) (process_env base p)"

definition run_exec :: "string list \<Rightarrow> exec_config \<Rightarrow> event_payload \<Rightarrow> delivery" where
  "run_exec base ec p = ExecRun (ec_command ec) (with_default (ec_timeout ec) (30 * second)) (process_env base p)"

definition notify_event :: "string list \<Rightarrow> notifier \<Rightarrow> event \<Rightarrow> delivery list" where
  "notify_event base n ev =
     (let p = payload_of (nt_variables n) ev in
      map (\<lambda>wh. send_webhook wh p) (filter (\<lambda>wh. matches_filter (wh_events wh) (pl_event_type p)) (nt_webhooks n)) @
      map (\<lambda>sc. run_script base sc p) (filter (\<lambda>sc. matches_filter (sc_events sc) (pl_event_type p)) (nt_scripts n)) @
      map (\<lambda>ec. run_exec base ec p) (filter (\<lambda>ec. matches_filter (ec_events ec) (pl_event_type p)) (nt_execs n)))"

section \<open>What a process reads\<close>

text \<open>
  A process looks a variable up in its environment; of several entries of one name
  \<^verbatim>\<open>os/exec\<close> passes on the last.
\<close>

definition env_entry :: "string \<Rightarrow> string \<Rightarrow> string option" where
  "env_entry key e = (if has_prefix e (key @ ''='') then Some (drop (Suc (length key)) e) else None)"

definition env_lookup :: "string list \<Rightarrow> string \<Rightarrow> string option" where
  "env_lookup env key =
     fold (\<lambda>e r. case env_entry key e of None \<Rightarrow> r | Some v \<Rightarrow> Some v) env None"

lemma env_lookup_Nil [simp]: "env_lookup [] key = None"
  by (simp add: env_lookup_def)

lemma env_lookup_append:
  "env_lookup (xs @ ys) key = (case env_lookup ys key of None \<Rightarrow> env_lookup xs key | Some v \<Rightarrow> Some v)"
proof (induction ys rule: rev_induct)
  case Nil
  then show ?case by (simp split: option.split)
next
  case (snoc y ys)
  have snoc_eq: "env_lookup (zs @ [y]) key = (case env_entry key y of None \<Rightarrow> env_lookup zs key | Some v \<Rightarrow> Some v)" for zs
    by (simp add: env_lookup_def split: option.split)
  have "env_lookup (xs @ ys @ [y]) key = env_lookup ((xs @ ys) @ [y]) key" by simp
  then show ?case using snoc by (simp only: snoc_eq) (simp split: option.split)
qed

lemma env_lookup_skip: "(\<And>e. e \<in> set env \<Longrightarrow> env_entry key e = None) \<Longrightarrow> env_lookup env key = None"
  by (induction env rule: rev_induct) (simp_all add: env_lookup_def)

definition own_names :: "string list" where
  "own_names = [''SUPERVISORD_EVENT_TYPE'', ''SUPERVISORD_UNIT_NAME'', ''SUPERVISORD_ACTIVE_STATE'',
     ''SUPERVISORD_SUB_STATE'', ''SUPERVISORD_TIMESTAMP'', ''SUPERVISORD_HEALTHY'']"

text \<open>No variable of the configuration shadows a name of the daemon's own.\<close>

lemma variables_do_not_shadow:
  assumes "key \<in> set own_names"
  shows "env_lookup (append_variables_env env vars) key = env_lookup env key"
proof -
  have "env_entry key (''SUPERVISORD_VAR_'' @ r) = None" for r
    using assms by (auto simp: own_names_def env_entry_def has_prefix_def)
  then have "env_lookup (map (\<lambda>(key, val). ''SUPERVISORD_VAR_'' @ to_upper key @ ''='' @ val) vars) key = None"
    by (intro env_lookup_skip) auto
  then show ?thesis by (simp add: append_variables_env_def env_lookup_append)
qed

lemma process_env_lookup:
  "env_lookup (process_env base p) ''SUPERVISORD_EVENT_TYPE'' = Some (pl_event_type p)"
  "env_lookup (process_env base p) ''SUPERVISORD_UNIT_NAME'' = Some (pl_unit_name p)"
  "env_lookup (process_env base p) ''SUPERVISORD_ACTIVE_STATE'' = Some (pl_active_state p)"
  "env_lookup (process_env base p) ''SUPERVISORD_SUB_STATE'' = Some (pl_sub_state p)"
  "env_lookup (process_env base p) ''SUPERVISORD_TIMESTAMP'' = Some (pl_timestamp p)"
  "pl_healthy p = Some h \<Longrightarrow> env_lookup (process_env base p) ''SUPERVISORD_HEALTHY'' = Some (show_bool h)"
proof -
  note look = process_env_def variables_do_not_shadow own_names_def env_lookup_append
  have one: "env_lookup (e # es) key =
      (case env_lookup es key of None \<Rightarrow> env_entry key e | Some v \<Rightarrow> Some v)" for e es key
    using env_lookup_append [of "[e]" es key] by (simp add: env_lookup_def split: option.splits)
  note eval = one env_entry_def has_prefix_def
  show "env_lookup (process_env base p) ''SUPERVISORD_EVENT_TYPE'' = Some (pl_event_type p)"
    by (cases "pl_healthy p") (simp_all add: look, simp_all add: eval)
  show "env_lookup (process_env base p) ''SUPERVISORD_UNIT_NAME'' = Some (pl_unit_name p)"
    by (cases "pl_healthy p") (simp_all add: look, simp_all add: eval)
  show "env_lookup (process_env base p) ''SUPERVISORD_ACTIVE_STATE'' = Some (pl_active_state p)"
    by (cases "pl_healthy p") (simp_all add: look, simp_all add: eval)
  show "env_lookup (process_env base p) ''SUPERVISORD_SUB_STATE'' = Some (pl_sub_state p)"
    by (cases "pl_healthy p") (simp_all add: look, simp_all add: eval)
  show "env_lookup (process_env base p) ''SUPERVISORD_TIMESTAMP'' = Some (pl_timestamp p)"
    by (cases "pl_healthy p") (simp_all add: look, simp_all add: eval)
  show "env_lookup (process_env base p) ''SUPERVISORD_HEALTHY'' = Some (show_bool h)" if "pl_healthy p = Some h"
    using that by (simp add: look, simp add: eval)
qed

text \<open>The environment a delivery hands to a process.\<close>

fun delivery_env :: "delivery \<Rightarrow> string list option" where
  "delivery_env (Webhook url t body) = None"
| "delivery_env (ScriptRun path t env) = Some env"
| "delivery_env (ExecRun cmd t env) = Some env"

lemma notify_event_env:
  "d \<in> set (notify_event base n ev) \<Longrightarrow> delivery_env d = Some env \<Longrightarrow>
     env = process_env base (payload_of (nt_variables n) ev)"
  by (auto simp: notify_event_def Let_def send_webhook_def run_script_def run_exec_def)

definition state_text :: "event \<Rightarrow> string \<Rightarrow> string" where
  "state_text ev s = (case ev_type ev of EventStateChanged \<Rightarrow> s | EventHealthChanged \<Rightarrow> [])"

text \<open>C33. Every script and command run for an event reads that event in its environment: the unit, the
  kind of event, the time, the states of a state change (empty otherwise) and the health of a
  health change, whatever the daemon's own environment and the configured variables hold.\<close>

theorem processes_read_the_event:
  assumes "d \<in> set (notify_event base n ev)" and "delivery_env d = Some env"
  shows "env_lookup env ''SUPERVISORD_UNIT_NAME'' = Some (ev_unit_name ev)
    \<and> env_lookup env ''SUPERVISORD_EVENT_TYPE'' =
        Some (case ev_type ev of EventStateChanged \<Rightarrow> ''state_changed'' | EventHealthChanged \<Rightarrow> ''health_changed'')
    \<and> env_lookup env ''SUPERVISORD_ACTIVE_STATE'' = Some (state_text ev (ev_active_state ev))
    \<and> env_lookup env ''SUPERVISORD_SUB_STATE'' = Some (state_text ev (ev_sub_state ev))
    \<and> env_lookup env ''SUPERVISORD_TIMESTAMP'' = Some (format_rfc3339 (ev_timestamp ev))
    \<and> (case (ev_type ev, ev_healthy ev) of
          (EventHealthChanged, Some h) \<Rightarrow> env_lookup env ''SUPERVISORD_HEALTHY'' = Some (show_bool h)
        | _ \<Rightarrow> True)"
  unfolding notify_event_env [OF assms] process_env_lookup(1-5)
  by (cases "ev_type ev")
    (simp_all add: payload_of_def state_text_def process_env_lookup(6) split: option.split)

definition sample_event :: event where
  "sample_event =
     \<lparr>ev_type = EventHealthChanged, ev_unit_name = ''web.service'', ev_active_state = [], ev_sub_state = [],
      ev_healthy = Some False, ev_timestamp = 0\<rparr>"

definition sample_notifier :: notifier where
  "sample_notifier =
     \<lparr>nt_variables = [(''unit_name'', ''shadow'')],
      nt_webhooks = [\<lparr>wh_url = ''http://hook'', wh_timeout = 0, wh_events = [''state_changed'']\<rparr>],
      nt_scripts = [\<lparr>sc_path = ''/bin/a'', sc_timeout = second, sc_events = []\<rparr>],
      nt_execs = [\<lparr>ec_command = ''b'', ec_timeout = 0, ec_events = [''health_changed'']\<rparr>]\<rparr>"

theorem processes_read_the_event_witness:
  "(\<exists>env. delivery_env (hd (notify_event [''SUPERVISORD_UNIT_NAME=x''] sample_notifier sample_event)) = Some env
     \<and> env_lookup env ''SUPERVISORD_UNIT_NAME'' = Some ''web.service''
     \<and> env_lookup env ''SUPERVISORD_HEALTHY'' = Some ''false'')"
proof -
  let ?ds = "notify_event [''SUPERVISORD_UNIT_NAME=x''] sample_notifier sample_event"
  let ?d = "hd ?ds"
  have ne: "?d \<in> set ?ds"
    by (simp add: notify_event_def sample_notifier_def sample_event_def payload_of_def matches_filter_def Let_def)
  obtain env where env: "delivery_env ?d = Some env"
    by (simp add: notify_event_def sample_notifier_def sample_event_def payload_of_def matches_filter_def run_script_def Let_def)
  from processes_read_the_event [OF ne env] env show ?thesis
    by (simp add: sample_event_def show_bool_def)
qed

end
