(* ===== verification/Systemd.thy ===== *)
theory Systemd
  imports StateManager
begin

text \<open>
  \<^verbatim>\<open>internal/systemd\<close>: the unit manager interface and its back ends (\<^verbatim>\<open>ctl.go\<close>,
  \<^verbatim>\<open>dbus.go\<close>, \<^verbatim>\<open>dryrun.go\<close>), the watch loops (\<^verbatim>\<open>ctl.go\<close>, \<^verbatim>\<open>events.go\<close>) and the
  watchdog notifier (\<^verbatim>\<open>notify.go\<close>). systemd itself, reached through \<^verbatim>\<open>systemctl\<close> or the D-Bus
  client library, is outside: its state is a type variable, and what it answers are the fields of
  \<open>ctl_env\<close> and \<open>dbus_env\<close>.
\<close>

section \<open>The interface\<close>

record unit_state =
  un_name :: string
  un_active_state :: string
  un_sub_state :: string
  un_load_state :: string

record state_change =
  ch_unit_name :: string
  ch_active_state :: string
  ch_sub_state :: string

record ('w, 'e) manager =
  mg_start :: "string \<Rightarrow> 'w \<Rightarrow> 'e option \<times> 'w"
  mg_stop :: "string \<Rightarrow> 'w \<Rightarrow> 'e option \<times> 'w"
  mg_restart :: "string \<Rightarrow> 'w \<Rightarrow> 'e option \<times> 'w"
  mg_unit_state :: "string \<Rightarrow> 'w \<Rightarrow> 'e + unit_state"
  mg_last_trigger :: "string \<Rightarrow> 'w \<Rightarrow> 'e + instant"
  mg_list_units :: "string \<Rightarrow> 'w \<Rightarrow> 'e + string list"

section \<open>Dry run\<close>

definition dry_run_manager :: "('w, 'e) manager \<Rightarrow> ('w, 'e) manager" where
  "dry_run_manager real =
     \<lparr>mg_start = (\<lambda>unit w. (None, w)), mg_stop = (\<lambda>unit w. (None, w)), mg_restart = (\<lambda>unit w. (None, w)),
      mg_unit_state = mg_unit_state real, mg_last_trigger = mg_last_trigger real,
      mg_list_units = mg_list_units real\<rparr>"

text \<open>
  The contract of a manager that acts on nothing: every action reports success and leaves the
  system as it was. Whatever drives such a manager, the system never changes.
\<close>

datatype action = Start string | Stop string | Restart string

fun perform :: "('w, 'e) manager \<Rightarrow> action \<Rightarrow> 'w \<Rightarrow> 'e option \<times> 'w" where
  "perform m (Start u) w = mg_start m u w"
| "perform m (Stop u) w = mg_stop m u w"
| "perform m (Restart u) w = mg_restart m u w"

fun perform_all :: "('w, 'e) manager \<Rightarrow> action list \<Rightarrow> 'w \<Rightarrow> 'e option list \<times> 'w" where
  "perform_all m [] w = ([], w)"
| "perform_all m (x # xs) w =
     (case perform m x w of (r, w1) \<Rightarrow> (case perform_all m xs w1 of (rs, w2) \<Rightarrow> (r # rs, w2)))"

locale inert_manager =
  fixes m :: "('w, 'e) manager"
  assumes inert: "perform m x w = (None, w)"
begin

lemma start_inert: "mg_start m u w = (None, w)"
  using inert [of "Start u"] by simp

lemma stop_inert: "mg_stop m u w = (None, w)"
  using inert [of "Stop u"] by simp

lemma restart_inert: "mg_restart m u w = (None, w)"
  using inert [of "Restart u"] by simp

lemma perform_all_inert: "perform_all m xs w = (replicate (length xs) None, w)"
  by (induction xs) (simp_all add: inert)

end

interpretation dry_run: inert_manager "dry_run_manager real"
  for real :: "('w, 'e) manager"
proof
  fix x and w :: 'w
  show "perform (dry_run_manager real) x w = (None, w)" by (cases x) (simp_all add: dry_run_manager_def)
qed

section \<open>Reading systemctl's output\<close>

definition newline :: char where
  "newline = CHR 0x0A"

text \<open>
  \<^verbatim>\<open>bufio.Scanner\<close> with its default line splitting: the scan ends, without an error the code
  looks at, before a line that does not fit its 64 KiB buffer; a trailing carriage return is
  dropped.
\<close>

definition max_token :: nat where
  "max_token = 65536"

function split_lines :: "string \<Rightarrow> string list" where
  "split_lines s =
     (if s = [] then []
      else case index_char s newline of
             None \<Rightarrow> [s]
           | Some i \<Rightarrow> take i s # split_lines (drop (Suc i) s))"
  by pat_completeness auto
termination
  by (relation "measure length") (auto dest: index_char_Some)

declare split_lines.simps [simp del]

definition drop_cr :: "string \<Rightarrow> string" where
  "drop_cr l = (if l \<noteq> [] \<and> last l = CHR 0x0D then butlast l else l)"

definition scan_lines :: "string \<Rightarrow> string list" where
  "scan_lines s = map drop_cr (takeWhile (\<lambda>l. length l < max_token) (split_lines s))"

text \<open>\<^verbatim>\<open>strings.Cut\<close> at a one-character separator.\<close>

definition cut_char :: "string \<Rightarrow> char \<Rightarrow> (string \<times> string) option" where
  "cut_char s c = map_option (\<lambda>i. (take i s, drop (Suc i) s)) (index_char s c)"

definition add_property :: "string \<Rightarrow> string gomap \<Rightarrow> string gomap" where
  "add_property line props =
     (case cut_char line CHR ''='' of None \<Rightarrow> props | Some (key, val) \<Rightarrow> AList.update key val props)"

definition parse_properties :: "string \<Rightarrow> string gomap" where
  "parse_properties out = fold add_property (scan_lines out) []"

text \<open>A missing key reads as the empty string.\<close>

definition prop_value :: "string gomap \<Rightarrow> string \<Rightarrow> string" where
  "prop_value props key = (case map_of props key of None \<Rightarrow> [] | Some v \<Rightarrow> v)"

text \<open>\<^verbatim>\<open>strings.Fields\<close>, for the ASCII text systemctl prints.\<close>

definition is_space :: "char \<Rightarrow> bool" where
  "is_space c \<longleftrightarrow> c \<in> {CHR 0x09, CHR 0x0A, CHR 0x0B, CHR 0x0C, CHR 0x0D, CHR 0x20}"

definition first_field :: "string \<Rightarrow> string option" where
  "first_field s =
     (let f = takeWhile (\<lambda>c. \<not> is_space c) (dropWhile is_space s) in if f = [] then None else Some f)"

text \<open>\<^verbatim>\<open>strings.TrimSpace\<close>, likewise.\<close>

definition trim_space :: "string \<Rightarrow> string" where
  "trim_space s = rev (dropWhile is_space (rev (dropWhile is_space s)))"

section \<open>The systemctl back end\<close>

record ('w, 'e) ctl_env =
  ct_run :: "string \<Rightarrow> string \<Rightarrow> 'w \<Rightarrow> (string \<times> 'e option) \<times> 'w"
  ct_show :: "string \<Rightarrow> string \<Rightarrow> 'w \<Rightarrow> 'e + string"
  ct_list :: "string \<Rightarrow> 'w \<Rightarrow> 'e + string"
  ct_parse_time :: "string \<Rightarrow> 'e + instant"

datatype 'e manager_error =
  SystemctlFailed string string string 'e
| ShowFailed string 'e
| TimerProperties string 'e
| ParsingLastTrigger string 'e
| ListingUnits string 'e
| DBusCall string string 'e
| JobResult string string string
| DBusProperties string 'e

definition run_systemctl ::
  "('w, 'e) ctl_env \<Rightarrow> string \<Rightarrow> string \<Rightarrow> 'w \<Rightarrow> 'e manager_error option \<times> 'w" where
  "run_systemctl env act unit w =
     (case ct_run env act unit w of
        ((out, Some e), w') \<Rightarrow> (Some (SystemctlFailed act unit (trim_space out) e), w')
      | ((out, None), w') \<Rightarrow> (None, w'))"

definition ctl_unit_state :: "('w, 'e) ctl_env \<Rightarrow> string \<Rightarrow> 'w \<Rightarrow> 'e manager_error + unit_state" where
  "ctl_unit_state env unit w =
     (case ct_show env unit ''--property=ActiveState,SubState,LoadState'' w of
        Inl e \<Rightarrow> Inl (ShowFailed unit e)
      | Inr out \<Rightarrow>
          (let props = parse_properties out in
           Inr \<lparr>un_name = unit, un_active_state = prop_value props ''ActiveState'',
                un_sub_state = prop_value props ''SubState'', un_load_state = prop_value props ''LoadState''\<rparr>))"

definition ctl_last_trigger :: "('w, 'e) ctl_env \<Rightarrow> string \<Rightarrow> 'w \<Rightarrow> 'e manager_error + instant" where
  "ctl_last_trigger env unit w =
     (case ct_show env unit ''--property=LastTriggerUSec'' w of
        Inl e \<Rightarrow> Inl (TimerProperties unit e)
      | Inr out \<Rightarrow>
          (case map_of (parse_properties out) ''LastTriggerUSec'' of
             None \<Rightarrow> Inr zero_time
           | Some val \<Rightarrow>
               if val = [] \<or> val = ''n/a'' then Inr zero_time
               else wrap_err (ParsingLastTrigger unit) (ct_parse_time env val)))"

definition ctl_list_units :: "('w, 'e) ctl_env \<Rightarrow> string \<Rightarrow> 'w \<Rightarrow> 'e manager_error + string list" where
  "ctl_list_units env pre w =
     (case ct_list env (pre @ ''*'') w of
        Inl e \<Rightarrow> Inl (ListingUnits pre e)
      | Inr out \<Rightarrow> Inr (List.map_filter first_field (scan_lines out)))"

definition ctl_manager :: "('w, 'e) ctl_env \<Rightarrow> ('w, 'e manager_error) manager" where
  "ctl_manager env =
     \<lparr>mg_start = run_systemctl env ''start'', mg_stop = run_systemctl env ''stop'',
      mg_restart = run_systemctl env ''restart'', mg_unit_state = ctl_unit_state env,
      mg_last_trigger = ctl_last_trigger env, mg_list_units = ctl_list_units env\<rparr>"

text \<open>
  The polling loop of \<^verbatim>\<open>WatchUnit\<close>, over what its polls return: a failed poll is logged and
  skipped, a state is reported when its text differs from that of the last one.
\<close>

fun ctl_watch_loop :: "string \<Rightarrow> string \<Rightarrow> ('e manager_error + unit_state) list \<Rightarrow> state_change list" where
  "ctl_watch_loop unit last_state [] = []"
| "ctl_watch_loop unit last_state (Inl e # polls) = ctl_watch_loop unit last_state polls"
| "ctl_watch_loop unit last_state (Inr st # polls) =
     (let current = un_active_state st @ ''/'' @ un_sub_state st in
      if current \<noteq> last_state then
        \<lparr>ch_unit_name = unit, ch_active_state = un_active_state st, ch_sub_state = un_sub_state st\<rparr>
          # ctl_watch_loop unit current polls
      else ctl_watch_loop unit last_state polls)"

definition ctl_watch_unit :: "string \<Rightarrow> ('e manager_error + unit_state) list \<Rightarrow> state_change list" where
  "ctl_watch_unit unit polls = ctl_watch_loop unit [] polls"

section \<open>The D-Bus back end\<close>

datatype dbus_value = DString string | DUint64 nat | DOther

record dbus_unit_status =
  du_name :: string
  du_load_state :: string
  du_active_state :: string
  du_sub_state :: string

datatype 'e dbus_input =
  UnitsChanged "dbus_unit_status option gomap"
| UnitsClosed
| SubscriptionError "'e option"
| ErrorsClosed
| ContextDone

record ('w, 'e) dbus_env =
  db_job :: "string \<Rightarrow> string \<Rightarrow> 'w \<Rightarrow> ('e + string) \<times> 'w"
  db_unit_props :: "string \<Rightarrow> 'w \<Rightarrow> 'e + dbus_value gomap"
  db_timer_props :: "string \<Rightarrow> 'w \<Rightarrow> 'e + dbus_value gomap"
  db_list_units :: "string \<Rightarrow> 'w \<Rightarrow> 'e + dbus_unit_status list"
  db_subscribe :: "(dbus_unit_status \<Rightarrow> dbus_unit_status \<Rightarrow> bool) \<Rightarrow> (string \<Rightarrow> bool) \<Rightarrow> 'e dbus_input list"

definition dbus_job :: "('w, 'e) dbus_env \<Rightarrow> string \<Rightarrow> string \<Rightarrow> 'w \<Rightarrow> 'e manager_error option \<times> 'w" where
  "dbus_job env act unit w =
     (case db_job env act unit w of
        (Inl e, w') \<Rightarrow> (Some (DBusCall act unit e), w')
      | (Inr result, w') \<Rightarrow>
          (if result \<noteq> ''done'' then Some (JobResult act unit result) else None, w'))"

definition string_prop :: "dbus_value gomap \<Rightarrow> string \<Rightarrow> string" where
  "string_prop props key = (case map_of props key of Some (DString s) \<Rightarrow> s | _ \<Rightarrow> [])"

definition dbus_unit_state :: "('w, 'e) dbus_env \<Rightarrow> string \<Rightarrow> 'w \<Rightarrow> 'e manager_error + unit_state" where
  "dbus_unit_state env unit w =
     (case db_unit_props env unit w of
        Inl e \<Rightarrow> Inl (DBusProperties unit e)
      | Inr props \<Rightarrow>
          Inr \<lparr>un_name = unit, un_active_state = string_prop props ''ActiveState'',
               un_sub_state = string_prop props ''SubState'', un_load_state = string_prop props ''LoadState''\<rparr>)"

text \<open>The conversion to int64 wraps; a microsecond count is then an instant.\<close>

definition dbus_last_trigger :: "('w, 'e) dbus_env \<Rightarrow> string \<Rightarrow> 'w \<Rightarrow> 'e manager_error + instant" where
  "dbus_last_trigger env unit w =
     (case db_timer_props env unit w of
        Inl e \<Rightarrow> Inl (TimerProperties unit e)
      | Inr props \<Rightarrow>
          (case map_of props ''LastTriggerUSec'' of
             Some (DUint64 v) \<Rightarrow> Inr (if v = 0 then zero_time else wrap64 (int v) * 1000)
           | _ \<Rightarrow> Inr zero_time))"

definition dbus_list_units :: "('w, 'e) dbus_env \<Rightarrow> string \<Rightarrow> 'w \<Rightarrow> 'e manager_error + string list" where
  "dbus_list_units env pre w =
     (case db_list_units env (pre @ ''*'') w of
        Inl e \<Rightarrow> Inl (ListingUnits pre e)
      | Inr units \<Rightarrow> Inr (map du_name (filter (\<lambda>u. du_load_state u = ''loaded'') units)))"

definition dbus_manager :: "('w, 'e) dbus_env \<Rightarrow> ('w, 'e manager_error) manager" where
  "dbus_manager env =
     \<lparr>mg_start = dbus_job env ''starting'', mg_stop = dbus_job env ''stopping'',
      mg_restart = dbus_job env ''restarting'', mg_unit_state = dbus_unit_state env,
      mg_last_trigger = dbus_last_trigger env, mg_list_units = dbus_list_units env\<rparr>"

text \<open>\<^verbatim>\<open>processDBusEvents\<close>: the changes it sends, over what its \<^verbatim>\<open>select\<close> receives.\<close>

definition unit_changes :: "dbus_unit_status option gomap \<Rightarrow> state_change list" where
  "unit_changes us =
     List.map_filter (\<lambda>(name, st). map_option (\<lambda>s. \<lparr>ch_unit_name = name, ch_active_state = du_active_state s,
        ch_sub_state = du_sub_state s\<rparr>) st) us"

fun process_dbus_events :: "'e dbus_input list \<Rightarrow> state_change list" where
  "process_dbus_events [] = []"
| "process_dbus_events (UnitsChanged us # ins) = unit_changes us @ process_dbus_events ins"
| "process_dbus_events (SubscriptionError e # ins) = process_dbus_events ins"
| "process_dbus_events (UnitsClosed # ins) = []"
| "process_dbus_events (ErrorsClosed # ins) = []"
| "process_dbus_events (ContextDone # ins) = []"

text \<open>
  \<^verbatim>\<open>WatchUnit\<close> passes the library a change test that compares names and a filter that is always
  true.
\<close>

definition dbus_watch_unit :: "('w, 'e) dbus_env \<Rightarrow> string \<Rightarrow> state_change list" where
  "dbus_watch_unit env unit =
     process_dbus_events (db_subscribe env (\<lambda>u1 u2. du_name u1 = unit) (\<lambda>name. True))"

text \<open>\<^verbatim>\<open>NewManager\<close> on Linux: the D-Bus back end, or systemctl when D-Bus is not available.\<close>

definition new_manager_for ::
  "('e + ('w, 'e) dbus_env) \<Rightarrow> ('w, 'e) ctl_env \<Rightarrow> ('w, 'e manager_error) manager" where
  "new_manager_for conn ctl = (case conn of Inl e \<Rightarrow> ctl_manager ctl | Inr env \<Rightarrow> dbus_manager env)"

section \<open>The watchdog\<close>

text \<open>\<^verbatim>\<open>strconv.ParseInt(s, 10, 64)\<close>: an optional sign, then digits; \<open>None\<close> is a syntax or range error.\<close>

definition digit :: "char \<Rightarrow> nat option" where
  "digit c = (let d = of_char c :: nat in if 48 \<le> d \<and> d \<le> 57 then Some (d - 48) else None)"

fun parse_digits :: "nat \<Rightarrow> string \<Rightarrow> nat option" where
  "parse_digits acc [] = Some acc"
| "parse_digits acc (c # cs) =
     (case digit c of None \<Rightarrow> None | Some d \<Rightarrow> parse_digits (10 * acc + d) cs)"

definition parse_int64 :: "string \<Rightarrow> int option" where
  "parse_int64 s =
     (let (neg, ds) = (case s of [] \<Rightarrow> (False, []) | c # cs \<Rightarrow>
            if c = CHR ''-'' then (True, cs) else if c = CHR ''+'' then (False, cs) else (False, s)) in
      if ds = [] then None
      else case parse_digits 0 ds of
             None \<Rightarrow> None
           | Some n \<Rightarrow>
               (let v = (if neg then - int n else int n) in
                if int64_min \<le> v \<and> v \<le> int64_max then Some v else None))"

text \<open>\<^verbatim>\<open>detectWatchdogInterval\<close>; Go's division truncates towards zero.\<close>

definition go_div2 :: "int \<Rightarrow> int" where
  "go_div2 x = (if x < 0 then - (- x div 2) else x div 2)"

definition detect_watchdog_interval :: "string \<Rightarrow> duration" where
  "detect_watchdog_interval usec_str =
     (if usec_str = [] then 0
      else case parse_int64 usec_str of
             None \<Rightarrow> 0
           | Some usec \<Rightarrow> go_div2 (wrap64 (usec * 1000)))"

text \<open>
  \<^verbatim>\<open>StartWatchdog\<close>: no goroutine, a goroutine ticking at the interval, or a panic of
  \<^verbatim>\<open>NewTicker\<close>; each tick sends the status line, if any, and the watchdog message.
\<close>

datatype watchdog = WatchdogOff | WatchdogEvery duration | WatchdogPanics

definition start_watchdog :: "duration \<Rightarrow> watchdog" where
  "start_watchdog interval =
     (if interval = 0 then WatchdogOff else if interval < 0 then WatchdogPanics else WatchdogEvery interval)"

definition watchdog_tick :: "string option \<Rightarrow> string list" where
  "watchdog_tick status =
     (case status of None \<Rightarrow> [] | Some s \<Rightarrow> [''STATUS='' @ s]) @ [''WATCHDOG=1'']"

section \<open>What systemctl prints is what is read\<close>

definition show_property :: "string \<times> string \<Rightarrow> string" where
  "show_property p = fst p @ CHR ''='' # snd p"

definition show_properties :: "string gomap \<Rightarrow> string" where
  "show_properties ps = concat (map (\<lambda>p. show_property p @ [newline]) ps)"

definition printable_property :: "string \<times> string \<Rightarrow> bool" where
  "printable_property p \<longleftrightarrow>
     CHR ''='' \<notin> set (fst p) \<and> newline \<notin> set (show_property p) \<and>
     (snd p = [] \<or> last (snd p) \<noteq> CHR 0x0D) \<and> length (show_property p) < max_token"

lemma split_lines_Nil [simp]: "split_lines [] = []"
  by (simp add: split_lines.simps)

lemma split_lines_line:
  "newline \<notin> set l \<Longrightarrow> split_lines (l @ newline # s) = l # split_lines s"
  by (subst split_lines.simps) (simp add: index_char_append)

lemma split_lines_concat:
  "(\<And>l. l \<in> set ls \<Longrightarrow> newline \<notin> set l) \<Longrightarrow> split_lines (concat (map (\<lambda>l. l @ [newline]) ls)) = ls"
  by (induction ls) (simp_all add: split_lines_line)

lemma drop_cr_property: "printable_property p \<Longrightarrow> drop_cr (show_property p) = show_property p"
  by (auto simp: printable_property_def show_property_def drop_cr_def)

lemma scan_lines_show:
  assumes "\<And>p. p \<in> set ps \<Longrightarrow> printable_property p"
  shows "scan_lines (show_properties ps) = map show_property ps"
proof -
  have "split_lines (show_properties ps) = map show_property ps"
    using split_lines_concat [of "map show_property ps"] assms
    unfolding show_properties_def printable_property_def by (simp add: comp_def) blast
  then show ?thesis
    using assms by (auto simp: scan_lines_def printable_property_def drop_cr_property takeWhile_map comp_def
        intro!: map_cong takeWhile_eq_all_conv [THEN iffD2])
qed

lemma add_property_show:
  "CHR ''='' \<notin> set (fst p) \<Longrightarrow> add_property (show_property p) props = AList.update (fst p) (snd p) props"
  by (simp add: add_property_def show_property_def cut_char_def index_char_append split: prod.split)

lemma update_new: "k \<notin> fst ` set m \<Longrightarrow> AList.update k v m = m @ [(k, v)]"
  by (induction m) auto

lemma fold_add_property:
  "(\<And>p. p \<in> set ps \<Longrightarrow> CHR ''='' \<notin> set (fst p)) \<Longrightarrow> distinct (map fst (acc @ ps)) \<Longrightarrow>
     fold add_property (map show_property ps) acc = acc @ ps"
proof (induction ps arbitrary: acc)
  case Nil
  then show ?case by simp
next
  case (Cons p ps)
  from Cons.prems(2) have "fst p \<notin> fst ` set acc" by auto
  then have step: "add_property (show_property p) acc = acc @ [p]"
    using Cons.prems(1) [of p] by (simp add: add_property_show update_new)
  show ?case using Cons.IH [of "acc @ [p]"] Cons.prems by (simp add: step)
qed

text \<open>C25. Parsing what \<^verbatim>\<open>systemctl show\<close> prints gives back the properties it printed, for any
  properties with distinct names that contain no equals sign, on lines without line breaks that fit
  the scanner's buffer; a value may contain equals signs.\<close>

theorem parse_show_properties:
  assumes "gm_ok ps" and "\<And>p. p \<in> set ps \<Longrightarrow> printable_property p"
  shows "parse_properties (show_properties ps) = ps"
  using fold_add_property [of ps "[]"] assms
  by (simp add: parse_properties_def scan_lines_show gm_ok_def printable_property_def)

theorem parse_show_properties_witness:
  "parse_properties (show_properties [(''ActiveState'', ''active''), (''Environment'', ''A=1''), (''SubState'', [])])
     = [(''ActiveState'', ''active''), (''Environment'', ''A=1''), (''SubState'', [])]"
  by (rule parse_show_properties)
    (auto simp: gm_ok_def printable_property_def show_property_def newline_def max_token_def)

section \<open>The watch loops\<close>

definition poll_states :: "('e manager_error + unit_state) list \<Rightarrow> (string \<times> string) list" where
  "poll_states polls =
     List.map_filter (\<lambda>r. case r of Inl e \<Rightarrow> None | Inr st \<Rightarrow> Some (un_active_state st, un_sub_state st)) polls"

lemma poll_states_simps [simp]:
  "poll_states [] = []"
  "poll_states (Inl e # polls) = poll_states polls"
  "poll_states (Inr st # polls) = (un_active_state st, un_sub_state st) # poll_states polls"
  by (simp_all add: poll_states_def List.map_filter_def)

definition change_state :: "state_change \<Rightarrow> string \<times> string" where
  "change_state c = (ch_active_state c, ch_sub_state c)"

lemma change_state_simp [simp]:
  "change_state \<lparr>ch_unit_name = u, ch_active_state = a, ch_sub_state = b\<rparr> = (a, b)"
  by (simp add: change_state_def)

lemma slash_inj:
  "CHR ''/'' \<notin> set a \<Longrightarrow> CHR ''/'' \<notin> set b \<Longrightarrow> a @ CHR ''/'' # x = b @ CHR ''/'' # y \<longleftrightarrow> a = b \<and> x = y"
proof (induction a arbitrary: b)
  case Nil
  then show ?case by (cases b) auto
next
  case (Cons c a)
  then show ?case by (cases b) auto
qed

text \<open>What the loop compares: the two states joined by a slash.\<close>

definition state_key :: "string \<times> string \<Rightarrow> string" where
  "state_key p = fst p @ ''/'' @ snd p"

lemma ctl_watch_loop_keys:
  "l # map (state_key \<circ> change_state) (ctl_watch_loop unit l polls) = remdups_adj (l # map state_key (poll_states polls))"
  by (induction unit l polls rule: ctl_watch_loop.induct) (auto simp: Let_def state_key_def)

lemma ctl_watch_unit_keys:
  "map (state_key \<circ> change_state) (ctl_watch_unit unit polls) = remdups_adj (map state_key (poll_states polls))"
proof -
  have "remdups_adj ([] # ks) = [] # remdups_adj ks" if "[] \<notin> set ks" for ks :: "string list"
    using that by (cases ks) auto
  moreover have "[] \<notin> set (map state_key (poll_states polls))" by (auto simp: state_key_def)
  ultimately show ?thesis
    using ctl_watch_loop_keys [of "[]" unit polls] by (simp add: ctl_watch_unit_def)
qed

lemma remdups_adj_inj_on: "inj_on f (set xs) \<Longrightarrow> remdups_adj (map f xs) = map f (remdups_adj xs)"
  by (induction xs rule: remdups_adj.induct) (auto simp: inj_on_def)

text \<open>C32. Polling a unit through systemctl reports its changes, under its name. Whatever the polls
  return, failures included, the keys \<^verbatim>\<open>active/sub\<close> of what is sent are those of the successful
  polls with consecutive repetitions removed, and nothing is sent that was not polled. When no two
  polled states share a key, as when no active state contains a slash (systemd's do not), the states sent
  are exactly the polled ones with consecutive repetitions removed;
  \<^verbatim>\<open>a/b\<close>, \<^verbatim>\<open>c\<close> followed by \<^verbatim>\<open>a\<close>, \<^verbatim>\<open>b/c\<close> would be taken for no change.\<close>

theorem ctl_watch_reports_changes:
  "map (state_key \<circ> change_state) (ctl_watch_unit unit polls) = remdups_adj (map state_key (poll_states polls))
    \<and> change_state ` set (ctl_watch_unit unit polls) \<subseteq> set (poll_states polls)
    \<and> ch_unit_name ` set (ctl_watch_unit unit polls) \<subseteq> {unit}
    \<and> ((\<forall>p \<in> set (poll_states polls). CHR ''/'' \<notin> set (fst p)) \<longrightarrow>
        map change_state (ctl_watch_unit unit polls) = remdups_adj (poll_states polls))"
proof (intro conjI impI)
  show "map (state_key \<circ> change_state) (ctl_watch_unit unit polls) = remdups_adj (map state_key (poll_states polls))"
    by (rule ctl_watch_unit_keys)
  have "\<forall>c \<in> set (ctl_watch_loop unit l polls). change_state c \<in> set (poll_states polls) \<and> ch_unit_name c = unit" for l
    by (induction unit l polls rule: ctl_watch_loop.induct) (simp_all add: Let_def)
  then show sub: "change_state ` set (ctl_watch_unit unit polls) \<subseteq> set (poll_states polls)"
    and "ch_unit_name ` set (ctl_watch_unit unit polls) \<subseteq> {unit}"
    by (auto simp: ctl_watch_unit_def)
  assume slash: "\<forall>p \<in> set (poll_states polls). CHR ''/'' \<notin> set (fst p)"
  have inj: "inj_on state_key (set (poll_states polls))"
    using slash by (auto simp: inj_on_def state_key_def slash_inj)
  have "map state_key (map change_state (ctl_watch_unit unit polls)) = map state_key (remdups_adj (poll_states polls))"
    using ctl_watch_unit_keys [of unit polls] remdups_adj_inj_on [OF inj] by simp
  then show "map change_state (ctl_watch_unit unit polls) = remdups_adj (poll_states polls)"
    by (rule map_inj_on) (use sub inj in \<open>auto elim!: inj_on_subset\<close>)
qed

definition polled :: "string \<Rightarrow> string \<Rightarrow> nat manager_error + unit_state" where
  "polled a b = Inr \<lparr>un_name = ''web.service'', un_active_state = a, un_sub_state = b, un_load_state = ''loaded''\<rparr>"

theorem ctl_watch_reports_changes_witness:
  "map change_state (ctl_watch_unit ''web.service'' [polled ''active'' ''running'', Inl (ShowFailed [] 1),
      polled ''active'' ''running'', polled ''failed'' ''failed''])
     = [(''active'', ''running''), (''failed'', ''failed'')]"
proof -
  let ?polls = "[polled ''active'' ''running'', Inl (ShowFailed [] 1), polled ''active'' ''running'', polled ''failed'' ''failed'']"
  have "map change_state (ctl_watch_unit ''web.service'' ?polls) = remdups_adj (poll_states ?polls)
      \<and> ch_unit_name ` set (ctl_watch_unit ''web.service'' ?polls) \<subseteq> {''web.service''}"
    using ctl_watch_reports_changes [of "''web.service''" ?polls] by (simp add: polled_def)
  then show ?thesis by (simp only: polled_def poll_states_simps unit_state.simps remdups_adj.simps) simp
qed

text \<open>
  The D-Bus library leaves out of its reports the units its filter is true of. With the filter
  \<^verbatim>\<open>WatchUnit\<close> passes, no change of any unit is ever sent.
\<close>

definition leaves_out_filtered :: "('w, 'e) dbus_env \<Rightarrow> bool" where
  "leaves_out_filtered env \<longleftrightarrow>
     (\<forall>changed flt us. UnitsChanged us \<in> set (db_subscribe env changed flt) \<longrightarrow> (\<forall>name \<in> gm_keys us. \<not> flt name))"

lemma process_dbus_events_silent:
  "(\<And>us. UnitsChanged us \<in> set ins \<Longrightarrow> us = []) \<Longrightarrow> process_dbus_events ins = []"
proof (induction ins rule: process_dbus_events.induct)
  case (2 us ins)
  have "us = []" by (rule "2.prems") simp
  moreover have "process_dbus_events ins = []"
    by (rule "2.IH") (rule "2.prems", rule list.set_intros(2))
  ultimately show ?case by (simp add: unit_changes_def List.map_filter_def)
next
  case (3 e ins)
  have "process_dbus_events ins = []"
    by (rule "3.IH") (rule "3.prems", rule list.set_intros(2))
  then show ?case by simp
qed simp_all

lemma dbus_watch_silent:
  assumes "leaves_out_filtered env"
  shows "dbus_watch_unit env unit = []"
proof -
  have "us = []" if "UnitsChanged us \<in> set (db_subscribe env (\<lambda>u1 u2. du_name u1 = unit) (\<lambda>name. True))" for us
  proof -
    have "\<forall>name \<in> gm_keys us. \<not> True"
      using assms that unfolding leaves_out_filtered_def by (elim allE) (erule (1) impE)
    then show "us = []" by (simp add: gm_keys_def)
  qed
  then show ?thesis unfolding dbus_watch_unit_def by (rule process_dbus_events_silent)
qed

definition one_unit_bus :: "(unit, nat) dbus_env" where
  "one_unit_bus =
     \<lparr>db_job = (\<lambda>act u w. (Inr ''done'', w)), db_unit_props = (\<lambda>u w. Inr []), db_timer_props = (\<lambda>u w. Inr []),
      db_list_units = (\<lambda>p w. Inr []),
      db_subscribe = (\<lambda>changed flt. [UnitsChanged (filter (\<lambda>(n, st). \<not> flt n)
        [(''web.service'', Some \<lparr>du_name = ''web.service'', du_load_state = ''loaded'',
            du_active_state = ''failed'', du_sub_state = ''failed''\<rparr>)]), ContextDone])\<rparr>"

lemma dbus_watch_silent_example: "dbus_watch_unit one_unit_bus ''web.service'' = []"
proof (rule dbus_watch_silent)
  show "leaves_out_filtered one_unit_bus"
    unfolding leaves_out_filtered_def one_unit_bus_def gm_keys_def by simp
qed

section \<open>The watchdog's period\<close>

lemma digit_char_of: "d < 10 \<Longrightarrow> digit (char_of (48 + d)) = Some d"
  by (simp add: digit_def)

lemma parse_digits_snoc:
  "parse_digits acc (s @ [c]) =
     (case parse_digits acc s of None \<Rightarrow> None | Some n \<Rightarrow> (case digit c of None \<Rightarrow> None | Some d \<Rightarrow> Some (10 * n + d)))"
  by (induction acc s rule: parse_digits.induct) (simp_all split: option.split)

lemma parse_show_nat: "parse_digits 0 (show_nat n) = Some n"
  by (induction n rule: show_nat.induct)
    (subst show_nat.simps, simp add: parse_digits_snoc digit_char_of)

lemma show_nat_sign: "show_nat n \<noteq> [] \<and> hd (show_nat n) \<noteq> CHR ''-'' \<and> hd (show_nat n) \<noteq> CHR ''+''"
proof (induction n rule: show_nat.induct)
  case (1 n)
  have "digit CHR ''-'' = None" "digit CHR ''+'' = None" by (simp_all add: digit_def)
  with digit_char_of [of "n mod 10"]
  have "char_of (48 + n mod 10) \<noteq> CHR ''-''" "char_of (48 + n mod 10) \<noteq> CHR ''+''" by force+
  then show ?case using 1 by (subst (1 2 3) show_nat.simps) (cases "n < 10", simp_all)
qed

lemma parse_int64_show:
  "int n \<le> int64_max \<Longrightarrow> parse_int64 (show_nat n) = Some (int n)"
  using parse_show_nat [of n] show_nat_sign [of n]
  by (cases "show_nat n") (auto simp: parse_int64_def int64_min_def)

text \<open>The watchdog keeps systemd satisfied: told a timeout of \<^verbatim>\<open>n\<close> microseconds in decimal, it
  sends twice per timeout, every \<^verbatim>\<open>500 * n\<close> nanoseconds, for every timeout whose nanoseconds fit an
  int64; no timeout, or text that is not a number, starts no watchdog.\<close>

theorem watchdog_twice_per_timeout:
  assumes "0 < n" and "int n * 1000 \<le> int64_max"
  shows "start_watchdog (detect_watchdog_interval (show_nat n)) = WatchdogEvery (500 * int n)"
    and "start_watchdog (detect_watchdog_interval []) = WatchdogOff"
proof -
  have "wrap64 (int n * 1000) = int n * 1000"
    using assms by (intro wrap64_id) (simp_all add: int64_min_def)
  moreover have "parse_int64 (show_nat n) = Some (int n)"
    using assms by (intro parse_int64_show) (simp add: int64_max_def)
  ultimately show "start_watchdog (detect_watchdog_interval (show_nat n)) = WatchdogEvery (500 * int n)"
    using assms show_nat_sign [of n]
    by (simp add: detect_watchdog_interval_def go_div2_def start_watchdog_def)
qed (simp add: detect_watchdog_interval_def start_watchdog_def)

theorem watchdog_twice_per_timeout_witness:
  "start_watchdog (detect_watchdog_interval (show_nat 30000000)) = WatchdogEvery (15 * second)"
  using watchdog_twice_per_timeout(1) [of 30000000] by (simp add: int64_max_def second_def)

end
