(* ===== verification/Daemon.thy ===== *)
theory Daemon
  imports Restarter HealthChecker Notify Systemd ConfigDefaults
begin

text \<open>
  \<^verbatim>\<open>internal/daemon/daemon.go\<close>: the registries of supervised units and of monitored backends, the
  dispatch of events to the notifier and the restarter, discovery, the timer check, start-up and
  reload.

  A context is an index into \<open>dm_ctxs\<close>, which says which ones are cancelled. What an operation does
  after its critical section under \<^verbatim>\<open>d.mu\<close> is a list of actions, each one call into another
  component; run one after the other they are the function, and \<open>DaemonSystem\<close> interleaves them.
  Goroutines started for a unit are the \<open>tasks\<close>, each bound to a context. The clock is that of the
  restarter's state; the manager is the record of \<open>Systemd\<close> over the outside world \<open>dm_world\<close>.
\<close>

section \<open>Names\<close>

definition extract_instance :: "string \<Rightarrow> string \<Rightarrow> string \<Rightarrow> string" where
  "extract_instance name pre unit_type = trim_suffix (trim_prefix name pre) (''.'' @ unit_type)"

definition find_matching_template ::
  "(string \<Rightarrow> string \<Rightarrow> bool) \<Rightarrow> string \<Rightarrow> unit_config list \<Rightarrow> unit_config option" where
  "find_matching_template re name templates =
     List.find (\<lambda>tmpl.
       has_prefix name (template_prefix tmpl) \<and> has_suffix name (''.'' @ uc_type tmpl) \<and>
       match_instance re tmpl (extract_instance name (template_prefix tmpl) (uc_type tmpl))) templates"

definition dep_unit :: "unit_config \<Rightarrow> string \<Rightarrow> string" where
  "dep_unit u dep =
     (if has_suffix dep ''.service'' \<or> has_suffix dep ''.timer'' then dep else dep @ ''.'' @ uc_type u)"

definition append_to :: "string \<Rightarrow> string \<Rightarrow> string list gomap \<Rightarrow> string list gomap" where
  "append_to k v m = AList.update k ((case map_of m k of None \<Rightarrow> [] | Some vs \<Rightarrow> vs) @ [v]) m"

definition build_dependents :: "unit_config list \<Rightarrow> string list gomap" where
  "build_dependents units =
     fold (\<lambda>u. fold (\<lambda>dep. append_to (dep_unit u dep) (unit_name u)) (uc_depends_on u)) units []"

section \<open>Log levels\<close>

datatype log_level = LevelDebug | LevelInfo | LevelWarn | LevelError

text \<open>The numbers of \<^verbatim>\<open>slog.Level\<close>.\<close>

fun level_number :: "log_level \<Rightarrow> int" where
  "level_number LevelDebug = - 4"
| "level_number LevelInfo = 0"
| "level_number LevelWarn = 4"
| "level_number LevelError = 8"

lemma level_number_inj: "level_number a = level_number b \<Longrightarrow> a = b"
  by (cases a; cases b) simp_all

instantiation log_level :: linorder
begin

definition less_eq_log_level :: "log_level \<Rightarrow> log_level \<Rightarrow> bool" where
  "less_eq_log_level a b \<longleftrightarrow> level_number a \<le> level_number b"

definition less_log_level :: "log_level \<Rightarrow> log_level \<Rightarrow> bool" where
  "less_log_level a b \<longleftrightarrow> level_number a < level_number b"

instance
  by standard (auto simp: less_eq_log_level_def less_log_level_def dest: level_number_inj)

end

definition setup_logging :: "string \<Rightarrow> log_level" where
  "setup_logging level =
     (if level = ''debug'' then LevelDebug
      else if level = ''warn'' then LevelWarn
      else if level = ''error'' then LevelError
      else LevelInfo)"

section \<open>State\<close>

datatype handler = NotifierHandler | RestarterHandler

datatype task =
  Watching string nat
| Checking string "health_check list" duration nat

record 'w daemon =
  dm_cfg :: config
  dm_registered :: "unit gomap"
  dm_critical :: "unit gomap"
  dm_cancels :: "nat gomap"
  dm_monitors :: "nat gomap"
  dm_ctxs :: "bool list"
  dm_tasks :: "task list"
  dm_rs :: "handler rsys"
  dm_notifier :: notifier
  dm_environ :: "string list"
  dm_deliveries :: "delivery list"
  dm_sd_messages :: "string list"
  dm_log_level :: log_level
  dm_discovery_running :: bool
  dm_timer_running :: bool
  dm_discovery_reload :: bool
  dm_timer_reload :: bool
  dm_discovery_every :: duration
  dm_timer_every :: duration
  dm_world :: 'w

definition critical_units :: "'w daemon \<Rightarrow> string list" where
  "critical_units d = map fst (dm_critical d)"

definition with_sm :: "handler state_manager \<Rightarrow> 'w daemon \<Rightarrow> 'w daemon" where
  "with_sm sm d = d\<lparr>dm_rs := (dm_rs d)\<lparr>rs_sm := sm\<rparr>\<rparr>"

definition on_rs :: "r_label \<Rightarrow> 'w daemon \<Rightarrow> 'w daemon" where
  "on_rs l d = d\<lparr>dm_rs := rs_step l (dm_rs d)\<rparr>"

section \<open>Restart goroutines\<close>

text \<open>
  A step of a restart goroutine. Where it calls \<^verbatim>\<open>mgr.Restart\<close>, on the unit or on a dependent, the
  call acts on the outside world, through the manager the restarter was given, and its answer decides
  how the goroutine goes on.
\<close>

fun restart_target :: "job \<Rightarrow> string option" where
  "restart_target (JRestarting u p) = Some u"
| "restart_target (JDependents u (d # ds)) = Some d"
| "restart_target j = None"

definition job_step :: "('w, 'e) manager \<Rightarrow> nat \<Rightarrow> 'w daemon \<Rightarrow> 'w daemon" where
  "job_step m i d =
     (case (if i < length (rs_jobs (dm_rs d)) then restart_target (rs_jobs (dm_rs d) ! i) else None) of
        None \<Rightarrow> on_rs (Run i True) d
      | Some u \<Rightarrow>
          (case mg_restart m u (dm_world d) of
             (err, w) \<Rightarrow> on_rs (Run i (Option.is_none err)) (d\<lparr>dm_world := w\<rparr>)))"

lemma job_step_runs:
  obtains ok w where "job_step m i d = (on_rs (Run i ok) d)\<lparr>dm_world := w\<rparr>"
proof (cases "if i < length (rs_jobs (dm_rs d)) then restart_target (rs_jobs (dm_rs d) ! i) else None")
  case None
  then show thesis by (intro that [where ok = True and w = "dm_world d"]) (simp add: job_step_def on_rs_def)
next
  case (Some u)
  obtain err w where "mg_restart m u (dm_world d) = (err, w)" by fastforce
  with Some show thesis by (intro that [where ok = "Option.is_none err" and w = w]) (simp add: job_step_def on_rs_def)
qed

lemma job_step_frame [simp]:
  "dm_registered (job_step m i d) = dm_registered d" "dm_critical (job_step m i d) = dm_critical d"
  "dm_cancels (job_step m i d) = dm_cancels d" "dm_monitors (job_step m i d) = dm_monitors d"
  "dm_ctxs (job_step m i d) = dm_ctxs d" "dm_tasks (job_step m i d) = dm_tasks d"
  by (rule job_step_runs [of m i d]; simp add: on_rs_def)+

section \<open>Events\<close>

text \<open>The handlers run in the order \<^verbatim>\<open>Run\<close> adds them, on the goroutine that made the change.\<close>

fun dispatch :: "(handler \<times> event) list \<Rightarrow> 'w daemon \<Rightarrow> 'w daemon" where
  "dispatch [] d = d"
| "dispatch ((NotifierHandler, ev) # evs) d =
     dispatch evs (d\<lparr>dm_deliveries := dm_deliveries d @ notify_event (dm_environ d) (dm_notifier d) ev\<rparr>)"
| "dispatch ((RestarterHandler, ev) # evs) d = dispatch evs (on_rs (Deliver ev) d)"

definition state_changed :: "string \<Rightarrow> string \<Rightarrow> string \<Rightarrow> 'w daemon \<Rightarrow> 'w daemon" where
  "state_changed unit active sub d =
     (case update_state (rs_now (dm_rs d)) unit active sub (rs_sm (dm_rs d)) of
        (sm, evs) \<Rightarrow> dispatch evs (with_sm sm d))"

definition health_changed :: "string \<Rightarrow> bool \<Rightarrow> 'w daemon \<Rightarrow> 'w daemon" where
  "health_changed unit healthy d =
     (case update_health (rs_now (dm_rs d)) unit healthy (rs_sm (dm_rs d)) of
        (sm, evs) \<Rightarrow> dispatch evs (with_sm sm d))"

section \<open>Registration\<close>

datatype call =
  SmRegister string
| RrRegister string restart_policy
| InitState string
| WatchUnit string nat
| StartChecks string "health_check list" duration nat
| CancelCtx nat
| RrUnregister string
| SmUnregister string

fun exec_call :: "('w, 'e) manager \<Rightarrow> call \<Rightarrow> 'w daemon \<Rightarrow> 'w daemon" where
  "exec_call m (SmRegister u) d = with_sm (sm_register u (rs_sm (dm_rs d))) d"
| "exec_call m (RrRegister u pol) d = on_rs (DoRegister u pol) d"
| "exec_call m (InitState u) d =
     (case mg_unit_state m u (dm_world d) of
        Inl e \<Rightarrow> d
      | Inr st \<Rightarrow> state_changed u (un_active_state st) (un_sub_state st) d)"
| "exec_call m (WatchUnit u c) d = d\<lparr>dm_tasks := dm_tasks d @ [Watching u c]\<rparr>"
| "exec_call m (StartChecks u checks grace c) d = d\<lparr>dm_tasks := dm_tasks d @ [Checking u checks grace c]\<rparr>"
| "exec_call m (CancelCtx c) d = d\<lparr>dm_ctxs := (dm_ctxs d)[c := True]\<rparr>"
| "exec_call m (RrUnregister u) d = on_rs (DoUnregister u) d"
| "exec_call m (SmUnregister u) d = with_sm (sm_unregister u (rs_sm (dm_rs d))) d"

definition checks_for :: "string \<Rightarrow> unit_config \<Rightarrow> health_check list" where
  "checks_for name unit =
     (if is_template unit
      then resolve_health_checks unit (extract_instance name (template_prefix unit) (uc_type unit))
      else uc_health_checks unit)"

definition register_calls :: "string \<Rightarrow> unit_config \<Rightarrow> nat \<Rightarrow> call list" where
  "register_calls name unit c =
     [SmRegister name] @
     (case uc_restart unit of None \<Rightarrow> [] | Some pol \<Rightarrow> [RrRegister name pol]) @
     [InitState name, WatchUnit name c] @
     (if checks_for name unit \<noteq> [] then [StartChecks name (checks_for name unit) (uc_grace_period unit) c] else [])"

definition register_enter :: "string \<Rightarrow> unit_config \<Rightarrow> 'w daemon \<Rightarrow> call list \<times> 'w daemon" where
  "register_enter name unit d =
     (if map_of (dm_registered d) name \<noteq> None then ([], d)
      else
        (let c = length (dm_ctxs d) in
         (register_calls name unit c,
          d\<lparr>dm_ctxs := dm_ctxs d @ [False],
            dm_registered := AList.update name () (dm_registered d),
            dm_cancels := AList.update name c (dm_cancels d),
            dm_critical := (if uc_critical unit then AList.update name () (dm_critical d) else dm_critical d)\<rparr>)))"

definition unregister_enter :: "string \<Rightarrow> 'w daemon \<Rightarrow> call list \<times> 'w daemon" where
  "unregister_enter name d =
     (case map_of (dm_cancels d) name of
        None \<Rightarrow> ([], d)
      | Some c \<Rightarrow>
          ([CancelCtx c, RrUnregister name, SmUnregister name],
           d\<lparr>dm_registered := AList.delete name (dm_registered d),
             dm_cancels := AList.delete name (dm_cancels d),
             dm_critical := AList.delete name (dm_critical d)\<rparr>))"

definition watch_enter ::
  "string \<Rightarrow> health_check list \<Rightarrow> restart_policy \<Rightarrow> 'w daemon \<Rightarrow> call list \<times> 'w daemon" where
  "watch_enter unit checks policy d =
     (if checks = [] then ([], d)
      else
        (let c = length (dm_ctxs d);
             ctxs = (case map_of (dm_monitors d) unit of
                       None \<Rightarrow> dm_ctxs d | Some existing \<Rightarrow> (dm_ctxs d)[existing := True]) in
         ([SmRegister unit, RrRegister unit policy, StartChecks unit checks 0 c],
          d\<lparr>dm_ctxs := ctxs @ [False], dm_monitors := AList.update unit c (dm_monitors d)\<rparr>)))"

definition unwatch_enter :: "string \<Rightarrow> 'w daemon \<Rightarrow> call list \<times> 'w daemon" where
  "unwatch_enter unit d =
     (case map_of (dm_monitors d) unit of
        None \<Rightarrow> ([], d)
      | Some c \<Rightarrow>
          ([CancelCtx c, RrUnregister unit, SmUnregister unit],
           d\<lparr>dm_monitors := AList.delete unit (dm_monitors d)\<rparr>))"

text \<open>The operations run to their end.\<close>

definition run_calls :: "('w, 'e) manager \<Rightarrow> call list \<times> 'w daemon \<Rightarrow> 'w daemon" where
  "run_calls m p = fold (exec_call m) (fst p) (snd p)"

definition register_unit :: "('w, 'e) manager \<Rightarrow> string \<Rightarrow> unit_config \<Rightarrow> 'w daemon \<Rightarrow> 'w daemon" where
  "register_unit m name unit d = run_calls m (register_enter name unit d)"

definition unregister_unit :: "('w, 'e) manager \<Rightarrow> string \<Rightarrow> 'w daemon \<Rightarrow> 'w daemon" where
  "unregister_unit m name d = run_calls m (unregister_enter name d)"

definition watch ::
  "('w, 'e) manager \<Rightarrow> string \<Rightarrow> health_check list \<Rightarrow> restart_policy \<Rightarrow> 'w daemon \<Rightarrow> 'w daemon" where
  "watch m unit checks policy d = run_calls m (watch_enter unit checks policy d)"

definition unwatch :: "('w, 'e) manager \<Rightarrow> string \<Rightarrow> 'w daemon \<Rightarrow> 'w daemon" where
  "unwatch m unit d = run_calls m (unwatch_enter unit d)"

definition update_unit :: "('w, 'e) manager \<Rightarrow> string \<Rightarrow> unit_config \<Rightarrow> 'w daemon \<Rightarrow> 'w daemon" where
  "update_unit m name unit d = register_unit m name unit (unregister_unit m name d)"

section \<open>Discovery and timers\<close>

definition discovered :: "(string \<Rightarrow> string \<Rightarrow> bool) \<Rightarrow> unit_config \<Rightarrow> string \<Rightarrow> bool" where
  "discovered re unit name \<longleftrightarrow>
     has_suffix name (''.'' @ uc_type unit) \<and>
     match_instance re unit (extract_instance name (template_prefix unit) (uc_type unit))"

definition discover_instances ::
  "('w, 'e) manager \<Rightarrow> (string \<Rightarrow> string \<Rightarrow> bool) \<Rightarrow> unit_config \<Rightarrow> 'w daemon \<Rightarrow> 'w daemon" where
  "discover_instances m re unit d =
     (case mg_list_units m (template_prefix unit) (dm_world d) of
        Inl e \<Rightarrow> d
      | Inr units \<Rightarrow> fold (\<lambda>name. register_unit m name unit) (filter (discovered re unit) units) d)"

definition has_discoverable_units :: "config \<Rightarrow> bool" where
  "has_discoverable_units cfg \<longleftrightarrow> (\<exists>u \<in> set (cfg_units cfg). is_enabled u \<and> is_template u)"

definition discovery_tick :: "('w, 'e) manager \<Rightarrow> (string \<Rightarrow> string \<Rightarrow> bool) \<Rightarrow> 'w daemon \<Rightarrow> 'w daemon" where
  "discovery_tick m re d =
     fold (discover_instances m re) (filter (\<lambda>u. is_enabled u \<and> is_template u) (cfg_units (dm_cfg d))) d"

definition has_timer_monitoring :: "config \<Rightarrow> bool" where
  "has_timer_monitoring cfg \<longleftrightarrow>
     (\<exists>u \<in> set (cfg_units cfg). is_enabled u \<and> uc_type u = ''timer'' \<and> uc_max_delay u > 0)"

definition timer_interval :: "config \<Rightarrow> duration" where
  "timer_interval cfg = (if cfg_discovery_interval cfg = 0 then 30 * second else cfg_discovery_interval cfg)"

definition timer_overdue :: "instant \<Rightarrow> unit_config \<Rightarrow> instant \<Rightarrow> bool" where
  "timer_overdue now u last_trigger \<longleftrightarrow> last_trigger \<noteq> zero_time \<and> time_sub now last_trigger > uc_max_delay u"

definition check_timer :: "('w, 'e) manager \<Rightarrow> instant \<Rightarrow> unit_config \<Rightarrow> 'w \<Rightarrow> 'w" where
  "check_timer m now u w =
     (if \<not> is_enabled u \<or> uc_type u \<noteq> ''timer'' \<or> uc_max_delay u = 0 then w
      else
        (case mg_last_trigger m (unit_name u) w of
           Inl e \<Rightarrow> w
         | Inr last_trigger \<Rightarrow>
             if timer_overdue now u last_trigger then snd (mg_restart m (unit_name u) w) else w))"

definition check_timers :: "('w, 'e) manager \<Rightarrow> 'w daemon \<Rightarrow> 'w daemon" where
  "check_timers m d =
     d\<lparr>dm_world := fold (check_timer m (rs_now (dm_rs d))) (cfg_units (dm_cfg d)) (dm_world d)\<rparr>"

section \<open>Reload\<close>

definition sd_message :: "string \<Rightarrow> 'w daemon \<Rightarrow> 'w daemon" where
  "sd_message msg d = d\<lparr>dm_sd_messages := dm_sd_messages d @ [msg]\<rparr>"

definition new_units :: "config \<Rightarrow> unit_config gomap" where
  "new_units cfg =
     fold (\<lambda>u. AList.update (unit_name u) u) (filter (\<lambda>u. is_enabled u \<and> \<not> is_template u) (cfg_units cfg)) []"

definition templates_of :: "config \<Rightarrow> unit_config list" where
  "templates_of cfg = filter (\<lambda>u. is_enabled u \<and> is_template u) (cfg_units cfg)"

definition reload_old ::
  "('w, 'e) manager \<Rightarrow> (string \<Rightarrow> string \<Rightarrow> bool) \<Rightarrow> config \<Rightarrow> string \<Rightarrow> 'w daemon \<Rightarrow> 'w daemon" where
  "reload_old m re cfg name d =
     (if map_of (new_units cfg) name \<noteq> None then d
      else
        (case find_matching_template re name (templates_of cfg) of
           Some tmpl \<Rightarrow> update_unit m name tmpl d
         | None \<Rightarrow> unregister_unit m name d))"

definition reload_new :: "('w, 'e) manager \<Rightarrow> string \<times> unit_config \<Rightarrow> 'w daemon \<Rightarrow> 'w daemon" where
  "reload_new m p d =
     (case p of (name, unit) \<Rightarrow>
        if map_of (dm_registered d) name = None then register_unit m name unit d else update_unit m name unit d)"

definition reload_units ::
  "('w, 'e) manager \<Rightarrow> (string \<Rightarrow> string \<Rightarrow> bool) \<Rightarrow> (unit_config gomap \<Rightarrow> unit_config gomap) \<Rightarrow> config
   \<Rightarrow> 'w daemon \<Rightarrow> 'w daemon" where
  "reload_units m re ord_new cfg d =
     (let d2 = fold (reload_old m re cfg) (map fst (dm_registered d)) d;
          d3 = on_rs (DoSetDependents (build_dependents (cfg_units cfg))) d2;
          d4 = fold (reload_new m) (ord_new (new_units cfg)) d3
      in fold (discover_instances m re) (templates_of cfg) d4)"

definition reload_loops :: "'w daemon \<Rightarrow> 'w daemon" where
  "reload_loops d =
     (let cfg = dm_cfg d;
          d1 = (if \<not> dm_discovery_running d \<and> has_discoverable_units cfg
                then d\<lparr>dm_discovery_running := True, dm_discovery_every := cfg_discovery_interval cfg\<rparr>
                else d\<lparr>dm_discovery_reload := True\<rparr>)
      in if \<not> dm_timer_running d1 \<and> has_timer_monitoring cfg
         then d1\<lparr>dm_timer_running := True, dm_timer_every := timer_interval cfg\<rparr>
         else d1\<lparr>dm_timer_reload := True\<rparr>)"

text \<open>
  \<open>loaded\<close> is what \<^verbatim>\<open>config.Load\<close> returns, the text of its error or the configuration; \<open>ord_new\<close> is the
  order in which Go ranges over the map of new units.
\<close>

definition reload ::
  "('w, 'e) manager \<Rightarrow> (string \<Rightarrow> string \<Rightarrow> bool) \<Rightarrow> (unit_config gomap \<Rightarrow> unit_config gomap)
   \<Rightarrow> string + config \<Rightarrow> 'w daemon \<Rightarrow> 'w daemon" where
  "reload m re ord_new loaded d =
     (let d0 = sd_message ''RELOADING=1'' d in
      case loaded of
        Inl err \<Rightarrow> sd_message ''READY=1'' (sd_message (''STATUS=reload failed: '' @ err) d0)
      | Inr cfg \<Rightarrow>
          (let d1 = d0\<lparr>dm_log_level := setup_logging (cfg_log_level cfg),
                      dm_notifier := update_config (cfg_notify cfg) (dm_notifier d0)\<rparr>;
               d2 = reload_units m re ord_new cfg d1
           in sd_message ''READY=1'' (reload_loops (d2\<lparr>dm_cfg := cfg\<rparr>))))"

text \<open>One turn of \<^verbatim>\<open>discoveryLoop\<close> and \<^verbatim>\<open>timerMonitorLoop\<close>: a tick, or a reload notice that resets the ticker.\<close>

definition discovery_reset :: "'w daemon \<Rightarrow> 'w daemon" where
  "discovery_reset d =
     (if dm_discovery_reload d
      then d\<lparr>dm_discovery_reload := False, dm_discovery_every := cfg_discovery_interval (dm_cfg d)\<rparr>
      else d)"

definition timer_reset :: "'w daemon \<Rightarrow> 'w daemon" where
  "timer_reset d =
     (if dm_timer_reload d
      then d\<lparr>dm_timer_reload := False, dm_timer_every := timer_interval (dm_cfg d)\<rparr>
      else d)"

definition discovery_loop_turn ::
  "('w, 'e) manager \<Rightarrow> (string \<Rightarrow> string \<Rightarrow> bool) \<Rightarrow> bool \<Rightarrow> 'w daemon \<Rightarrow> 'w daemon" where
  "discovery_loop_turn m re tick d =
     (if tick then discovery_tick m re d else discovery_reset d)"

definition timer_loop_turn :: "('w, 'e) manager \<Rightarrow> bool \<Rightarrow> 'w daemon \<Rightarrow> 'w daemon" where
  "timer_loop_turn m tick d =
     (if tick then check_timers m d else timer_reset d)"

section \<open>Event loop and start-up\<close>

datatype loop_input =
  LoopContextDone
| Hangup "string + config"
| Terminated
| StateChangeArrives state_change
| HealthArrives string bool

text \<open>One turn of \<^verbatim>\<open>eventLoop\<close>, and whether it returns. A termination signal cancels the daemon's context.\<close>

definition event_step ::
  "('w, 'e) manager \<Rightarrow> (string \<Rightarrow> string \<Rightarrow> bool) \<Rightarrow> (unit_config gomap \<Rightarrow> unit_config gomap)
   \<Rightarrow> loop_input \<Rightarrow> 'w daemon \<Rightarrow> bool \<times> 'w daemon" where
  "event_step m re ord_new i d =
     (case i of
        LoopContextDone \<Rightarrow> (True, sd_message ''STOPPING=1'' d)
      | Hangup loaded \<Rightarrow> (False, reload m re ord_new loaded d)
      | Terminated \<Rightarrow>
          (False, (sd_message ''STOPPING=1'' d)\<lparr>dm_ctxs := map (\<lambda>b. True) (dm_ctxs d)\<rparr>)
      | StateChangeArrives c \<Rightarrow> (False, state_changed (ch_unit_name c) (ch_active_state c) (ch_sub_state c) d)
      | HealthArrives u h \<Rightarrow> (False, health_changed u h d))"

definition daemon_new :: "string list \<Rightarrow> instant \<Rightarrow> 'w \<Rightarrow> config \<Rightarrow> 'w daemon" where
  "daemon_new environ now w cfg =
     \<lparr>dm_cfg = cfg, dm_registered = [], dm_critical = [], dm_cancels = [], dm_monitors = [], dm_ctxs = [],
      dm_tasks = [],
      dm_rs = \<lparr>rs_now = now, rs_restarter = set_dependents (build_dependents (cfg_units cfg)) restarter_new,
               rs_sm = on_event RestarterHandler (on_event NotifierHandler sm_new), rs_jobs = [], rs_log = []\<rparr>,
      dm_notifier = notifier_new (cfg_notify cfg), dm_environ = environ, dm_deliveries = [],
      dm_sd_messages = [], dm_log_level = setup_logging (cfg_log_level cfg),
      dm_discovery_running = False, dm_timer_running = False, dm_discovery_reload = False,
      dm_timer_reload = False, dm_discovery_every = 0, dm_timer_every = 0, dm_world = w\<rparr>"

definition start_unit ::
  "('w, 'e) manager \<Rightarrow> (string \<Rightarrow> string \<Rightarrow> bool) \<Rightarrow> unit_config \<Rightarrow> 'w daemon \<Rightarrow> 'w daemon" where
  "start_unit m re u d =
     (if \<not> is_enabled u then d
      else if is_template u then discover_instances m re u d
      else register_unit m (unit_name u) u d)"

definition start_loops :: "'w daemon \<Rightarrow> 'w daemon" where
  "start_loops d =
     (let cfg = dm_cfg d;
          d1 = (if has_discoverable_units cfg
                then d\<lparr>dm_discovery_running := True, dm_discovery_every := cfg_discovery_interval cfg\<rparr> else d)
      in if has_timer_monitoring cfg
         then d1\<lparr>dm_timer_running := True, dm_timer_every := timer_interval cfg\<rparr> else d1)"

datatype 'x run_error =
  LoadingConfig string
| SocketListenerFailed 'x
| HttpServerFailed 'x
| SocketActivationFailed 'x

text \<open>What the listeners answer when they are opened.\<close>

record 'x listen_env =
  le_socket :: "string \<Rightarrow> 'x option"
  le_http :: "string \<Rightarrow> 'x option"
  le_activation :: "socket_activation_config list \<Rightarrow> 'x option"

definition start_listeners :: "'x listen_env \<Rightarrow> config \<Rightarrow> 'x run_error + unit" where
  "start_listeners env cfg =
     (case le_socket env (cfg_socket cfg) of
        Some e \<Rightarrow> Inl (SocketListenerFailed e)
      | None \<Rightarrow>
     (case (if http_enabled (cfg_http cfg) then le_http env (ht_listen (cfg_http cfg)) else None) of
        Some e \<Rightarrow> Inl (HttpServerFailed e)
      | None \<Rightarrow>
     (case (if cfg_socket_activation cfg \<noteq> [] then le_activation env (cfg_socket_activation cfg) else None) of
        Some e \<Rightarrow> Inl (SocketActivationFailed e)
      | None \<Rightarrow> Inr ())))"

text \<open>
  The manager that \<^verbatim>\<open>Run\<close> chooses, and the parts it hands it to: the daemon itself, the
  restarter, the activators.
\<close>

record ('w, 'e) wiring =
  wi_daemon :: "('w, 'e) manager"
  wi_restarter :: "('w, 'e) manager"
  wi_activators :: "('w, 'e) manager"

definition wire :: "bool \<Rightarrow> ('w, 'e) manager \<Rightarrow> ('w, 'e) wiring" where
  "wire dry_run real =
     (let m = (if dry_run then dry_run_manager real else real)
      in \<lparr>wi_daemon = m, wi_restarter = m, wi_activators = m\<rparr>)"

lemma wire_manager:
  "wi_daemon (wire dry_run real) = (if dry_run then dry_run_manager real else real)"
  "wi_restarter (wire dry_run real) = wi_daemon (wire dry_run real)"
  "wi_activators (wire dry_run real) = wi_daemon (wire dry_run real)"
  by (simp_all add: wire_def Let_def)

text \<open>An activator's calls of its \<^verbatim>\<open>UnitController\<close>.\<close>

definition controller_start :: "('w, 'e) manager \<Rightarrow> string \<Rightarrow> 'w daemon \<Rightarrow> 'e option \<times> 'w daemon" where
  "controller_start m unit d = (case mg_start m unit (dm_world d) of (err, w) \<Rightarrow> (err, d\<lparr>dm_world := w\<rparr>))"

definition controller_stop :: "('w, 'e) manager \<Rightarrow> string \<Rightarrow> 'w daemon \<Rightarrow> 'e option \<times> 'w daemon" where
  "controller_stop m unit d = (case mg_stop m unit (dm_world d) of (err, w) \<Rightarrow> (err, d\<lparr>dm_world := w\<rparr>))"

definition daemon_start ::
  "('w, 'e) manager \<Rightarrow> bool \<Rightarrow> (string \<Rightarrow> string \<Rightarrow> bool) \<Rightarrow> 'x listen_env \<Rightarrow> string list \<Rightarrow> instant
   \<Rightarrow> string + config \<Rightarrow> 'w \<Rightarrow> 'x run_error + 'w daemon" where
  "daemon_start real dry_run re env environ now loaded w =
     (case loaded of
        Inl err \<Rightarrow> Inl (LoadingConfig err)
      | Inr cfg \<Rightarrow>
          (let m = wi_daemon (wire dry_run real);
               d = start_loops (fold (start_unit m re) (cfg_units cfg) (daemon_new environ now w cfg))
           in bind_err (start_listeners env cfg) (\<lambda>_. Inr (sd_message ''READY=1'' d))))"

end
