(* ===== verification/LoadedChecks.thy ===== *)
theory LoadedChecks
  imports ConfigLoad Daemon
begin

text \<open>
  From the configuration file to the probes: what \<^verbatim>\<open>Load\<close> accepts, \<^verbatim>\<open>ResolveHealthChecks\<close>
  resolves and \<^verbatim>\<open>registerUnit\<close> hands to a checker can be probed. The struct validator is
  not part of the repository; what is used of it is what it documents of the tags on
  \<^verbatim>\<open>HealthCheck\<close>.
\<close>

section \<open>The validator's tags\<close>

text \<open>The tags on \<^verbatim>\<open>HealthCheck\<close>: \<^verbatim>\<open>oneof\<close>, \<^verbatim>\<open>omitempty,min\<close> and \<^verbatim>\<open>required_if\<close>.\<close>

definition tags_hold :: "health_check \<Rightarrow> bool" where
  "tags_hold c \<longleftrightarrow>
     hc_type c \<in> {''tcp'', ''http'', ''unix'', ''script''}
     \<and> (hc_interval c = 0 \<or> second \<le> hc_interval c) \<and> (hc_timeout c = 0 \<or> second \<le> hc_timeout c)
     \<and> (hc_retries c = 0 \<or> 1 \<le> hc_retries c)
     \<and> (hc_type c = ''tcp'' \<longrightarrow> hc_tcp c \<noteq> None) \<and> (hc_type c = ''http'' \<longrightarrow> hc_http c \<noteq> None)
     \<and> (hc_type c = ''unix'' \<longrightarrow> hc_unix c \<noteq> None) \<and> (hc_type c = ''script'' \<longrightarrow> hc_script c \<noteq> None)"

definition validates_checks :: "load_env \<Rightarrow> bool" where
  "validates_checks env \<longleftrightarrow>
     (\<forall>u. le_validate_unit env u = Valid \<longrightarrow> list_all tags_hold (uc_health_checks u))
     \<and> (\<forall>c. le_validate_config env c = Valid \<longrightarrow>
          (\<forall>s \<in> set (cfg_socket_activation c). list_all tags_hold (sa_health_checks s)))"

section \<open>What a check probes\<close>

text \<open>The address or command that the probe of the check's type uses.\<close>

definition probe_target :: "health_check \<Rightarrow> string option" where
  "probe_target c =
     (if hc_type c = ''tcp'' then map_option tcp_address (hc_tcp c)
      else if hc_type c = ''http'' then map_option http_address (hc_http c)
      else if hc_type c = ''unix'' then map_option unix_address (hc_unix c)
      else if hc_type c = ''script'' then map_option script_command (hc_script c)
      else None)"

definition own_block_only :: "health_check \<Rightarrow> bool" where
  "own_block_only c \<longleftrightarrow>
     (hc_type c \<noteq> ''tcp'' \<longrightarrow> hc_tcp c = None) \<and> (hc_type c \<noteq> ''http'' \<longrightarrow> hc_http c = None)
     \<and> (hc_type c \<noteq> ''unix'' \<longrightarrow> hc_unix c = None) \<and> (hc_type c \<noteq> ''script'' \<longrightarrow> hc_script c = None)"

definition check_ready :: "'e net_env \<Rightarrow> health_check \<Rightarrow> bool" where
  "check_ready net c \<longleftrightarrow>
     probe net c \<noteq> NilDeref \<and> (\<forall>t. probe net c \<noteq> Fail (UnknownType t))
     \<and> second \<le> hc_interval c \<and> second \<le> hc_timeout c \<and> 1 \<le> hc_retries c"

lemma known_type:
  "check_tcp net d tcp \<noteq> Fail (UnknownType t)" "check_http net d http \<noteq> Fail (UnknownType t)"
  "check_unix net d unix \<noteq> Fail (UnknownType t)" "check_script net d script \<noteq> Fail (UnknownType t)"
proof -
  have close: "close_result r \<noteq> Fail (UnknownType t)" for r by (cases r) (simp_all add: close_result_def)
  show "check_tcp net d tcp \<noteq> Fail (UnknownType t)" "check_unix net d unix \<noteq> Fail (UnknownType t)"
    by (simp_all add: check_tcp_def check_unix_def close split: sum.split)
  show "check_http net d http \<noteq> Fail (UnknownType t)"
    unfolding check_http_def Let_def by (auto split: option.split sum.split)
  show "check_script net d script \<noteq> Fail (UnknownType t)"
    unfolding check_script_def by (auto split: option.split prod.split)
qed

lemma tags_probe:
  assumes "tags_hold c"
  shows "probe net c \<noteq> NilDeref" "probe net c \<noteq> Fail (UnknownType t)"
proof -
  show "probe net c \<noteq> NilDeref" by (rule probe_total) (use assms in \<open>auto simp: tags_hold_def\<close>)
  from assms consider "hc_type c = ''tcp''" "hc_tcp c \<noteq> None" | "hc_type c = ''http''" "hc_http c \<noteq> None"
    | "hc_type c = ''unix''" "hc_unix c \<noteq> None" | "hc_type c = ''script''" "hc_script c \<noteq> None"
    unfolding tags_hold_def by blast
  then show "probe net c \<noteq> Fail (UnknownType t)" by cases (auto simp: probe_def known_type)
qed

lemma tags_resolve: "tags_hold (resolve_health_check inst c) = tags_hold c"
  by (simp add: tags_hold_def resolve_keeps_blocks)

lemma resolve_target:
  assumes "tags_hold c" "own_block_only c"
  shows "probe_target (resolve_health_check inst c) = map_option (subst_instance inst) (probe_target c)"
proof -
  from assms consider "hc_type c = ''tcp''" "\<exists>b. hc_tcp c = Some b"
    | "hc_type c = ''http''" "hc_tcp c = None" "\<exists>b. hc_http c = Some b"
    | "hc_type c = ''unix''" "hc_tcp c = None" "hc_http c = None" "\<exists>b. hc_unix c = Some b"
    | "hc_type c = ''script''" "hc_tcp c = None" "hc_http c = None" "hc_unix c = None" "\<exists>b. hc_script c = Some b"
    unfolding tags_hold_def own_block_only_def by fastforce
  then show ?thesis by cases (auto simp: probe_target_def resolve_health_check_def)
qed

lemma tags_ready:
  assumes "tags_hold c" "hc_interval c \<noteq> 0" "hc_timeout c \<noteq> 0" "hc_retries c \<noteq> 0"
  shows "check_ready net c"
  using assms tags_probe [OF assms(1)] by (auto simp: check_ready_def tags_hold_def)

section \<open>Loaded configurations\<close>

lemma loaded_unit_checks:
  assumes "load env path = Inr cfg" "validates_checks env" "u \<in> set (cfg_units cfg)" "c \<in> set (uc_health_checks u)"
  shows "tags_hold c"
proof -
  from assms(1) obtain data raw units sockets us where
    valid: "list_all (\<lambda>u. le_validate_unit env u = Valid) (map apply_defaults units)"
    and vt: "validate_templates (le_re_compile env) (map apply_defaults units) = Inr us"
    and cfg: "cfg = (config_with_defaults raw units sockets)\<lparr>cfg_units := sort_key uc_priority us\<rparr>"
    by (rule load_InrE)
  let ?vs = "map apply_defaults units"
  have rel: "length us = length ?vs" "\<And>i. i < length us \<Longrightarrow> \<exists>m. us ! i = (?vs ! i)\<lparr>uc_instance_match := m\<rparr>"
    using validate_templates_frame [OF vt] unfolding list_all2_conv_all_nth by auto
  have "u \<in> set us" using assms(3) cfg by simp
  then obtain i where i: "i < length us" "us ! i = u" by (auto simp: in_set_conv_nth)
  with rel(1) have "?vs ! i \<in> set ?vs" by (intro nth_mem) simp
  with i rel(2) obtain v m where "v \<in> set ?vs" "u = v\<lparr>uc_instance_match := m\<rparr>" by metis
  then have "le_validate_unit env v = Valid" "uc_health_checks u = uc_health_checks v"
    using valid by (auto simp: list_all_iff)
  then show ?thesis using assms(2,4) by (simp add: validates_checks_def list_all_iff)
qed

lemma loaded_socket_checks:
  assumes "load env path = Inr cfg" "validates_checks env" "s \<in> set (cfg_socket_activation cfg)"
    "c \<in> set (sa_health_checks s)"
  shows "tags_hold c"
proof -
  from assms(1) obtain data raw units sockets us where
    valid: "le_validate_config env (config_with_defaults raw units sockets) = Valid"
    and cfg: "cfg = (config_with_defaults raw units sockets)\<lparr>cfg_units := sort_key uc_priority us\<rparr>"
    by (rule load_InrE)
  then have "s \<in> set (cfg_socket_activation (config_with_defaults raw units sockets))" using assms(3) by simp
  then show ?thesis using valid assms(2,4) by (simp add: validates_checks_def list_all_iff)
qed

lemma loaded_checks_wf:
  assumes "config_wf cfg"
  shows "u \<in> set (cfg_units cfg) \<Longrightarrow> c \<in> set (uc_health_checks u) \<Longrightarrow> health_check_wf c"
    and "s \<in> set (cfg_socket_activation cfg) \<Longrightarrow> c \<in> set (sa_health_checks s) \<Longrightarrow> health_check_wf c"
  using assms by (auto simp: config_wf_def unit_wf_def socket_wf_def list_all_iff)

definition resolves_to :: "'e net_env \<Rightarrow> unit_config \<Rightarrow> string \<Rightarrow> health_check \<Rightarrow> health_check \<Rightarrow> bool" where
  "resolves_to net u name c c' \<longleftrightarrow>
     hc_type c' = hc_type c \<and> hc_interval c' = hc_interval c \<and> hc_timeout c' = hc_timeout c
     \<and> hc_retries c' = hc_retries c \<and> check_ready net c'
     \<and> (if is_template u
        then own_block_only c \<longrightarrow> probe_target c' =
          map_option (subst_instance (extract_instance name (template_prefix u) (uc_type u))) (probe_target c)
        else c' = c)"

lemma resolves_to_checks:
  assumes "\<And>c. c \<in> set (uc_health_checks u) \<Longrightarrow> tags_hold c \<and> health_check_wf c"
  shows "list_all2 (resolves_to net u name) (uc_health_checks u) (checks_for name u)"
proof (cases "is_template u")
  case True
  let ?i = "extract_instance name (template_prefix u) (uc_type u)"
  have "resolves_to net u name c (resolve_health_check ?i c)" if "c \<in> set (uc_health_checks u)" for c
    using assms [OF that] True
    by (auto simp: resolves_to_def resolve_target health_check_wf_def tags_resolve intro!: tags_ready)
  moreover have "checks_for name u = map (resolve_health_check ?i) (uc_health_checks u)"
    using True by (simp add: checks_for_def resolve_health_checks_def)
  ultimately show ?thesis by (simp add: list_all2_map2 list.rel_refl_strong)
next
  case False
  have "resolves_to net u name c c" if "c \<in> set (uc_health_checks u)" for c
    using assms [OF that] False by (auto simp: resolves_to_def health_check_wf_def intro!: tags_ready)
  with False show ?thesis by (simp add: checks_for_def list.rel_refl_strong)
qed

text \<open>C38. The checks of a configuration that loads can be run, given a validator that holds to the tags
  on \<^verbatim>\<open>HealthCheck\<close>. For every unit, under every name it is registered with, the
  checker gets one check per configured check, in order, of the same type, interval, timeout and retries;
  its probe neither dereferences a nil block nor meets an unknown type, its interval and timeout
  are at least a second and its retries at least one. A template's check with no block but that of
  its own type probes its address or command with the instance in place of every placeholder; a plain
  unit's checks are as configured. The checks of the socket-activation entries can be run too.\<close>

theorem loaded_checks_can_run:
  assumes "load env path = Inr cfg" "validates_checks env"
  shows "(\<forall>u \<in> set (cfg_units cfg). list_all2 (resolves_to net u name) (uc_health_checks u) (checks_for name u))
    \<and> (\<forall>s \<in> set (cfg_socket_activation cfg). list_all (check_ready net) (sa_health_checks s))"
proof (intro conjI ballI)
  note wf = loaded_checks_wf [OF load_wf [OF assms(1)]]
  show "list_all2 (resolves_to net u name) (uc_health_checks u) (checks_for name u)" if "u \<in> set (cfg_units cfg)" for u
    using loaded_unit_checks [OF assms that] wf(1) [OF that] by (intro resolves_to_checks) blast
  show "list_all (check_ready net) (sa_health_checks s)" if "s \<in> set (cfg_socket_activation cfg)" for s
    using loaded_socket_checks [OF assms that] wf(2) [OF that]
    by (auto simp: list_all_iff health_check_wf_def intro!: tags_ready)
qed

text \<open>One template whose only check is given without interval, timeout and retries.\<close>

definition template_check :: health_check where
  "template_check = \<lparr>hc_type = ''tcp'', hc_interval = 0, hc_timeout = 0, hc_retries = 0,
     hc_tcp = Some \<lparr>tcp_address = ''{{instance}}:80''\<rparr>, hc_http = None, hc_unix = None, hc_script = None\<rparr>"

definition checks_env :: load_env where
  "checks_env = sample_env\<lparr>
     le_unmarshal := (\<lambda>d. Inr (sample_raw\<lparr>raw_units := YamlNode MappingNode [] [scalar ''web@.service'', scalar ''w'']\<rparr>)),
     le_decode_unit := (\<lambda>n. Inr ((plain_unit [] [] [])\<lparr>uc_health_checks := [template_check]\<rparr>)),
     le_validate_unit := (\<lambda>u. if list_all tags_hold (uc_health_checks u) then Valid else OtherError ''invalid''),
     le_validate_config := (\<lambda>c. if cfg_socket_activation c = [] then Valid else OtherError ''invalid'')\<rparr>"

definition checks_unit :: unit_config where
  "checks_unit = (case load checks_env ''config.yaml'' of Inr c \<Rightarrow> hd (cfg_units c))"

definition dead_net :: "string net_env" where
  "dead_net = \<lparr>ne_dial = \<lambda>t n a. Inl ''refused'', ne_new_request = \<lambda>m a. None,
     ne_http = \<lambda>t m a h. Inl ''refused'', ne_script = \<lambda>t c. ([], None)\<rparr>"

theorem loaded_checks_can_run_witness:
  "\<exists>cfg c. load checks_env ''config.yaml'' = Inr cfg \<and> cfg_units cfg = [checks_unit]
     \<and> checks_for ''web@blue.service'' checks_unit = [c] \<and> check_ready dead_net c
     \<and> probe_target c = Some ''blue:80'' \<and> hc_interval c = 10 * second"
proof -
  have valid: "validates_checks checks_env"
    by (auto simp: validates_checks_def checks_env_def split: if_splits)
  have l: "case load checks_env ''config.yaml'' of Inl e \<Rightarrow> False | Inr c \<Rightarrow> cfg_units c = [checks_unit]" by code_simp
  then obtain cfg where cfg: "load checks_env ''config.yaml'' = Inr cfg" "cfg_units cfg = [checks_unit]"
    by (cases "load checks_env ''config.yaml''") auto
  have u: "uc_health_checks checks_unit = [default_health_check template_check]" "is_template checks_unit"
    "template_prefix checks_unit = ''web@''" "uc_type checks_unit = ''service''"
    by code_simp+
  have t: "probe_target (default_health_check template_check) = Some ''{{instance}}:80''"
    "own_block_only (default_health_check template_check)" "hc_interval (default_health_check template_check) = 10 * second"
    by code_simp+
  have i: "subst_instance (extract_instance ''web@blue.service'' ''web@'' ''service'') ''{{instance}}:80'' = ''blue:80''"
    by code_simp
  from loaded_checks_can_run [OF cfg(1) valid, of dead_net "''web@blue.service''"] cfg(2) u
  obtain c where "checks_for ''web@blue.service'' checks_unit = [c]"
    "resolves_to dead_net checks_unit ''web@blue.service'' (default_health_check template_check) c"
    by (auto simp: list_all2_Cons1)
  then show ?thesis using cfg t i u by (auto simp: resolves_to_def)
qed

text \<open>
  \<^verbatim>\<open>ResolveHealthChecks\<close> resolves the first block that is there, not the one of the check's
  type: an http check that also has a tcp block probes the unresolved placeholder.
\<close>

lemma stray_block_left_unresolved:
  "let c = template_check\<lparr>hc_type := ''http'',
       hc_http := Some \<lparr>http_address = ''http://{{instance}}/'', http_method = [], http_expected_status = 0,
         http_response_match = [], http_headers = []\<rparr>\<rparr> in
   tags_hold c \<and> probe_target (resolve_health_check ''blue'' c) = Some ''http://{{instance}}/''"
  by code_simp

end
