(* ===== verification/Activator.thy ===== *)
theory Activator
  imports HealthChecker
begin

text \<open>
  \<^verbatim>\<open>internal/socketactivation\<close>: one listener's activator, from
  \<^verbatim>\<open>activator.go\<close>, \<^verbatim>\<open>health.go\<close>, \<^verbatim>\<open>monitor.go\<close>, \<^verbatim>\<open>status.go\<close> and
  \<^verbatim>\<open>manager.go\<close>. This theory has its state and its critical sections, one function
  each; \<open>ActivatorSystem\<close> interleaves them. A channel is an index into \<open>ac_chans\<close>, which says
  which ones are closed; \<open>None\<close> is the nil channel. Closing a nil or closed channel is a panic,
  recorded in \<open>ac_panicked\<close>. The supervisor, the unit controller, the dialer and the sockets are
  outside; what the activator asks of the supervisor is returned as a list of calls.
\<close>

section \<open>Readiness probe\<close>

definition checks_probe :: "'e net_env \<Rightarrow> health_check list \<Rightarrow> 'e probe_result list" where
  "checks_probe env checks = filter (\<lambda>r. r \<noteq> Pass) (map (probe env) checks)"

fun poll_interval_loop :: "duration \<Rightarrow> health_check list \<Rightarrow> duration" where
  "poll_interval_loop interval [] = interval"
| "poll_interval_loop interval (c # cs) =
     poll_interval_loop (if interval = 0 \<or> hc_interval c < interval then hc_interval c else interval) cs"

definition poll_interval :: "health_check list \<Rightarrow> duration" where
  "poll_interval checks =
     (let interval = poll_interval_loop 0 checks in if interval \<le> 0 then second else interval)"

section \<open>Monitor\<close>

record unit_monitor =
  um_unit :: string
  um_checks :: "health_check list"
  um_policy :: restart_policy
  um_cancel :: bool

datatype sup_call = Watch string "health_check list" restart_policy | CancelWatch string | Unwatch string

definition new_unit_monitor :: "string \<Rightarrow> health_check list \<Rightarrow> restart_policy \<Rightarrow> unit_monitor" where
  "new_unit_monitor unit checks policy =
     \<lparr>um_unit = unit, um_checks = checks, um_policy = policy, um_cancel = False\<rparr>"

definition um_start :: "unit_monitor \<Rightarrow> unit_monitor \<times> sup_call list" where
  "um_start m = (m\<lparr>um_cancel := True\<rparr>, [Watch (um_unit m) (um_checks m) (um_policy m)])"

definition um_stop :: "unit_monitor \<Rightarrow> unit_monitor \<times> sup_call list" where
  "um_stop m =
     (m\<lparr>um_cancel := False\<rparr>, (if um_cancel m then [CancelWatch (um_unit m)] else []) @ [Unwatch (um_unit m)])"

section \<open>Activator\<close>

type_synonym chan = "nat option"

datatype 'e act_error =
  StartingUnit string 'e | NotHealthyWithin string duration | BackendFailedToStart | ContextDone

record 'e activator =
  ac_cfg :: socket_activation_config
  ac_probe :: "health_check list option"
  ac_monitor :: "unit_monitor option"
  ac_running :: bool
  ac_starting :: bool
  ac_stopping :: bool
  ac_start_err :: "'e act_error option"
  ac_active :: int
  ac_last_active :: instant
  ac_start_wait :: chan
  ac_stop_wait :: chan
  ac_chans :: "bool list"
  ac_panicked :: bool

text \<open>\<^verbatim>\<open>New\<close>; \<open>has_sup\<close> says whether a supervisor is given.\<close>

definition activator_new :: "socket_activation_config \<Rightarrow> bool \<Rightarrow> 'e activator" where
  "activator_new cfg has_sup =
     \<lparr>ac_cfg = cfg,
      ac_probe = (if sa_health_checks cfg \<noteq> [] then Some (sa_health_checks cfg) else None),
      ac_monitor =
        (if sa_health_checks cfg \<noteq> [] \<and> has_sup then
           Some (new_unit_monitor (sa_unit cfg) (sa_health_checks cfg)
             (case sa_restart cfg of
                None \<Rightarrow> \<lparr>rp_enabled = False, rp_backoff = 0, rp_cooldown = 0\<rparr>
              | Some p \<Rightarrow> p))
         else None),
      ac_running = False, ac_starting = False, ac_stopping = False, ac_start_err = None,
      ac_active = 0, ac_last_active = zero_time, ac_start_wait = None, ac_stop_wait = None,
      ac_chans = [], ac_panicked = False\<rparr>"

definition is_closed :: "'e activator \<Rightarrow> chan \<Rightarrow> bool" where
  "is_closed a c = (case c of None \<Rightarrow> False | Some n \<Rightarrow> n < length (ac_chans a) \<and> ac_chans a ! n)"

definition close_chan :: "chan \<Rightarrow> 'e activator \<Rightarrow> 'e activator" where
  "close_chan c a =
     (case c of
        None \<Rightarrow> a\<lparr>ac_panicked := True\<rparr>
      | Some n \<Rightarrow>
          if is_closed a c then a\<lparr>ac_panicked := True\<rparr> else a\<lparr>ac_chans := (ac_chans a)[n := True]\<rparr>)"

definition start_monitor :: "'e activator \<Rightarrow> 'e activator \<times> sup_call list" where
  "start_monitor a =
     (case ac_monitor a of
        None \<Rightarrow> (a, [])
      | Some m \<Rightarrow> (case um_start m of (m', calls) \<Rightarrow> (a\<lparr>ac_monitor := Some m'\<rparr>, calls)))"

definition stop_monitor :: "'e activator \<Rightarrow> 'e activator \<times> sup_call list" where
  "stop_monitor a =
     (case ac_monitor a of
        None \<Rightarrow> (a, [])
      | Some m \<Rightarrow> (case um_stop m of (m', calls) \<Rightarrow> (a\<lparr>ac_monitor := Some m'\<rparr>, calls)))"

section \<open>Connections\<close>

definition conn_opened :: "instant \<Rightarrow> 'e activator \<Rightarrow> 'e activator" where
  "conn_opened now a = a\<lparr>ac_active := ac_active a + 1, ac_last_active := now\<rparr>"

definition conn_closed :: "instant \<Rightarrow> 'e activator \<Rightarrow> 'e activator" where
  "conn_closed now a = a\<lparr>ac_active := ac_active a - 1, ac_last_active := now\<rparr>"

definition mark_traffic :: "instant \<Rightarrow> 'e activator \<Rightarrow> 'e activator" where
  "mark_traffic now a = a\<lparr>ac_last_active := now\<rparr>"

section \<open>Ensuring the backend runs\<close>

text \<open>
  \<^verbatim>\<open>ensureRunning\<close>. \<open>ensure_enter\<close> is the critical section at the head of its loop: what the
  caller does next. \<open>ensure_woken\<close> is the one after the wait for another caller's startup, and
  \<open>ensure_finish\<close> the one after the caller's own.
\<close>

datatype ensure_next = WaitForStop chan | BackendRuns | WaitForStart chan | DoStart chan

definition ensure_enter :: "'e activator \<Rightarrow> ensure_next \<times> 'e activator" where
  "ensure_enter a =
     (if ac_stopping a then (WaitForStop (ac_stop_wait a), a)
      else if ac_running a then (BackendRuns, a)
      else if ac_starting a then (WaitForStart (ac_start_wait a), a)
      else
        (let wait = Some (length (ac_chans a)) in
         (DoStart wait,
          a\<lparr>ac_starting := True, ac_start_err := None, ac_start_wait := wait,
            ac_chans := ac_chans a @ [False]\<rparr>)))"

definition ensure_woken :: "'e activator \<Rightarrow> 'e act_error option" where
  "ensure_woken a =
     (if ac_running a then None
      else case ac_start_err a of Some e \<Rightarrow> Some e | None \<Rightarrow> Some BackendFailedToStart)"

definition ensure_finish ::
  "chan \<Rightarrow> 'e act_error option \<Rightarrow> 'e activator \<Rightarrow> 'e activator \<times> sup_call list" where
  "ensure_finish wait err a =
     (let a1 = a\<lparr>ac_starting := False, ac_start_err := err\<rparr> in
      case (if err = None then start_monitor (a1\<lparr>ac_running := True\<rparr>) else (a1, [])) of
        (a2, calls) \<Rightarrow> (close_chan wait a2, calls))"

text \<open>
  \<^verbatim>\<open>startAndWait\<close>: after the unit has been started, one turn of the readiness loop. The probe
  passes, or it fails and the \<^verbatim>\<open>select\<close> picks the ticker, or the end of the wait context: its
  deadline with the caller's context still alive, or the caller's context being done.
\<close>

datatype poll_input = ProbePassed | TickerFired | DeadlineExceeded | CallerDone

datatype 'e poll_next = Ready | PollAgain | StopUnitThenFail "'e act_error" | FailStart "'e act_error"

definition poll_turn :: "poll_input \<Rightarrow> 'e activator \<Rightarrow> 'e poll_next" where
  "poll_turn i a =
     (let err = NotHealthyWithin (sa_unit (ac_cfg a)) (sa_startup_timeout (ac_cfg a)) in
      case i of
        ProbePassed \<Rightarrow> Ready
      | TickerFired \<Rightarrow> PollAgain
      | DeadlineExceeded \<Rightarrow> StopUnitThenFail err
      | CallerDone \<Rightarrow> FailStart err)"

section \<open>Idle stop\<close>

text \<open>\<^verbatim>\<open>idleLoop\<close>'s period, and the critical sections of \<^verbatim>\<open>maybeStopIdle\<close>.\<close>

definition idle_loop_interval :: "socket_activation_config \<Rightarrow> duration" where
  "idle_loop_interval cfg =
     max (if sa_idle_timeout cfg < 0 then - (- sa_idle_timeout cfg div 4) else sa_idle_timeout cfg div 4) second"

definition idle_enter :: "instant \<Rightarrow> 'e activator \<Rightarrow> chan option \<times> 'e activator \<times> sup_call list" where
  "idle_enter now a =
     (if \<not> ac_running a \<or> ac_starting a \<or> ac_stopping a \<or> ac_active a > 0 then (None, a, [])
      else if time_sub now (ac_last_active a) < sa_idle_timeout (ac_cfg a) then (None, a, [])
      else
        (let wait = Some (length (ac_chans a));
             a1 = a\<lparr>ac_stopping := True, ac_stop_wait := wait, ac_chans := ac_chans a @ [False]\<rparr> in
         case stop_monitor a1 of (a2, calls) \<Rightarrow> (Some wait, a2, calls)))"

definition idle_stopped :: "'e activator \<Rightarrow> 'e activator" where
  "idle_stopped a = a\<lparr>ac_running := False\<rparr>"

definition idle_release :: "chan \<Rightarrow> 'e activator \<Rightarrow> 'e activator" where
  "idle_release wait a = close_chan wait (a\<lparr>ac_stopping := False\<rparr>)"

section \<open>Status and listeners\<close>

record status =
  st_name :: string
  st_unit :: string
  st_listen :: string
  st_protocol :: "string list"
  st_backend :: string
  st_running :: bool
  st_active_connections :: int
  st_idle :: duration

text \<open>The idle time is kept as a duration; the code converts it to seconds.\<close>

definition activator_status :: "instant \<Rightarrow> 'e activator \<Rightarrow> status" where
  "activator_status now a =
     \<lparr>st_name = sa_name (ac_cfg a), st_unit = sa_unit (ac_cfg a), st_listen = sa_listen (ac_cfg a),
      st_protocol = sa_protocol (ac_cfg a), st_backend = sa_backend (ac_cfg a),
      st_running = ac_running a, st_active_connections = ac_active a,
      st_idle =
        (if ac_running a \<and> ac_active a = 0 \<and> ac_last_active a \<noteq> zero_time
         then time_sub now (ac_last_active a) else 0)\<rparr>"

definition statuses :: "instant \<Rightarrow> 'e activator list \<Rightarrow> status list" where
  "statuses now as = map (activator_status now) as"

text \<open>
  \<^verbatim>\<open>Activator.Start\<close>, the binding of one listener per protocol: \<open>bind\<close> is the network's answer.
  The result lists the listeners left open; on a failure those bound before are closed.
\<close>

datatype 'e bind_error = UnsupportedProtocol string | ListenError string string 'e

definition start_protocol ::
  "(string \<Rightarrow> string \<Rightarrow> 'e option) \<Rightarrow> socket_activation_config \<Rightarrow> string \<Rightarrow> 'e bind_error + string \<times> string" where
  "start_protocol bind cfg proto =
     (if proto = ''tcp'' \<or> proto = ''udp'' then
        (case bind proto (sa_listen cfg) of
           Some e \<Rightarrow> Inl (ListenError proto (sa_listen cfg) e)
         | None \<Rightarrow> Inr (proto, sa_listen cfg))
      else Inl (UnsupportedProtocol proto))"

fun start_protocols ::
  "(string \<Rightarrow> string \<Rightarrow> 'e option) \<Rightarrow> socket_activation_config \<Rightarrow> string list \<Rightarrow> (string \<times> string) list
   \<Rightarrow> 'e bind_error option \<times> (string \<times> string) list" where
  "start_protocols bind cfg [] bound = (None, bound)"
| "start_protocols bind cfg (p # ps) bound =
     (case start_protocol bind cfg p of
        Inl e \<Rightarrow> (Some e, [])
      | Inr l \<Rightarrow> start_protocols bind cfg ps (bound @ [l]))"

definition activator_start ::
  "(string \<Rightarrow> string \<Rightarrow> 'e option) \<Rightarrow> socket_activation_config \<Rightarrow> 'e bind_error option \<times> (string \<times> string) list" where
  "activator_start bind cfg =
     start_protocols bind cfg (if sa_protocol cfg = [] then [''tcp''] else sa_protocol cfg) []"

text \<open>\<^verbatim>\<open>NewManager\<close>, \<^verbatim>\<open>Enabled\<close> and \<^verbatim>\<open>Manager.Start\<close>: the first failure ends the loop, with the
  listeners of the entries before it left open.\<close>

definition new_manager :: "socket_activation_config list \<Rightarrow> bool \<Rightarrow> 'e activator list" where
  "new_manager entries has_sup = map (\<lambda>c. activator_new c has_sup) entries"

definition manager_enabled :: "'e activator list \<Rightarrow> bool" where
  "manager_enabled as \<longleftrightarrow> as \<noteq> []"

fun manager_start ::
  "(string \<Rightarrow> string \<Rightarrow> 'e option) \<Rightarrow> 'e activator list
   \<Rightarrow> (string \<times> 'e bind_error) option \<times> (string \<times> string) list" where
  "manager_start bind [] = (None, [])"
| "manager_start bind (a # as) =
     (case activator_start bind (ac_cfg a) of
        (Some e, bound) \<Rightarrow> (Some (sa_name (ac_cfg a), e), bound)
      | (None, bound) \<Rightarrow> (case manager_start bind as of (r, bound') \<Rightarrow> (r, bound @ bound')))"

end
