(* ===== verification/ActivatorSystem.thy ===== *)
theory ActivatorSystem
  imports Activator
begin

text \<open>
  The activator under every interleaving: any number of connection handlers (\<^verbatim>\<open>handle\<close>, and
  \<^verbatim>\<open>udpProxy.session\<close>, which brackets \<^verbatim>\<open>ensureRunning\<close> in the same calls) and the idle
  loop. A handler's program counter says where between two critical sections it is; a step runs
  one critical section or takes the answer of the outside world (the unit controller, the probe,
  the dialer, the end of a relay, the end of a context). The supervisor calls are a ghost log,
  newest first.
\<close>

section \<open>Program counters\<close>

datatype 'e pc =
  HEnter
| HWaitStop chan
| HWaitStart chan
| HWoken
| HStart chan
| HPoll chan
| HStopFailed chan "'e act_error"
| HFinish chan "'e act_error option"
| HDial
| HRelay
| HClosing
| HClosed

datatype idle_pc = IIdle | IStop chan | IMark chan | IRelease chan

datatype 'e input =
  Proceed
| ContextEnds
| ControllerAnswers "'e option"
| Polled poll_input
| DialAnswers bool
| TrafficSeen
| RelayEnds

record 'e act_sys =
  as_act :: "'e activator"
  as_handlers :: "'e pc list"
  as_idle :: idle_pc
  as_calls :: "sup_call list"

text \<open>
  One step of \<^verbatim>\<open>handle\<close> at the given counter; \<open>None\<close> where the input does not fit. After a
  failed startup the stop's own error is only logged.
\<close>

definition handler_step ::
  "instant \<Rightarrow> 'e input \<Rightarrow> 'e pc \<Rightarrow> 'e activator \<Rightarrow> ('e pc \<times> 'e activator \<times> sup_call list) option" where
  "handler_step now inp pc a =
     (case pc of
        HEnter \<Rightarrow>
          if inp = Proceed then
            (case ensure_enter a of
               (WaitForStop c, a') \<Rightarrow> Some (HWaitStop c, a', [])
             | (BackendRuns, a') \<Rightarrow> Some (HDial, a', [])
             | (WaitForStart c, a') \<Rightarrow> Some (HWaitStart c, a', [])
             | (DoStart c, a') \<Rightarrow> Some (HStart c, a', []))
          else None
      | HWaitStop c \<Rightarrow>
          if inp = Proceed \<and> is_closed a c then Some (HEnter, a, [])
          else if inp = ContextEnds then Some (HClosing, a, []) else None
      | HWaitStart c \<Rightarrow>
          if inp = Proceed \<and> is_closed a c then Some (HWoken, a, [])
          else if inp = ContextEnds then Some (HClosing, a, []) else None
      | HWoken \<Rightarrow>
          if inp = Proceed then
            (case ensure_woken a of None \<Rightarrow> Some (HDial, a, []) | Some e \<Rightarrow> Some (HClosing, a, []))
          else None
      | HStart c \<Rightarrow>
          (case inp of
             ControllerAnswers (Some e) \<Rightarrow>
               Some (HFinish c (Some (StartingUnit (sa_unit (ac_cfg a)) e)), a, [])
           | ControllerAnswers None \<Rightarrow>
               (case ac_probe a of
                  None \<Rightarrow> Some (HFinish c None, a, [])
                | Some checks \<Rightarrow> Some (HPoll c, a, []))
           | _ \<Rightarrow> None)
      | HPoll c \<Rightarrow>
          (case inp of
             Polled i \<Rightarrow>
               (case poll_turn i a of
                  Ready \<Rightarrow> Some (HFinish c None, a, [])
                | PollAgain \<Rightarrow> Some (HPoll c, a, [])
                | StopUnitThenFail e \<Rightarrow> Some (HStopFailed c e, a, [])
                | FailStart e \<Rightarrow> Some (HFinish c (Some e), a, []))
           | _ \<Rightarrow> None)
      | HStopFailed c e \<Rightarrow>
          (case inp of ControllerAnswers r \<Rightarrow> Some (HFinish c (Some e), a, []) | _ \<Rightarrow> None)
      | HFinish c err \<Rightarrow>
          if inp = Proceed then
            (case ensure_finish c err a of (a', calls) \<Rightarrow>
               Some (if err = None then HDial else HClosing, a', calls))
          else None
      | HDial \<Rightarrow>
          (case inp of DialAnswers ok \<Rightarrow> Some (if ok then HRelay else HClosing, a, []) | _ \<Rightarrow> None)
      | HRelay \<Rightarrow>
          (case inp of
             TrafficSeen \<Rightarrow> Some (HRelay, mark_traffic now a, [])
           | RelayEnds \<Rightarrow> Some (HClosing, a, [])
           | _ \<Rightarrow> None)
      | HClosing \<Rightarrow> if inp = Proceed then Some (HClosed, conn_closed now a, []) else None
      | HClosed \<Rightarrow> None)"

definition idle_step ::
  "instant \<Rightarrow> 'e input \<Rightarrow> idle_pc \<Rightarrow> 'e activator \<Rightarrow> (idle_pc \<times> 'e activator \<times> sup_call list) option" where
  "idle_step now inp pc a =
     (case pc of
        IIdle \<Rightarrow>
          if inp = Proceed then
            (case idle_enter now a of
               (None, a', calls) \<Rightarrow> Some (IIdle, a', calls)
             | (Some c, a', calls) \<Rightarrow> Some (IStop c, a', calls))
          else None
      | IStop c \<Rightarrow>
          (case inp of
             ControllerAnswers None \<Rightarrow> Some (IMark c, a, [])
           | ControllerAnswers (Some e) \<Rightarrow> Some (IRelease c, a, [])
           | _ \<Rightarrow> None)
      | IMark c \<Rightarrow> if inp = Proceed then Some (IRelease c, idle_stopped a, []) else None
      | IRelease c \<Rightarrow> if inp = Proceed then Some (IIdle, idle_release c a, []) else None)"

inductive act_next :: "'e act_sys \<Rightarrow> 'e act_sys \<Rightarrow> bool" where
  opened: "act_next s (s\<lparr>as_act := conn_opened now (as_act s), as_handlers := as_handlers s @ [HEnter]\<rparr>)"
| handler: "i < length (as_handlers s) \<Longrightarrow>
    handler_step now inp (as_handlers s ! i) (as_act s) = Some (pc, a, calls) \<Longrightarrow>
    act_next s (s\<lparr>as_act := a, as_handlers := (as_handlers s)[i := pc], as_calls := rev calls @ as_calls s\<rparr>)"
| idle: "idle_step now inp (as_idle s) (as_act s) = Some (pc, a, calls) \<Longrightarrow>
    act_next s (s\<lparr>as_act := a, as_idle := pc, as_calls := rev calls @ as_calls s\<rparr>)"

inductive_cases act_next_cases: "act_next s t"

definition act_start :: "socket_activation_config \<Rightarrow> bool \<Rightarrow> 'e act_sys" where
  "act_start cfg has_sup =
     \<lparr>as_act = activator_new cfg has_sup, as_handlers = [], as_idle = IIdle, as_calls = []\<rparr>"

definition act_init :: "socket_activation_config \<Rightarrow> bool \<Rightarrow> 'e act_sys \<Rightarrow> bool" where
  "act_init cfg has_sup s \<longleftrightarrow> s = act_start cfg has_sup"

text \<open>The labelled version of the relation, for concrete runs.\<close>

datatype 'e act_label = OpenAt instant | HandlerAt nat instant "'e input" | IdleAt instant "'e input"

fun act_exec :: "'e act_label \<Rightarrow> 'e act_sys \<Rightarrow> 'e act_sys option" where
  "act_exec (OpenAt now) s =
     Some (s\<lparr>as_act := conn_opened now (as_act s), as_handlers := as_handlers s @ [HEnter]\<rparr>)"
| "act_exec (HandlerAt i now inp) s =
     (if i < length (as_handlers s) then
        (case handler_step now inp (as_handlers s ! i) (as_act s) of
           None \<Rightarrow> None
         | Some (pc, a, calls) \<Rightarrow>
             Some (s\<lparr>as_act := a, as_handlers := (as_handlers s)[i := pc], as_calls := rev calls @ as_calls s\<rparr>))
      else None)"
| "act_exec (IdleAt now inp) s =
     (case idle_step now inp (as_idle s) (as_act s) of
        None \<Rightarrow> None
      | Some (pc, a, calls) \<Rightarrow> Some (s\<lparr>as_act := a, as_idle := pc, as_calls := rev calls @ as_calls s\<rparr>))"

fun act_run :: "'e act_label list \<Rightarrow> 'e act_sys \<Rightarrow> 'e act_sys option" where
  "act_run [] s = Some s"
| "act_run (l # ls) s = (case act_exec l s of None \<Rightarrow> None | Some t \<Rightarrow> act_run ls t)"

lemma act_exec_next: "act_exec l s = Some t \<Longrightarrow> act_next s t"
  by (cases l) (auto split: if_splits option.splits intro: act_next.intros)

lemma reach_act_run: "reach init act_next s \<Longrightarrow> act_run ls s = Some t \<Longrightarrow> reach init act_next t"
  by (induction ls arbitrary: s) (auto split: option.splits dest!: act_exec_next intro: reach_step)

section \<open>The invariant\<close>

text \<open>The handler that runs a startup, and the channel it will close.\<close>

fun starter_chan :: "'e pc \<Rightarrow> chan option" where
  "starter_chan (HStart c) = Some c"
| "starter_chan (HPoll c) = Some c"
| "starter_chan (HStopFailed c e) = Some c"
| "starter_chan (HFinish c err) = Some c"
| "starter_chan pc = None"

definition is_starter :: "'e pc \<Rightarrow> bool" where
  "is_starter pc \<longleftrightarrow> starter_chan pc \<noteq> None"

fun idle_chan :: "idle_pc \<Rightarrow> chan option" where
  "idle_chan IIdle = None"
| "idle_chan (IStop c) = Some c"
| "idle_chan (IMark c) = Some c"
| "idle_chan (IRelease c) = Some c"

fun uses_backend :: "'e pc \<Rightarrow> bool" where
  "uses_backend HDial \<longleftrightarrow> True"
| "uses_backend HRelay \<longleftrightarrow> True"
| "uses_backend pc \<longleftrightarrow> False"

text \<open>Where a handler can be while the unit is being stopped for idleness.\<close>

fun parked :: "'e pc \<Rightarrow> bool" where
  "parked HEnter \<longleftrightarrow> True"
| "parked (HWaitStop c) \<longleftrightarrow> True"
| "parked HClosing \<longleftrightarrow> True"
| "parked HClosed \<longleftrightarrow> True"
| "parked pc \<longleftrightarrow> False"

definition is_open :: "'e activator \<Rightarrow> chan \<Rightarrow> bool" where
  "is_open a c \<longleftrightarrow> (\<exists>n. c = Some n \<and> n < length (ac_chans a) \<and> \<not> ac_chans a ! n)"

text \<open>What holds of one handler.\<close>

fun pc_ok :: "'e activator \<Rightarrow> 'e pc \<Rightarrow> bool" where
  "pc_ok a (HWaitStop c) \<longleftrightarrow> is_closed a c \<or> ac_stopping a \<and> ac_stop_wait a = c"
| "pc_ok a (HWaitStart c) \<longleftrightarrow> is_closed a c \<or> ac_starting a \<and> ac_start_wait a = c"
| "pc_ok a pc \<longleftrightarrow>
     (uses_backend pc \<longrightarrow> ac_running a)
     \<and> (\<forall>c. starter_chan pc = Some c \<longrightarrow> ac_start_wait a = c \<and> is_open a c)"

definition open_handlers :: "'e pc list \<Rightarrow> nat" where
  "open_handlers hs = length (filter (\<lambda>pc. pc \<noteq> HClosed) hs)"

definition starters :: "'e pc list \<Rightarrow> nat" where
  "starters hs = length (filter is_starter hs)"

definition watched :: "'e activator \<Rightarrow> bool" where
  "watched a \<longleftrightarrow> (case ac_monitor a of None \<Rightarrow> False | Some m \<Rightarrow> um_cancel m)"

definition act_inv :: "'e act_sys \<Rightarrow> bool" where
  "act_inv s \<longleftrightarrow>
     (let a = as_act s; hs = as_handlers s in
      \<not> ac_panicked a
      \<and> ac_active a = int (open_handlers hs)
      \<and> starters hs = (if ac_starting a then 1 else 0)
      \<and> (ac_starting a \<longrightarrow> \<not> ac_running a \<and> \<not> ac_stopping a)
      \<and> (ac_stopping a \<longleftrightarrow> as_idle s \<noteq> IIdle)
      \<and> (\<forall>c. idle_chan (as_idle s) = Some c \<longrightarrow> ac_stop_wait a = c \<and> is_open a c)
      \<and> (ac_stopping a \<longrightarrow> list_all parked hs)
      \<and> list_all (pc_ok a) hs
      \<and> (watched a \<longrightarrow> ac_running a \<and> \<not> ac_stopping a))"

lemma act_invI:
  assumes "\<not> ac_panicked (as_act s)" "ac_active (as_act s) = int (open_handlers (as_handlers s))"
    "starters (as_handlers s) = (if ac_starting (as_act s) then 1 else 0)"
    "ac_starting (as_act s) \<Longrightarrow> \<not> ac_running (as_act s) \<and> \<not> ac_stopping (as_act s)"
    "ac_stopping (as_act s) \<longleftrightarrow> as_idle s \<noteq> IIdle"
    "\<And>c. idle_chan (as_idle s) = Some c \<Longrightarrow> ac_stop_wait (as_act s) = c \<and> is_open (as_act s) c"
    "ac_stopping (as_act s) \<Longrightarrow> list_all parked (as_handlers s)"
    "list_all (pc_ok (as_act s)) (as_handlers s)"
    "watched (as_act s) \<Longrightarrow> ac_running (as_act s) \<and> \<not> ac_stopping (as_act s)"
  shows "act_inv s"
  using assms by (simp add: act_inv_def Let_def)

lemma act_inv_conj:
  assumes "act_inv s"
  shows "\<not> ac_panicked (as_act s)" "ac_active (as_act s) = int (open_handlers (as_handlers s))"
    "starters (as_handlers s) = (if ac_starting (as_act s) then 1 else 0)"
    "ac_starting (as_act s) \<longrightarrow> \<not> ac_running (as_act s) \<and> \<not> ac_stopping (as_act s)"
    "ac_stopping (as_act s) \<longleftrightarrow> as_idle s \<noteq> IIdle"
    "\<forall>c. idle_chan (as_idle s) = Some c \<longrightarrow> ac_stop_wait (as_act s) = c \<and> is_open (as_act s) c"
    "ac_stopping (as_act s) \<longrightarrow> list_all parked (as_handlers s)"
    "list_all (pc_ok (as_act s)) (as_handlers s)"
    "watched (as_act s) \<longrightarrow> ac_running (as_act s) \<and> \<not> ac_stopping (as_act s)"
proof -
  note c = assms [unfolded act_inv_def Let_def]
  show "\<not> ac_panicked (as_act s)" using c by (elim conjE)
  show "ac_active (as_act s) = int (open_handlers (as_handlers s))" using c by (elim conjE)
  show "starters (as_handlers s) = (if ac_starting (as_act s) then 1 else 0)" using c by (elim conjE)
  show "ac_starting (as_act s) \<longrightarrow> \<not> ac_running (as_act s) \<and> \<not> ac_stopping (as_act s)" using c by (elim conjE)
  show "ac_stopping (as_act s) \<longleftrightarrow> as_idle s \<noteq> IIdle" using c by (elim conjE)
  show "\<forall>c. idle_chan (as_idle s) = Some c \<longrightarrow> ac_stop_wait (as_act s) = c \<and> is_open (as_act s) c" using c by (elim conjE)
  show "ac_stopping (as_act s) \<longrightarrow> list_all parked (as_handlers s)" using c by (elim conjE)
  show "list_all (pc_ok (as_act s)) (as_handlers s)" using c by (elim conjE)
  show "watched (as_act s) \<longrightarrow> ac_running (as_act s) \<and> \<not> ac_stopping (as_act s)" using c by (elim conjE)
qed

lemmas act_invD = act_inv_conj [rule_format]

lemma list_all_update: "list_all P xs \<Longrightarrow> P y \<Longrightarrow> list_all P (xs[i := y])"
  by (auto simp: list_all_iff dest!: set_update_subset_insert [THEN subsetD])

lemma counts_update:
  assumes "i < length hs"
  shows "open_handlers (hs[i := pc]) + (if hs ! i \<noteq> HClosed then 1 else 0)
       = open_handlers hs + (if pc \<noteq> HClosed then 1 else 0)"
    "starters (hs[i := pc]) + (if is_starter (hs ! i) then 1 else 0)
       = starters hs + (if is_starter pc then 1 else 0)"
  unfolding open_handlers_def starters_def by (rule length_filter_update [OF assms])+

lemma chan_cong:
  assumes "ac_chans a' = ac_chans a"
  shows "is_open a' = is_open a" "is_closed a' = is_closed a"
  unfolding is_open_def is_closed_def fun_eq_iff assms by (rule allI, rule refl)+

lemma pc_ok_cong:
  assumes "ac_chans a' = ac_chans a" "ac_stopping a' = ac_stopping a" "ac_stop_wait a' = ac_stop_wait a"
    "ac_starting a' = ac_starting a" "ac_start_wait a' = ac_start_wait a" "ac_running a' = ac_running a"
  shows "pc_ok a' pc = pc_ok a pc"
  by (cases pc) (simp_all add: chan_cong [OF assms(1)] assms(2-6))

lemma pc_ok_frame [simp]:
  "pc_ok (conn_opened now a) pc = pc_ok a pc" "pc_ok (conn_closed now a) pc = pc_ok a pc"
  "pc_ok (mark_traffic now a) pc = pc_ok a pc"
  by (rule pc_ok_cong; simp add: conn_opened_def conn_closed_def mark_traffic_def)+

lemma act_inv_start: "act_inv (act_start cfg has_sup)"
proof -
  have "\<not> watched (activator_new cfg has_sup :: 'a activator)"
    by (simp add: watched_def activator_new_def new_unit_monitor_def)
  then show ?thesis
    by (intro act_invI) (simp_all add: act_start_def activator_new_def open_handlers_def starters_def)
qed

lemma act_inv_opened:
  assumes "act_inv s"
  shows "act_inv (s\<lparr>as_act := conn_opened now (as_act s), as_handlers := as_handlers s @ [HEnter]\<rparr>)"
proof -
  have "list_all (pc_ok (conn_opened now (as_act s))) (as_handlers s @ [HEnter])"
    using act_invD(8) [OF assms] by (simp add: list_all_iff)
  moreover have "watched (conn_opened now (as_act s)) = watched (as_act s)"
    "is_open (conn_opened now (as_act s)) c = is_open (as_act s) c" for c
    by (simp_all add: watched_def is_open_def conn_opened_def)
  ultimately show ?thesis
    by (intro act_invI; use act_invD [OF assms] in
        \<open>simp add: conn_opened_def open_handlers_def starters_def is_starter_def\<close>)
qed

text \<open>A handler that only moves its counter.\<close>

lemma act_inv_move:
  assumes inv: "act_inv s" and i: "i < length (as_handlers s)"
    and open': "as_handlers s ! i \<noteq> HClosed" "pc \<noteq> HClosed"
    and same: "is_starter pc = is_starter (as_handlers s ! i)"
    and ok: "pc_ok (as_act s) pc" and park: "ac_stopping (as_act s) \<Longrightarrow> parked pc"
  shows "act_inv (s\<lparr>as_handlers := (as_handlers s)[i := pc]\<rparr>)"
proof -
  note d = act_invD [OF inv]
  have c: "open_handlers ((as_handlers s)[i := pc]) = open_handlers (as_handlers s)"
    "starters ((as_handlers s)[i := pc]) = starters (as_handlers s)"
    using counts_update [OF i, of pc] open' same by (simp_all split: if_splits)
  show ?thesis
    by (rule act_invI; use d c ok park in \<open>simp add: list_all_update\<close>)
qed

lemma no_starters: "starters hs = 0 \<Longrightarrow> i < length hs \<Longrightarrow> \<not> is_starter (hs ! i)"
  by (simp add: starters_def filter_empty_conv)

lemma pc_ok_nth: "act_inv s \<Longrightarrow> i < length (as_handlers s) \<Longrightarrow> pc_ok (as_act s) (as_handlers s ! i)"
  using act_invD(8) [of s] by (simp add: list_all_length)

text \<open>A handler that begins a startup.\<close>

lemma act_inv_do_start:
  assumes inv: "act_inv s" and i: "i < length (as_handlers s)" and pc: "as_handlers s ! i = HEnter"
    and e: "ensure_enter (as_act s) = (DoStart c, a)"
  shows "act_inv (s\<lparr>as_act := a, as_handlers := (as_handlers s)[i := HStart c], as_calls := rev [] @ as_calls s\<rparr>)"
proof -
  note d = act_invD [OF inv]
  let ?a = "as_act s"
  have g: "\<not> ac_stopping ?a" "\<not> ac_running ?a" "\<not> ac_starting ?a" "c = Some (length (ac_chans ?a))"
    "a = ?a\<lparr>ac_starting := True, ac_start_err := None, ac_start_wait := c, ac_chans := ac_chans ?a @ [False]\<rparr>"
    using e by (auto simp: ensure_enter_def Let_def split: if_splits)
  have none: "starters (as_handlers s) = 0" using d(3) g(3) by simp
  have idle: "as_idle s = IIdle" using d(5) g(1) by simp
  have cnt: "open_handlers ((as_handlers s)[i := HStart c]) = open_handlers (as_handlers s)"
    "starters ((as_handlers s)[i := HStart c]) = 1"
    using counts_update [OF i, of "HStart c"] pc none by (simp_all add: is_starter_def)
  have "pc_ok a pc'" if "pc' \<in> set (as_handlers s)" for pc'
  proof -
    have "\<not> is_starter pc'" using none that by (auto simp: starters_def filter_empty_conv)
    moreover have "pc_ok ?a pc'" using d(8) that by (simp add: list_all_iff)
    ultimately show ?thesis
      using g by (cases pc') (auto simp: is_starter_def is_closed_def nth_append split: option.splits)
  qed
  moreover have "pc_ok a (HStart c)" using g by (simp add: is_open_def)
  ultimately have "list_all (pc_ok a) ((as_handlers s)[i := HStart c])"
    by (intro list_all_update) (simp_all add: list_all_iff)
  moreover have "watched a = watched ?a" using g(5) by (simp add: watched_def)
  ultimately show ?thesis
    by (intro act_invI; use d g cnt idle in simp)
qed

text \<open>A handler whose startup ends: it closes the channel and starts the monitor on success.\<close>

lemma start_monitor_frame [simp]:
  "ac_panicked (fst (start_monitor a)) = ac_panicked a" "ac_active (fst (start_monitor a)) = ac_active a"
  "ac_running (fst (start_monitor a)) = ac_running a" "ac_starting (fst (start_monitor a)) = ac_starting a"
  "ac_stopping (fst (start_monitor a)) = ac_stopping a" "ac_chans (fst (start_monitor a)) = ac_chans a"
  "ac_start_wait (fst (start_monitor a)) = ac_start_wait a"
  "ac_stop_wait (fst (start_monitor a)) = ac_stop_wait a"
  by (simp_all add: start_monitor_def um_start_def split: option.split)

lemma stop_monitor_frame [simp]:
  "ac_panicked (fst (stop_monitor a)) = ac_panicked a" "ac_active (fst (stop_monitor a)) = ac_active a"
  "ac_running (fst (stop_monitor a)) = ac_running a" "ac_starting (fst (stop_monitor a)) = ac_starting a"
  "ac_stopping (fst (stop_monitor a)) = ac_stopping a" "ac_chans (fst (stop_monitor a)) = ac_chans a"
  "ac_start_wait (fst (stop_monitor a)) = ac_start_wait a"
  "ac_stop_wait (fst (stop_monitor a)) = ac_stop_wait a"
  "\<not> watched (fst (stop_monitor a))"
  by (simp_all add: stop_monitor_def um_stop_def watched_def split: option.split)

lemma close_open_chan:
  assumes "is_open a (Some n)"
  shows "close_chan (Some n) a = a\<lparr>ac_chans := (ac_chans a)[n := True]\<rparr>"
  using assms by (auto simp: close_chan_def is_closed_def is_open_def)

definition finished :: "'e act_error option \<Rightarrow> 'e activator \<Rightarrow> 'e activator" where
  "finished err a =
     (if err = None then fst (start_monitor (a\<lparr>ac_starting := False, ac_start_err := err, ac_running := True\<rparr>))
      else a\<lparr>ac_starting := False, ac_start_err := err\<rparr>)"

lemma ensure_finish_fst: "fst (ensure_finish c err a) = close_chan c (finished err a)"
  by (simp add: ensure_finish_def finished_def Let_def case_prod_unfold)

lemma finished_frame [simp]:
  "ac_panicked (finished err a) = ac_panicked a" "ac_active (finished err a) = ac_active a"
  "ac_running (finished err a) \<longleftrightarrow> err = None \<or> ac_running a" "\<not> ac_starting (finished err a)"
  "ac_stopping (finished err a) = ac_stopping a" "ac_chans (finished err a) = ac_chans a"
  "ac_start_wait (finished err a) = ac_start_wait a" "ac_stop_wait (finished err a) = ac_stop_wait a"
  by (auto simp: finished_def)

lemma watched_close [simp]: "watched (a\<lparr>ac_chans := cs\<rparr>) = watched a"
  by (simp add: watched_def)

lemma watched_finished: "watched (finished err a) \<Longrightarrow> err = None \<or> watched a"
  by (auto simp: finished_def watched_def split: if_splits)

lemma is_closed_after_close:
  assumes "is_closed a c" "ac_chans b = (ac_chans a)[n := True]"
  shows "is_closed b c"
proof -
  obtain m where m: "c = Some m" "m < length (ac_chans a)" "ac_chans a ! m"
    using assms(1) by (auto simp: is_closed_def split: option.splits)
  have "(ac_chans a)[n := True] ! m" using m(2,3) by (cases "n = m") simp_all
  then show ?thesis using m by (simp add: is_closed_def assms(2))
qed

lemma starter_waits: "is_starter pc \<Longrightarrow> pc_ok a pc \<Longrightarrow> starter_chan pc = Some (ac_start_wait a)"
  by (cases pc) (auto simp: is_starter_def)

lemma one_starter:
  assumes "starters hs = 1" "i < length hs" "is_starter (hs ! i)" "j < length hs" "is_starter (hs ! j)"
  shows "i = j"
proof (rule ccontr)
  assume "i \<noteq> j"
  have "starters (hs[i := HEnter]) = 0"
    using counts_update(2) [OF assms(2), of HEnter] assms(1,3) by (simp add: is_starter_def)
  from no_starters [OF this, of j] show False using assms(4,5) \<open>i \<noteq> j\<close> by simp
qed

lemma act_inv_finish:
  assumes inv: "act_inv s" and i: "i < length (as_handlers s)" and pc: "as_handlers s ! i = HFinish c err"
  shows "act_inv (s\<lparr>as_act := fst (ensure_finish c err (as_act s)),
      as_handlers := (as_handlers s)[i := (if err = None then HDial else HClosing)],
      as_calls := calls\<rparr>)"
proof -
  note d = act_invD [OF inv]
  let ?a = "as_act s" and ?pc = "if err = None then HDial else HClosing :: 'a pc"
  have "pc_ok ?a (HFinish c err)" using pc_ok_nth [OF inv i] pc by simp
  then have own: "ac_start_wait ?a = c" "is_open ?a c" by simp_all
  then obtain n where n: "c = Some n" "n < length (ac_chans ?a)" "\<not> ac_chans ?a ! n"
    by (auto simp: is_open_def)
  have st: "ac_starting ?a" "starters (as_handlers s) = 1"
    using d(3) no_starters [OF _ i] pc by (auto simp: is_starter_def split: if_splits)
  have flags: "\<not> ac_running ?a" "\<not> ac_stopping ?a" "as_idle s = IIdle" using d(4,5) st by auto
  define b where "b = (finished err ?a)\<lparr>ac_chans := (ac_chans ?a)[n := True]\<rparr>"
  have fin: "fst (ensure_finish c err ?a) = b"
    unfolding ensure_finish_fst b_def n(1) by (subst close_open_chan) (simp_all add: is_open_def n)
  have cnt: "open_handlers ((as_handlers s)[i := ?pc]) = open_handlers (as_handlers s)"
    "starters ((as_handlers s)[i := ?pc]) = 0"
    using counts_update [OF i, of ?pc] pc st(2) by (auto simp: is_starter_def split: if_splits)
  have "pc_ok b ((as_handlers s) ! j)" if j: "j < length (as_handlers s)" "j \<noteq> i" for j
  proof -
    let ?q = "as_handlers s ! j"
    have "is_starter (as_handlers s ! i)" using pc by (simp add: is_starter_def)
    then have "\<not> is_starter ?q" using one_starter [OF st(2) i _ j(1)] j(2) by metis
    moreover have "pc_ok ?a ?q" by (rule pc_ok_nth [OF inv j(1)])
    moreover have "is_closed b c" by (simp add: b_def is_closed_def n)
    moreover have "is_closed ?a c' \<Longrightarrow> is_closed b c'" for c'
      by (erule is_closed_after_close [of _ _ _ n]) (simp add: b_def)
    ultimately show ?thesis
      using flags own by (cases ?q) (auto simp: is_starter_def)
  qed
  moreover have "pc_ok b ?pc" by (simp add: b_def)
  ultimately have "pc_ok b ((as_handlers s)[i := ?pc] ! j)" if "j < length (as_handlers s)" for j
    using that by (cases "j = i") simp_all
  then have "list_all (pc_ok b) ((as_handlers s)[i := ?pc])"
    unfolding list_all_length by simp
  moreover have "watched b \<longrightarrow> ac_running b"
    using watched_finished [of err ?a] d(9) by (auto simp: b_def)
  ultimately show ?thesis unfolding fin
    by (intro act_invI; use d flags cnt in \<open>simp add: b_def\<close>)
qed

lemma act_inv_closed:
  assumes inv: "act_inv s" and i: "i < length (as_handlers s)" and pc: "as_handlers s ! i = HClosing"
  shows "act_inv (s\<lparr>as_act := conn_closed now (as_act s), as_handlers := (as_handlers s)[i := HClosed],
      as_calls := calls\<rparr>)"
proof -
  note d = act_invD [OF inv]
  have cnt: "open_handlers (as_handlers s) = Suc (open_handlers ((as_handlers s)[i := HClosed]))"
    "starters ((as_handlers s)[i := HClosed]) = starters (as_handlers s)"
    using counts_update [OF i, of HClosed] pc by (simp_all add: is_starter_def)
  have l: "list_all (pc_ok (conn_closed now (as_act s))) ((as_handlers s)[i := HClosed])"
    "ac_stopping (as_act s) \<Longrightarrow> list_all parked ((as_handlers s)[i := HClosed])"
    using d(7,8) by (auto simp: list_all_iff dest!: set_update_subset_insert [THEN subsetD])
  have w: "watched (conn_closed now (as_act s)) = watched (as_act s)"
    "is_open (conn_closed now (as_act s)) c = is_open (as_act s) c" for c
    by (simp_all add: watched_def is_open_def conn_closed_def)
  show ?thesis
    by (rule act_invI; use d cnt l w in \<open>simp add: conn_closed_def\<close>)
qed

lemma act_inv_traffic:
  assumes inv: "act_inv s" and i: "i < length (as_handlers s)" and pc: "as_handlers s ! i = HRelay"
  shows "act_inv (s\<lparr>as_act := mark_traffic now (as_act s), as_handlers := (as_handlers s)[i := HRelay],
      as_calls := calls\<rparr>)"
proof -
  note d = act_invD [OF inv]
  have same: "(as_handlers s)[i := HRelay] = as_handlers s" using pc by (metis list_update_id)
  have l: "list_all (pc_ok (mark_traffic now (as_act s))) (as_handlers s)"
    using d(8) by (simp add: list_all_iff)
  have w: "watched (mark_traffic now (as_act s)) = watched (as_act s)"
    "is_open (mark_traffic now (as_act s)) c = is_open (as_act s) c" for c
    by (simp_all add: watched_def is_open_def mark_traffic_def)
  show ?thesis unfolding same
    by (rule act_invI; use d l w in \<open>simp add: mark_traffic_def\<close>)
qed

text \<open>All handler steps.\<close>

lemma ensure_enter_cases:
  obtains (stop) "ac_stopping a" "ensure_enter a = (WaitForStop (ac_stop_wait a), a)"
  | (runs) "\<not> ac_stopping a" "ac_running a" "ensure_enter a = (BackendRuns, a)"
  | (wait) "\<not> ac_stopping a" "\<not> ac_running a" "ac_starting a"
      "ensure_enter a = (WaitForStart (ac_start_wait a), a)"
  | (start) c a' where "ensure_enter a = (DoStart c, a')"
  by (cases "ac_stopping a"; cases "ac_running a"; cases "ac_starting a")
    (simp_all add: ensure_enter_def Let_def)

lemma act_inv_handler:
  assumes inv: "act_inv s" and i: "i < length (as_handlers s)"
    and step: "handler_step now inp (as_handlers s ! i) (as_act s) = Some (pc, a, calls)"
  shows "act_inv (s\<lparr>as_act := a, as_handlers := (as_handlers s)[i := pc], as_calls := rev calls @ as_calls s\<rparr>)"
proof -
  let ?a = "as_act s"
  note d = act_invD [OF inv]
  have ok: "pc_ok ?a (as_handlers s ! i)" by (rule pc_ok_nth [OF inv i])
  have park: "ac_stopping ?a \<Longrightarrow> parked (as_handlers s ! i)" using d(7) i by (simp add: list_all_length)
  note move = act_inv_move [OF inv i]
  show ?thesis
  proof (cases "as_handlers s ! i")
    case HEnter
    note h = HEnter
    show ?thesis
    proof (cases rule: ensure_enter_cases [of ?a])
      case stop
      with step h show ?thesis
        by (auto simp: handler_step_def is_starter_def split: if_splits intro!: move)
    next
      case runs
      with step h show ?thesis
        by (auto simp: handler_step_def is_starter_def split: if_splits intro!: move)
    next
      case wait
      with step h show ?thesis
        by (auto simp: handler_step_def is_starter_def split: if_splits intro!: move)
    next
      case (start c a')
      with step h have "pc = HStart c" "a = a'" "calls = []"
        by (auto simp: handler_step_def split: if_splits)
      then show ?thesis using act_inv_do_start [OF inv i h start] by simp
    qed
  next
    case (HWaitStop c)
    with step show ?thesis
      by (auto simp: handler_step_def is_starter_def split: if_splits intro!: move)
  next
    case (HWaitStart c)
    with step park show ?thesis
      by (auto simp: handler_step_def is_starter_def split: if_splits intro!: move)
  next
    case HWoken
    with step park show ?thesis
      by (auto simp: handler_step_def is_starter_def ensure_woken_def split: if_splits option.splits intro!: move)
  next
    case (HStart c)
    with step park ok show ?thesis
      by (auto simp: handler_step_def is_starter_def split: input.splits option.splits intro!: move)
  next
    case (HPoll c)
    with step park ok inv show ?thesis
      by (auto simp: handler_step_def is_starter_def split: input.splits poll_next.splits intro!: move)
  next
    case (HStopFailed c e)
    with step park ok show ?thesis
      by (auto simp: handler_step_def is_starter_def split: input.splits intro!: move)
  next
    case (HFinish c err)
    with step have "a = fst (ensure_finish c err ?a)" "pc = (if err = None then HDial else HClosing)"
      by (auto simp: handler_step_def split: if_splits prod.splits)
    then show ?thesis using act_inv_finish [OF inv i HFinish] by simp
  next
    case HDial
    with step park ok show ?thesis
      by (auto simp: handler_step_def is_starter_def split: input.splits intro!: move)
  next
    case HRelay
    note h = HRelay
    from step h consider "pc = HRelay" "a = mark_traffic now ?a" | "pc = HClosing" "a = ?a" "calls = []"
      by (auto simp: handler_step_def split: input.splits)
    then show ?thesis
    proof cases
      case 1 then show ?thesis using act_inv_traffic [OF inv i h] by simp
    next
      case 2 then show ?thesis using h by (auto simp: is_starter_def intro!: move)
    qed
  next
    case HClosing
    with step have "pc = HClosed" "a = conn_closed now ?a"
      by (auto simp: handler_step_def split: if_splits)
    then show ?thesis using act_inv_closed [OF inv i HClosing] by simp
  next
    case HClosed
    with step show ?thesis by (simp add: handler_step_def)
  qed
qed

text \<open>The idle loop.\<close>

lemma act_inv_idle_enter:
  assumes inv: "act_inv s" and idle: "as_idle s = IIdle"
    and e: "idle_enter now (as_act s) = (Some c, a, calls)"
  shows "act_inv (s\<lparr>as_act := a, as_idle := IStop c, as_calls := cs\<rparr>)"
proof -
  note d = act_invD [OF inv]
  let ?a = "as_act s"
  define b where "b = ?a\<lparr>ac_stopping := True, ac_stop_wait := Some (length (ac_chans ?a)), ac_chans := ac_chans ?a @ [False]\<rparr>"
  have g: "ac_running ?a" "\<not> ac_starting ?a" "\<not> ac_stopping ?a" "ac_active ?a \<le> 0"
    "c = Some (length (ac_chans ?a))" "a = fst (stop_monitor b)"
    using e by (auto simp: idle_enter_def Let_def b_def split: if_splits prod.splits)
  have "open_handlers (as_handlers s) = 0" using d(2) g(4) by simp
  then have closed: "pc = HClosed" if "pc \<in> set (as_handlers s)" for pc
    using that by (auto simp: open_handlers_def filter_empty_conv)
  have "list_all parked (as_handlers s)" "list_all (pc_ok a) (as_handlers s)"
    unfolding list_all_iff by (rule ballI, drule closed, simp)+
  moreover have "is_open a c" by (simp add: is_open_def g(5,6) b_def)
  moreover have "\<not> watched a" by (simp add: g(6))
  ultimately show ?thesis
    by (intro act_invI; use d g(1-5) in \<open>simp add: g(6)\<close>) (simp_all add: b_def g)
qed

lemma act_inv_idle:
  assumes inv: "act_inv s" and step: "idle_step now inp (as_idle s) (as_act s) = Some (pc, a, calls)"
  shows "act_inv (s\<lparr>as_act := a, as_idle := pc, as_calls := rev calls @ as_calls s\<rparr>)"
proof -
  note d = act_invD [OF inv]
  let ?a = "as_act s"
  show ?thesis
  proof (cases "as_idle s")
    case IIdle
    show ?thesis
    proof (cases "fst (idle_enter now ?a)")
      case None
      then have "idle_enter now ?a = (None, ?a, [])"
        by (auto simp: idle_enter_def Let_def split: if_splits prod.splits)
      with step IIdle have "a = ?a" "pc = IIdle" "calls = []"
        by (auto simp: idle_step_def split: if_splits)
      then show ?thesis using inv by (simp add: act_inv_def Let_def IIdle)
    next
      case (Some c)
      with step IIdle have "idle_enter now ?a = (Some c, a, calls)" "pc = IStop c"
        by (auto simp: idle_step_def split: if_splits prod.splits option.splits)
      then show ?thesis using act_inv_idle_enter [OF inv IIdle] by simp
    qed
  next
    case (IStop c)
    with step have "a = ?a" "pc = IMark c \<or> pc = IRelease c"
      by (auto simp: idle_step_def split: input.splits option.splits)
    then show ?thesis
      by (intro act_invI; use d IStop in auto)
  next
    case (IMark c)
    with step have a: "a = idle_stopped ?a" "pc = IRelease c"
      by (auto simp: idle_step_def split: if_splits)
    have s: "ac_stopping ?a" using d(5) IMark by simp
    have "pc_ok a q" if "q \<in> set (as_handlers s)" for q
    proof -
      have "parked q" "pc_ok ?a q" using that d(7) [OF s] d(8) by (simp_all add: list_all_iff)
      moreover have "is_closed a = is_closed ?a" by (rule chan_cong) (simp add: a idle_stopped_def)
      ultimately show ?thesis by (cases q) (simp_all add: a(1) idle_stopped_def)
    qed
    moreover have "watched a = watched ?a" "is_open a c = is_open ?a c"
      by (simp_all add: a idle_stopped_def watched_def is_open_def)
    ultimately show ?thesis
      by (intro act_invI; use d IMark s a(2) in \<open>simp add: a(1) idle_stopped_def list_all_iff\<close>)
  next
    case (IRelease c)
    with step have a: "a = idle_release c ?a" "pc = IIdle"
      by (auto simp: idle_step_def split: if_splits)
    have s: "ac_stopping ?a" using d(5) IRelease by simp
    have c: "ac_stop_wait ?a = c" "is_open ?a c" using d(6) IRelease by simp_all
    then obtain n where n: "c = Some n" "n < length (ac_chans ?a)" "\<not> ac_chans ?a ! n"
      by (auto simp: is_open_def)
    have a': "a = ?a\<lparr>ac_stopping := False, ac_chans := (ac_chans ?a)[n := True]\<rparr>"
      unfolding a(1) idle_release_def n(1) by (subst close_open_chan) (simp_all add: is_open_def n)
    have "pc_ok a q" if "q \<in> set (as_handlers s)" for q
    proof -
      have "parked q" "pc_ok ?a q" using that d(7) [OF s] d(8) by (simp_all add: list_all_iff)
      moreover have "is_closed a c" by (simp add: a' is_closed_def n)
      moreover have "is_closed ?a c' \<Longrightarrow> is_closed a c'" for c'
        by (erule is_closed_after_close [of _ _ _ n]) (simp add: a')
      ultimately show ?thesis using c by (cases q) (auto simp: a')
    qed
    moreover have "watched a = watched ?a" by (simp add: a' watched_def)
    ultimately show ?thesis
      by (intro act_invI; use d s a(2) in \<open>simp add: a' list_all_iff\<close>)
  qed
qed

lemma act_inv_step: "act_inv s \<Longrightarrow> act_next s t \<Longrightarrow> act_inv t"
  by (erule act_next_cases) (simp_all only: act_inv_opened act_inv_handler act_inv_idle)

interpretation act_system: transition_invariant "act_init cfg has_sup" act_next act_inv
  for cfg :: socket_activation_config and has_sup :: bool
  by unfold_locales (auto simp: act_init_def act_inv_start intro: act_inv_step)

section \<open>Properties\<close>

definition sample_listener :: socket_activation_config where
  "sample_listener = \<lparr>sa_unit = ''api.service'', sa_name = ''api'', sa_listen = '':8080'',
     sa_protocol = [''tcp''], sa_backend = ''127.0.0.1:9000'', sa_startup_timeout = 30 * second,
     sa_idle_timeout = 60 * second, sa_health_checks = [sample_check],
     sa_restart = Some \<lparr>rp_enabled = True, rp_backoff = 5 * second, rp_cooldown = 60 * second\<rparr>\<rparr>"

lemmas act_eval =
  act_start_def activator_new_def handler_step_def idle_step_def ensure_enter_def ensure_finish_def
  ensure_woken_def poll_turn_def idle_enter_def idle_release_def idle_stopped_def close_chan_def
  is_closed_def start_monitor_def stop_monitor_def um_start_def um_stop_def new_unit_monitor_def
  conn_opened_def conn_closed_def mark_traffic_def sample_listener_def sample_check_def second_def
  time_sub_def int64_max_def int64_min_def Let_def

text \<open>A first connection that starts the backend, becomes healthy and is relayed.\<close>

definition first_connection :: "string act_label list" where
  "first_connection =
     [OpenAt 1, HandlerAt 0 1 Proceed, HandlerAt 0 2 (ControllerAnswers None),
      HandlerAt 0 3 (Polled TickerFired), HandlerAt 0 4 (Polled ProbePassed), HandlerAt 0 4 Proceed,
      HandlerAt 0 5 (DialAnswers True)]"

lemma reach_act_start: "reach (act_init cfg has_sup) act_next (act_start cfg has_sup)"
  by (rule reach_init) (simp add: act_init_def)

lemma reach_run_start:
  "act_run ls (act_start cfg has_sup) = Some t \<Longrightarrow> reach (act_init cfg has_sup) act_next t"
  by (rule reach_act_run [OF reach_act_start])

lemma first_connection_run:
  "\<exists>t. act_run first_connection (act_start sample_listener True) = Some t \<and> as_handlers t = [HRelay]"
  by (simp add: first_connection_def act_eval)

text \<open>C1. Under every interleaving of connections with the idle loop, a connection dials or relays
  only while the backend runs, is not being stopped and is not being started: the idle stop never
  takes the backend from under a connection, and no stop is in flight.\<close>

theorem relays_only_on_running_backend:
  assumes "reach (act_init cfg has_sup) act_next s" "pc \<in> set (as_handlers s)" "uses_backend pc"
  shows "ac_running (as_act s) \<and> \<not> ac_stopping (as_act s) \<and> \<not> ac_starting (as_act s)
    \<and> as_idle s = IIdle \<and> starters (as_handlers s) = 0"
proof -
  have inv: "act_inv s" by (rule act_system.inv_reach [OF assms(1)])
  note d = act_invD [OF inv]
  have "pc_ok (as_act s) pc" using d(8) assms(2) by (simp add: list_all_iff)
  then have run: "ac_running (as_act s)" using assms(3) by (cases pc) simp_all
  have "\<not> parked pc" using assms(3) by (cases pc) simp_all
  then have "\<not> ac_stopping (as_act s)" using d(7) assms(2) by (auto simp: list_all_iff)
  then show ?thesis using run d(3,4,5) by auto
qed

theorem relays_only_on_running_backend_witness:
  "\<exists>t. act_run first_connection (act_start sample_listener True) = Some t
     \<and> HRelay \<in> set (as_handlers t) \<and> ac_running (as_act t)"
proof -
  obtain t where t: "act_run first_connection (act_start sample_listener True) = Some t" "as_handlers t = [HRelay]"
    using first_connection_run by blast
  have "ac_running (as_act t)"
    using relays_only_on_running_backend [OF reach_run_start [OF t(1)], of HRelay] t(2) by simp
  then show ?thesis using t by auto
qed

text \<open>C17. At most one operation on the unit is in flight: concurrent connections share one startup,
  and a startup and an idle stop exclude each other.\<close>

theorem one_unit_operation_at_a_time:
  assumes "reach (act_init cfg has_sup) act_next s"
  shows "starters (as_handlers s) + (if as_idle s = IIdle then 0 else 1) \<le> 1"
  using act_invD(3-5) [OF act_system.inv_reach [OF assms]] by auto

theorem one_unit_operation_at_a_time_witness:
  "\<exists>t. act_run [OpenAt 1, OpenAt 2, HandlerAt 0 3 Proceed, HandlerAt 1 3 Proceed]
      (act_start sample_listener True :: string act_sys) = Some t
     \<and> starters (as_handlers t) + (if as_idle t = IIdle then 0 else 1) \<le> 1 \<and> starters (as_handlers t) = 1"
proof -
  let ?ls = "[OpenAt 1, OpenAt 2, HandlerAt 0 3 Proceed, HandlerAt 1 3 Proceed] :: string act_label list"
  obtain t where t: "act_run ?ls (act_start sample_listener True) = Some t" "starters (as_handlers t) = 1"
    by (simp add: act_eval starters_def is_starter_def)
  from one_unit_operation_at_a_time [OF reach_run_start [OF t(1)]] t show ?thesis by blast
qed

text \<open>A handler that does not wait for another one always has a step.\<close>

lemma handler_can_step:
  assumes "\<And>c. pc \<noteq> HWaitStart c" "\<And>c. pc \<noteq> HWaitStop c" "pc \<noteq> HClosed"
  shows "\<exists>inp. handler_step now inp pc a \<noteq> None"
proof (cases pc)
  case HEnter
  then show ?thesis
    by (intro exI [of _ Proceed]) (simp add: handler_step_def split: prod.split ensure_next.split)
next
  case HWoken
  then show ?thesis by (intro exI [of _ Proceed]) (simp add: handler_step_def split: option.split)
next
  case (HStart c)
  then show ?thesis by (intro exI [of _ "ControllerAnswers None"]) (simp add: handler_step_def split: option.split)
next
  case (HPoll c)
  then show ?thesis by (intro exI [of _ "Polled TickerFired"]) (simp add: handler_step_def poll_turn_def Let_def)
next
  case (HStopFailed c e)
  then show ?thesis by (intro exI [of _ "ControllerAnswers None"]) (simp add: handler_step_def)
next
  case (HFinish c err)
  then show ?thesis by (intro exI [of _ Proceed]) (simp add: handler_step_def split: prod.split)
next
  case HDial
  then show ?thesis by (intro exI [of _ "DialAnswers True"]) (simp add: handler_step_def)
next
  case HRelay
  then show ?thesis by (intro exI [of _ RelayEnds]) (simp add: handler_step_def)
next
  case HClosing
  then show ?thesis by (intro exI [of _ Proceed]) (simp add: handler_step_def)
qed (use assms in auto)

text \<open>C5. No handler is stuck and no channel is closed twice: nothing panics, every handler that is
  neither finished nor waiting has a step to take, and the channel a handler waits on is closed
  already or held open by the one startup or idle stop that will close it.\<close>

theorem handlers_never_stuck:
  assumes "reach (act_init cfg has_sup) act_next s" "pc \<in> set (as_handlers s)"
  shows "\<not> ac_panicked (as_act s)
    \<and> (case pc of
         HClosed \<Rightarrow> True
       | HWaitStart c \<Rightarrow> is_closed (as_act s) c \<or> (\<exists>q \<in> set (as_handlers s). starter_chan q = Some c)
       | HWaitStop c \<Rightarrow> is_closed (as_act s) c \<or> idle_chan (as_idle s) = Some c
       | _ \<Rightarrow> \<exists>inp. handler_step now inp pc (as_act s) \<noteq> None)"
proof -
  have inv: "act_inv s" by (rule act_system.inv_reach [OF assms(1)])
  note d = act_invD [OF inv]
  have ok: "pc_ok (as_act s) pc" using d(8) assms(2) by (simp add: list_all_iff)
  have starter: "\<exists>q \<in> set (as_handlers s). starter_chan q = Some (ac_start_wait (as_act s))"
    if "ac_starting (as_act s)"
  proof -
    have "starters (as_handlers s) \<noteq> 0" using d(3) that by simp
    then obtain q where q: "q \<in> set (as_handlers s)" "is_starter q"
      by (auto simp: starters_def filter_empty_conv)
    moreover have "pc_ok (as_act s) q" using d(8) q(1) by (simp add: list_all_iff)
    ultimately have "starter_chan q = Some (ac_start_wait (as_act s))" by (simp add: starter_waits)
    with q(1) show ?thesis by blast
  qed
  have stopper: "idle_chan (as_idle s) = Some (ac_stop_wait (as_act s))" if "ac_stopping (as_act s)"
    using d(5,6) that by (cases "as_idle s") auto
  show ?thesis
    using d(1) ok starter stopper handler_can_step [of pc now "as_act s"] by (cases pc) auto
qed

theorem handlers_never_stuck_witness:
  "\<exists>t. act_run [OpenAt 1, OpenAt 2, HandlerAt 0 3 Proceed, HandlerAt 1 3 Proceed]
      (act_start sample_listener True :: string act_sys) = Some t
     \<and> (is_closed (as_act t) (Some 0) \<or> (\<exists>q \<in> set (as_handlers t). starter_chan q = Some (Some 0)))"
proof -
  let ?ls = "[OpenAt 1, OpenAt 2, HandlerAt 0 3 Proceed, HandlerAt 1 3 Proceed] :: string act_label list"
  obtain t where t: "act_run ?ls (act_start sample_listener True) = Some t" "HWaitStart (Some 0) \<in> set (as_handlers t)"
    by (simp add: act_eval)
  from handlers_never_stuck [OF reach_run_start [OF t(1)] t(2)] t show ?thesis by auto
qed

text \<open>The status a listener reports counts its connections exactly: the handlers that have
  started and not yet closed, and no idle time while there is one.\<close>

theorem status_counts_connections:
  assumes "reach (act_init cfg has_sup) act_next s"
  shows "st_active_connections (activator_status now (as_act s))
      = int (length (filter (\<lambda>pc. pc \<noteq> HClosed) (as_handlers s)))
    \<and> (st_idle (activator_status now (as_act s)) \<noteq> 0 \<longrightarrow>
        ac_running (as_act s) \<and> (\<forall>pc \<in> set (as_handlers s). pc = HClosed))"
proof -
  have "ac_active (as_act s) = int (length (filter (\<lambda>pc. pc \<noteq> HClosed) (as_handlers s)))"
    using act_invD(2) [OF act_system.inv_reach [OF assms]] by (simp add: open_handlers_def)
  then show ?thesis by (auto simp: activator_status_def filter_empty_conv)
qed

theorem status_counts_connections_witness:
  "\<exists>t. act_run first_connection (act_start sample_listener True) = Some t
     \<and> st_active_connections (activator_status 9 (as_act t)) = 1"
proof -
  obtain t where t: "act_run first_connection (act_start sample_listener True) = Some t" "as_handlers t = [HRelay]"
    using first_connection_run by blast
  from status_counts_connections [OF reach_run_start [OF t(1)], of 9] t show ?thesis by auto
qed

text \<open>Monitoring is on only while the backend is up: whenever the activator has the unit
  registered with the supervisor, the backend runs and is not being stopped.\<close>

theorem watched_only_while_running:
  assumes "reach (act_init cfg has_sup) act_next s" "watched (as_act s)"
  shows "ac_running (as_act s) \<and> \<not> ac_stopping (as_act s)"
  by (rule act_invD(9) [OF act_system.inv_reach [OF assms(1)] assms(2)])

theorem watched_only_while_running_witness:
  "\<exists>t. act_run first_connection (act_start sample_listener True) = Some t
     \<and> watched (as_act t) \<and> ac_running (as_act t) \<and> \<not> ac_stopping (as_act t)"
proof -
  obtain t where t: "act_run first_connection (act_start sample_listener True) = Some t" "watched (as_act t)"
    by (simp add: first_connection_def act_eval watched_def)
  from watched_only_while_running [OF reach_run_start [OF t(1)] t(2)] t show ?thesis by blast
qed

definition bindable :: "(string \<Rightarrow> string \<Rightarrow> 'e option) \<Rightarrow> socket_activation_config \<Rightarrow> string \<Rightarrow> bool" where
  "bindable bind cfg p \<longleftrightarrow> (p = ''tcp'' \<or> p = ''udp'') \<and> bind p (sa_listen cfg) = None"

lemma start_protocol_bindable:
  "bindable bind cfg p \<Longrightarrow> start_protocol bind cfg p = Inr (p, sa_listen cfg)"
  "\<not> bindable bind cfg p \<Longrightarrow> \<exists>e. start_protocol bind cfg p = Inl e"
  by (auto simp: bindable_def start_protocol_def split: option.split)

lemma start_protocols_bindable:
  "list_all (bindable bind cfg) ps \<Longrightarrow>
     start_protocols bind cfg ps bound = (None, bound @ map (\<lambda>p. (p, sa_listen cfg)) ps)"
  by (induction ps arbitrary: bound) (simp_all add: start_protocol_bindable)

lemma start_protocols_not_bindable:
  "\<not> list_all (bindable bind cfg) ps \<Longrightarrow> \<exists>e. start_protocols bind cfg ps bound = (Some e, [])"
proof (induction ps arbitrary: bound)
  case Nil
  then show ?case by simp
next
  case (Cons p ps)
  show ?case
  proof (cases "bindable bind cfg p")
    case True
    then show ?thesis using Cons by (simp add: start_protocol_bindable(1))
  next
    case False
    from start_protocol_bindable(2) [OF this] show ?thesis by auto
  qed
qed

text \<open>Starting a listener binds all its protocols, in order, when each is tcp or udp and the
  network lets it be bound; else it returns an error and leaves none of them bound.\<close>

theorem listener_start_all_or_nothing:
  "if list_all (bindable bind cfg) (if sa_protocol cfg = [] then [''tcp''] else sa_protocol cfg)
   then activator_start bind cfg =
     (None, map (\<lambda>p. (p, sa_listen cfg)) (if sa_protocol cfg = [] then [''tcp''] else sa_protocol cfg))
   else \<exists>e. activator_start bind cfg = (Some e, [])"
proof (cases "list_all (bindable bind cfg) (if sa_protocol cfg = [] then [''tcp''] else sa_protocol cfg)")
  case True
  from start_protocols_bindable [OF this, of "[]"] True show ?thesis
    unfolding activator_start_def append_Nil by (simp only: if_True)
next
  case False
  from start_protocols_not_bindable [OF this, of "[]"] False show ?thesis
    unfolding activator_start_def by (simp only: if_False)
qed

lemma poll_interval_loop_min:
  "0 < i \<Longrightarrow> \<forall>c \<in> set cs. 0 < hc_interval c \<Longrightarrow>
     poll_interval_loop i cs = Min (insert i (hc_interval ` set cs))"
proof (induction cs arbitrary: i)
  case Nil
  then show ?case by simp
next
  case (Cons c cs)
  have "poll_interval_loop (min (hc_interval c) i) cs = Min (insert (min (hc_interval c) i) (hc_interval ` set cs))"
    using Cons by (intro Cons.IH) auto
  moreover have "(if i = 0 \<or> hc_interval c < i then hc_interval c else i) = min (hc_interval c) i"
    using Cons.prems(1) by auto
  moreover have "Min (insert (min (hc_interval c) i) (hc_interval ` set cs)) =
      Min (insert i (insert (hc_interval c) (hc_interval ` set cs)))"
    by (cases "cs = []") (simp_all add: min.assoc min.left_commute min.commute)
  ultimately show ?case by simp
qed

text \<open>The readiness wait polls at the smallest interval of the checks, when they are positive, and
  it is ready only when every check passes; without checks it is ready at once.\<close>

theorem poll_interval_is_smallest:
  assumes "checks \<noteq> []" "\<forall>c \<in> set checks. 0 < hc_interval c"
  shows "poll_interval checks = Min (hc_interval ` set checks)
    \<and> (checks_probe env checks = [] \<longleftrightarrow> (\<forall>c \<in> set checks. probe env c = Pass))"
proof -
  obtain c cs where c: "checks = c # cs" using assms(1) by (cases checks) auto
  have "poll_interval_loop 0 checks = poll_interval_loop (hc_interval c) cs" by (simp add: c)
  also have "\<dots> = Min (hc_interval ` set checks)"
    using poll_interval_loop_min [of "hc_interval c" cs] assms(2) by (simp add: c)
  finally have "poll_interval_loop 0 checks = Min (hc_interval ` set checks)" .
  moreover have "0 < Min (hc_interval ` set checks)" using assms by simp
  ultimately show ?thesis
    by (auto simp: poll_interval_def Let_def checks_probe_def filter_empty_conv)
qed

theorem poll_interval_is_smallest_witness:
  "poll_interval [sample_check, sample_check\<lparr>hc_interval := 3 * second\<rparr>] = 3 * second"
proof -
  let ?cs = "[sample_check, sample_check\<lparr>hc_interval := 3 * second\<rparr>]"
  have "poll_interval ?cs = Min (hc_interval ` set ?cs)"
    by (rule poll_interval_is_smallest [THEN conjunct1]) (simp_all add: sample_check_def second_def)
  then show ?thesis by (simp add: sample_check_def second_def)
qed

end
