(* ===== verification/ActivatorLiveness.thy ===== *)
theory ActivatorLiveness
  imports ActivatorSystem
begin

text \<open>
  Progress of the activator: whatever has happened, it can always come to rest, with every
  connection closed and the backend stopped, without any context ending. No handler waits for ever
  on another one, no startup or idle stop is left half done, and a refused stop can be tried again.
  A label is allowed when it ends no context; the rank of a handler is how far it is from its end.
\<close>

section \<open>Rank\<close>

fun ends_context :: "'e input \<Rightarrow> bool" where
  "ends_context ContextEnds \<longleftrightarrow> True"
| "ends_context (Polled i) \<longleftrightarrow> i = CallerDone"
| "ends_context inp \<longleftrightarrow> False"

fun allowed :: "'e act_label \<Rightarrow> bool" where
  "allowed (OpenAt now) \<longleftrightarrow> False"
| "allowed (HandlerAt i now inp) \<longleftrightarrow> \<not> ends_context inp"
| "allowed (IdleAt now inp) \<longleftrightarrow> \<not> ends_context inp"

fun pc_rank :: "'e pc \<Rightarrow> nat" where
  "pc_rank (HWaitStop c) = 14"
| "pc_rank HEnter = 13"
| "pc_rank (HStart c) = 12"
| "pc_rank (HPoll c) = 11"
| "pc_rank (HStopFailed c e) = 10"
| "pc_rank (HFinish c err) = 9"
| "pc_rank (HWaitStart c) = 5"
| "pc_rank HWoken = 4"
| "pc_rank HDial = 3"
| "pc_rank HRelay = 2"
| "pc_rank HClosing = 1"
| "pc_rank HClosed = 0"

fun idle_rank :: "bool \<Rightarrow> idle_pc \<Rightarrow> nat" where
  "idle_rank running (IRelease c) = (if running then 6 else 1)"
| "idle_rank running IIdle = (if running then 5 else 0)"
| "idle_rank running (IStop c) = 4"
| "idle_rank running (IMark c) = 3"

definition act_rank :: "'e act_sys \<Rightarrow> nat" where
  "act_rank s = sum_list (map pc_rank (as_handlers s)) + idle_rank (ac_running (as_act s)) (as_idle s)"

definition at_rest :: "'e act_sys \<Rightarrow> bool" where
  "at_rest s \<longleftrightarrow>
     (\<forall>pc \<in> set (as_handlers s). pc = HClosed) \<and> as_idle s = IIdle \<and> \<not> ac_running (as_act s)"

lemma rank_update:
  fixes r :: "'a \<Rightarrow> nat"
  assumes "i < length xs"
  shows "sum_list (map r (xs[i := y])) + r (xs ! i) = sum_list (map r xs) + r y"
  using assms
proof (induction xs arbitrary: i)
  case Nil
  then show ?case by simp
next
  case (Cons x xs)
  then show ?case by (cases i) (auto simp: algebra_simps)
qed

section \<open>The configuration does not change\<close>

lemma cfg_frame [simp]:
  "ac_cfg (close_chan c a) = ac_cfg a" "ac_cfg (fst (start_monitor a)) = ac_cfg a"
  "ac_cfg (fst (stop_monitor a)) = ac_cfg a" "ac_cfg (fst (ensure_finish c err a)) = ac_cfg a"
  by (simp_all add: close_chan_def start_monitor_def stop_monitor_def ensure_finish_fst finished_def
      split: option.split prod.split)

lemma handler_step_cfg: "handler_step now inp pc a = Some (pc', a', calls) \<Longrightarrow> ac_cfg a' = ac_cfg a"
proof (cases pc)
  case (HFinish c err)
  assume "handler_step now inp pc a = Some (pc', a', calls)"
  then have "a' = fst (ensure_finish c err a)" using HFinish
    by (auto simp: handler_step_def split: if_splits prod.splits)
  then show ?thesis by simp
qed (auto simp: handler_step_def ensure_enter_def Let_def mark_traffic_def conn_closed_def
    split: if_splits input.splits option.splits poll_next.splits prod.splits)

lemma idle_step_cfg: "idle_step now inp pc a = Some (pc', a', calls) \<Longrightarrow> ac_cfg a' = ac_cfg a"
proof (cases pc)
  case IIdle
  assume step: "idle_step now inp pc a = Some (pc', a', calls)"
  have "ac_cfg (fst (snd (idle_enter now a))) = ac_cfg a"
    by (simp add: idle_enter_def Let_def case_prod_unfold)
  then show ?thesis using step IIdle
    by (auto simp: idle_step_def split: if_splits prod.splits option.splits)
qed (auto simp: idle_step_def idle_stopped_def idle_release_def split: if_splits input.splits option.splits)

lemma act_exec_cfg: "act_exec l s = Some t \<Longrightarrow> ac_cfg (as_act t) = ac_cfg (as_act s)"
  by (cases l) (auto simp: conn_opened_def split: if_splits option.splits dest: handler_step_cfg idle_step_cfg)

section \<open>Progress\<close>

definition settled_cfg :: "'e act_sys \<Rightarrow> bool" where
  "settled_cfg s \<longleftrightarrow> act_inv s \<and> sa_idle_timeout (ac_cfg (as_act s)) \<le> int64_max"

lemma settled_exec: "settled_cfg s \<Longrightarrow> act_exec l s = Some t \<Longrightarrow> settled_cfg t"
  using act_inv_step [OF _ act_exec_next] by (auto simp: settled_cfg_def act_exec_cfg)

lemma starter_progress:
  assumes "is_starter pc"
  shows "\<exists>inp pc' a' calls. \<not> ends_context inp \<and> handler_step now inp pc a = Some (pc', a', calls)
    \<and> pc_rank pc' + 5 * of_bool (ac_running a') < pc_rank pc + 5 * of_bool (ac_running a)"
proof (cases pc)
  case (HStart c)
  then show ?thesis
    by (cases "ac_probe a"; intro exI [of _ "ControllerAnswers None"]; simp add: handler_step_def)
next
  case (HPoll c)
  then show ?thesis
    by (intro exI [of _ "Polled ProbePassed"]) (simp add: handler_step_def poll_turn_def Let_def)
next
  case (HStopFailed c e)
  then show ?thesis by (intro exI [of _ "ControllerAnswers None"]) (simp add: handler_step_def)
next
  case (HFinish c err)
  have "ac_running (close_chan c (finished err a)) = (err = None \<or> ac_running a)"
    by (simp add: close_chan_def split: option.split)
  then have "ac_running (fst (ensure_finish c err a)) = (err = None \<or> ac_running a)"
    by (simp add: ensure_finish_fst)
  then show ?thesis using HFinish
    by (intro exI [of _ Proceed]) (auto simp: handler_step_def case_prod_unfold)
qed (use assms in \<open>simp_all add: is_starter_def\<close>)

lemma handler_progress:
  assumes "pc \<noteq> HClosed" "\<not> ac_starting a" "\<not> ac_stopping a" "pc_ok a pc"
  shows "\<exists>inp pc' a' calls. \<not> ends_context inp \<and> handler_step now inp pc a = Some (pc', a', calls)
    \<and> pc_rank pc' + 5 * of_bool (ac_running a') < pc_rank pc + 5 * of_bool (ac_running a)"
proof (cases "is_starter pc")
  case True
  then show ?thesis by (rule starter_progress)
next
  case False
  show ?thesis
  proof (cases pc)
    case HEnter
    then show ?thesis using assms(2,3)
      by (intro exI [of _ Proceed]) (auto simp: handler_step_def ensure_enter_def Let_def)
  next
    case (HWaitStop c)
    then show ?thesis using assms(3,4) by (intro exI [of _ Proceed]) (auto simp: handler_step_def)
  next
    case (HWaitStart c)
    then show ?thesis using assms(2,4) by (intro exI [of _ Proceed]) (auto simp: handler_step_def)
  next
    case HWoken
    then show ?thesis by (cases "ensure_woken a"; intro exI [of _ Proceed]; simp add: handler_step_def)
  next
    case HDial
    then show ?thesis by (intro exI [of _ "DialAnswers True"]) (simp add: handler_step_def)
  next
    case HRelay
    then show ?thesis by (intro exI [of _ RelayEnds]) (simp add: handler_step_def)
  next
    case HClosing
    then show ?thesis by (intro exI [of _ Proceed]) (simp add: handler_step_def conn_closed_def)
  qed (use assms(1) False in \<open>simp_all add: is_starter_def\<close>)
qed

lemma exec_handler_progress:
  assumes "i < length (as_handlers s)" "as_idle s = IIdle" "\<not> ends_context inp"
    "handler_step now inp (as_handlers s ! i) (as_act s) = Some (pc', a', calls)"
    "pc_rank pc' + 5 * of_bool (ac_running a') < pc_rank (as_handlers s ! i) + 5 * of_bool (ac_running (as_act s))"
  shows "\<exists>l t. allowed l \<and> act_exec l s = Some t \<and> act_rank t < act_rank s"
proof -
  let ?t = "s\<lparr>as_act := a', as_handlers := (as_handlers s)[i := pc'], as_calls := rev calls @ as_calls s\<rparr>"
  have "act_exec (HandlerAt i now inp) s = Some ?t" using assms(1,4) by simp
  moreover have "act_rank ?t < act_rank s"
    using rank_update [OF assms(1), of pc_rank pc'] assms(2,5) by (simp add: act_rank_def of_bool_def split: if_splits)
  ultimately show ?thesis using assms(3) by (intro exI [of _ "HandlerAt i now inp"]) auto
qed

lemma idle_progress:
  assumes "as_idle s \<noteq> IIdle"
  shows "\<exists>l t. allowed l \<and> act_exec l s = Some t \<and> act_rank t < act_rank s"
proof (cases "as_idle s")
  case (IStop c)
  then show ?thesis
    by (intro exI [of _ "IdleAt 0 (ControllerAnswers None)"]) (simp add: idle_step_def act_rank_def)
next
  case (IMark c)
  then show ?thesis
    by (intro exI [of _ "IdleAt 0 Proceed"]) (simp add: idle_step_def act_rank_def idle_stopped_def)
next
  case (IRelease c)
  have "ac_running (idle_release c (as_act s)) = ac_running (as_act s)"
    by (simp add: idle_release_def close_chan_def split: option.split)
  then show ?thesis using IRelease
    by (intro exI [of _ "IdleAt 0 Proceed"]) (simp add: idle_step_def act_rank_def)
qed (use assms in simp)

lemma stop_progress:
  assumes "settled_cfg s" "\<forall>pc \<in> set (as_handlers s). pc = HClosed" "as_idle s = IIdle" "ac_running (as_act s)"
  shows "\<exists>l t. allowed l \<and> act_exec l s = Some t \<and> act_rank t < act_rank s"
proof -
  have inv: "act_inv s" and cfg: "sa_idle_timeout (ac_cfg (as_act s)) \<le> int64_max"
    using assms(1) by (simp_all add: settled_cfg_def)
  note d = act_invD [OF inv]
  let ?a = "as_act s" and ?now = "ac_last_active (as_act s) + int64_max"
  have "ac_active ?a = 0" using d(2) assms(2) by (simp add: open_handlers_def)
  moreover have "\<not> ac_starting ?a" "\<not> ac_stopping ?a" using d(4,5) assms(3,4) by auto
  moreover have "\<not> time_sub ?now (ac_last_active ?a) < sa_idle_timeout (ac_cfg ?a)"
    using cfg by (simp add: time_sub_def int64_max_def int64_min_def)
  ultimately have "fst (idle_enter ?now ?a) \<noteq> None \<and> ac_running (fst (snd (idle_enter ?now ?a)))"
    using assms(4) by (simp add: idle_enter_def Let_def case_prod_unfold)
  then obtain c a' calls where e: "idle_enter ?now ?a = (Some c, a', calls)" "ac_running a'"
    by (cases "idle_enter ?now ?a") auto
  then show ?thesis using assms(3,4)
    by (intro exI [of _ "IdleAt ?now Proceed"]) (simp add: idle_step_def act_rank_def)
qed

lemma act_progress:
  assumes "settled_cfg s" "\<not> at_rest s"
  shows "\<exists>l t. allowed l \<and> act_exec l s = Some t \<and> act_rank t < act_rank s"
proof (cases "as_idle s = IIdle")
  case False
  then show ?thesis by (rule idle_progress)
next
  case idle: True
  have inv: "act_inv s" using assms(1) by (simp add: settled_cfg_def)
  note d = act_invD [OF inv]
  have stop: "\<not> ac_stopping (as_act s)" using d(5) idle by simp
  show ?thesis
  proof (cases "ac_starting (as_act s)")
    case True
    then have "starters (as_handlers s) \<noteq> 0" using d(3) by simp
    then obtain pc where "pc \<in> set (as_handlers s)" "is_starter pc"
      by (auto simp: starters_def filter_empty_conv)
    then obtain i where i: "i < length (as_handlers s)" "is_starter (as_handlers s ! i)"
      by (auto simp: in_set_conv_nth)
    from starter_progress [OF i(2), of 0 "as_act s"] show ?thesis
      using exec_handler_progress [OF i(1) idle] by blast
  next
    case start: False
    show ?thesis
    proof (cases "\<forall>pc \<in> set (as_handlers s). pc = HClosed")
      case True
      then have "ac_running (as_act s)" using assms(2) idle by (simp add: at_rest_def)
      then show ?thesis by (rule stop_progress [OF assms(1) True idle])
    next
      case False
      then obtain i where i: "i < length (as_handlers s)" "as_handlers s ! i \<noteq> HClosed"
        by (auto simp: in_set_conv_nth)
      from handler_progress [OF i(2) start stop pc_ok_nth [OF inv i(1)], of 0] show ?thesis
        using exec_handler_progress [OF i(1) idle] by blast
    qed
  qed
qed

interpretation act_liveness: progress act_exec allowed settled_cfg at_rest act_rank
  by unfold_locales (use act_progress settled_exec in blast)

lemma act_run_runs: "act_run ls s = runs act_exec ls s"
  by (induction ls arbitrary: s) (simp_all split: option.split)

lemma reach_cfg: "reach (act_init cfg has_sup) act_next s \<Longrightarrow> ac_cfg (as_act s) = cfg"
proof (induction rule: reach.induct)
  case (reach_init s)
  then show ?case by (simp add: act_init_def act_start_def activator_new_def)
next
  case (reach_step s t)
  from reach_step.hyps(2) have "ac_cfg (as_act t) = ac_cfg (as_act s)"
    by (cases rule: act_next_cases) (auto simp: conn_opened_def dest: handler_step_cfg idle_step_cfg)
  then show ?case using reach_step.IH by simp
qed

text \<open>C12. The activator never wedges: from every reachable state, with any number of connections
  waiting, starting, relaying or closing and an idle stop at any point, some continuation in which no
  context ends brings it to rest, every connection closed, the backend stopped and nothing monitored;
  fourteen steps per connection and six for the idle loop are enough.\<close>

theorem activator_comes_to_rest:
  assumes "reach (act_init cfg has_sup) act_next s" "sa_idle_timeout cfg \<le> int64_max"
  shows "\<exists>ls t. list_all allowed ls \<and> length ls \<le> 14 * length (as_handlers s) + 6 \<and> act_run ls s = Some t
    \<and> at_rest t \<and> ac_active (as_act t) = 0 \<and> \<not> watched (as_act t)"
proof -
  have inv: "act_inv s" by (rule act_system.inv_reach [OF assms(1)])
  then have "settled_cfg s" using assms(2) reach_cfg [OF assms(1)] by (simp add: settled_cfg_def)
  from act_liveness.goal_reachable [OF this] obtain ls t where
    t: "list_all allowed ls" "length ls \<le> act_rank s" "runs act_exec ls s = Some t" "settled_cfg t" "at_rest t"
    by blast
  have "pc_rank pc \<le> 14" for pc :: "'b pc" by (cases pc) simp_all
  then have "sum_list (map pc_rank hs) \<le> 14 * length hs" for hs :: "'b pc list"
    by (induction hs) (auto intro: add_mono)
  moreover have "idle_rank b p \<le> 6" for b p by (cases p) simp_all
  ultimately have "act_rank s \<le> 14 * length (as_handlers s) + 6"
    unfolding act_rank_def by (intro add_mono)
  moreover note e = act_invD [OF t(4) [unfolded settled_cfg_def, THEN conjunct1]]
  have "ac_active (as_act t) = 0" using e(2) t(5) by (simp add: at_rest_def open_handlers_def)
  moreover have "\<not> watched (as_act t)" using e(9) t(5) by (auto simp: at_rest_def)
  ultimately show ?thesis using t act_run_runs by (metis le_trans)
qed

theorem activator_comes_to_rest_witness:
  "\<exists>s ls t. act_run first_connection (act_start sample_listener True) = Some s \<and> list_all allowed ls
     \<and> act_run ls s = Some t \<and> at_rest t"
proof -
  obtain s where s: "act_run first_connection (act_start sample_listener True) = Some s"
    using first_connection_run by blast
  have "sa_idle_timeout sample_listener \<le> int64_max"
    by (simp add: sample_listener_def second_def int64_max_def)
  from activator_comes_to_rest [OF reach_run_start [OF s] this] s show ?thesis by blast
qed

end
