(* ===== verification/ActivatorIdle.thy ===== *)
theory ActivatorIdle
  imports ActivatorLiveness
begin

text \<open>
  The idle stop of \<^verbatim>\<open>activator.go\<close> (\<^verbatim>\<open>maybeStopIdle\<close>) over whole runs of the activator: when it
  begins, with \<open>ac_last_active\<close> tied to the connections and the traffic of the run, and what is left
  behind when the unit controller refuses it.
\<close>

section \<open>The last activity of a run\<close>

text \<open>
  The steps at which something happens on a connection: it is opened, it is closed, or bytes
  pass. \<open>last_activity\<close> is the time of the last one in a run, from the labels alone (the counter of a
  handler says whether its next step is the closing one).
\<close>

fun activity_at :: "'e act_label \<Rightarrow> 'e act_sys \<Rightarrow> instant option" where
  "activity_at (OpenAt now) s = Some now"
| "activity_at (HandlerAt i now inp) s =
     (if inp = TrafficSeen \<or> as_handlers s ! i = HClosing then Some now else None)"
| "activity_at (IdleAt now inp) s = None"

fun last_activity :: "instant \<Rightarrow> 'e act_label list \<Rightarrow> 'e act_sys \<Rightarrow> instant" where
  "last_activity t [] s = t"
| "last_activity t (l # ls) s =
     (case act_exec l s of
        None \<Rightarrow> t
      | Some s' \<Rightarrow> last_activity (case activity_at l s of None \<Rightarrow> t | Some now \<Rightarrow> now) ls s')"

lemma last_active_frame [simp]:
  "ac_last_active (close_chan c a) = ac_last_active a" "ac_last_active (fst (start_monitor a)) = ac_last_active a"
  "ac_last_active (fst (stop_monitor a)) = ac_last_active a"
  "ac_last_active (fst (ensure_finish c err a)) = ac_last_active a"
  by (simp_all add: close_chan_def start_monitor_def stop_monitor_def ensure_finish_fst finished_def
      split: option.split prod.split)

lemma handler_step_last_active:
  "handler_step now inp pc a = Some (pc', a', calls) \<Longrightarrow>
     ac_last_active a' = (if inp = TrafficSeen \<or> pc = HClosing then now else ac_last_active a)"
proof (cases pc)
  case (HFinish c err)
  assume "handler_step now inp pc a = Some (pc', a', calls)"
  then have "a' = fst (ensure_finish c err a)" "inp = Proceed" using HFinish
    by (auto simp: handler_step_def split: if_splits prod.splits)
  with HFinish show ?thesis by simp
qed (auto simp: handler_step_def ensure_enter_def Let_def mark_traffic_def conn_closed_def
    split: if_splits input.splits option.splits poll_next.splits prod.splits)

lemma idle_step_last_active:
  "idle_step now inp pc a = Some (pc', a', calls) \<Longrightarrow> ac_last_active a' = ac_last_active a"
proof (cases pc)
  case IIdle
  assume step: "idle_step now inp pc a = Some (pc', a', calls)"
  have "ac_last_active (fst (snd (idle_enter now a))) = ac_last_active a"
    by (simp add: idle_enter_def Let_def case_prod_unfold)
  then show ?thesis using step IIdle
    by (auto simp: idle_step_def split: if_splits prod.splits option.splits)
qed (auto simp: idle_step_def idle_stopped_def idle_release_def split: if_splits input.splits option.splits)

lemma act_exec_last_active:
  "act_exec l s = Some t \<Longrightarrow>
     ac_last_active (as_act t) = (case activity_at l s of None \<Rightarrow> ac_last_active (as_act s) | Some now \<Rightarrow> now)"
  by (cases l)
    (auto simp: conn_opened_def split: if_splits option.splits
      dest: handler_step_last_active idle_step_last_active)

lemma act_run_last_active:
  "act_run ls s = Some t \<Longrightarrow> ac_last_active (as_act t) = last_activity (ac_last_active (as_act s)) ls s"
  by (induction ls arbitrary: s) (auto split: option.splits dest: act_exec_last_active)

section \<open>When an idle stop begins\<close>

lemma idle_enter_cases:
  assumes "int64_min < sa_idle_timeout (ac_cfg a)" "sa_idle_timeout (ac_cfg a) \<le> int64_max"
  obtains (stays) "idle_enter now a = (None, a, [])"
      "\<not> (ac_running a \<and> \<not> ac_starting a \<and> \<not> ac_stopping a \<and> ac_active a \<le> 0
          \<and> sa_idle_timeout (ac_cfg a) \<le> now - ac_last_active a)"
  | (stops) c b where "idle_enter now a = (Some c, b, (case ac_monitor a of None \<Rightarrow> [] | Some m \<Rightarrow> snd (um_stop m)))"
      "ac_running a" "\<not> ac_starting a" "\<not> ac_stopping a" "ac_active a \<le> 0"
      "sa_idle_timeout (ac_cfg a) \<le> now - ac_last_active a" "ac_running b" "\<not> watched b"
proof (cases "ac_running a \<and> \<not> ac_starting a \<and> \<not> ac_stopping a \<and> ac_active a \<le> 0
    \<and> sa_idle_timeout (ac_cfg a) \<le> now - ac_last_active a")
  case False
  then show thesis
    using time_sub_less_iff [OF assms, of now "ac_last_active a"] by (intro stays) (auto simp: idle_enter_def)
next
  case True
  let ?a = "a\<lparr>ac_stopping := True, ac_stop_wait := Some (length (ac_chans a)), ac_chans := ac_chans a @ [False]\<rparr>"
  have "\<not> watched (fst (stop_monitor ?a))" "ac_running (fst (stop_monitor ?a))" using True by simp_all
  moreover have "idle_enter now a = (Some (Some (length (ac_chans a))), fst (stop_monitor ?a), snd (stop_monitor ?a))"
    using True time_sub_less_iff [OF assms, of now "ac_last_active a"] by (simp add: idle_enter_def Let_def case_prod_unfold)
  moreover have "snd (stop_monitor ?a) = (case ac_monitor a of None \<Rightarrow> [] | Some m \<Rightarrow> snd (um_stop m))"
    by (simp add: stop_monitor_def case_prod_unfold split: option.split)
  ultimately show thesis using True stops [of "Some (length (ac_chans a))" "fst (stop_monitor ?a)"] by simp
qed

text \<open>C26. The idle loop's turn at \<open>now\<close>, at any point of any run of the activator: it begins a stop exactly
  when the backend runs, every connection has been closed, and the idle timeout has passed since
  the last time a connection was opened or closed or bytes passed on one. Otherwise nothing
  changes. When it does, the unit's checks are ended and the unit is unregistered from the
  supervisor (with the monitor, if the listener has one) before the unit controller is asked, and
  the backend is not watched until the controller has answered.\<close>

theorem idle_stop_iff:
  assumes "act_run ls (act_start cfg has_sup) = Some s" "as_idle s = IIdle"
    and "int64_min < sa_idle_timeout cfg" "sa_idle_timeout cfg \<le> int64_max"
  shows "\<exists>t. act_exec (IdleAt now Proceed) s = Some t
    \<and> (as_idle t \<noteq> IIdle \<longleftrightarrow>
        ac_running (as_act s) \<and> (\<forall>pc \<in> set (as_handlers s). pc = HClosed)
        \<and> sa_idle_timeout cfg \<le> now - last_activity zero_time ls (act_start cfg has_sup))
    \<and> (as_idle t = IIdle \<longrightarrow> t = s)
    \<and> (as_idle t \<noteq> IIdle \<longrightarrow>
        (\<exists>c. as_idle t = IStop c)
        \<and> as_calls t = rev (case ac_monitor (as_act s) of None \<Rightarrow> [] | Some m \<Rightarrow> snd (um_stop m)) @ as_calls s
        \<and> (\<forall>ls' v. act_run ls' t = Some v \<longrightarrow> as_idle v = as_idle t \<longrightarrow> \<not> watched (as_act v)))"
proof -
  have reach: "reach (act_init cfg has_sup) act_next s" by (rule reach_run_start [OF assms(1)])
  have inv: "act_inv s" by (rule act_system.inv_reach [OF reach])
  note d = act_invD [OF inv]
  have cfg: "ac_cfg (as_act s) = cfg" by (rule reach_cfg [OF reach])
  have last: "ac_last_active (as_act s) = last_activity zero_time ls (act_start cfg has_sup)"
    using act_run_last_active [OF assms(1)] by (simp add: act_start_def activator_new_def)
  have closed: "ac_active (as_act s) \<le> 0 \<longleftrightarrow> (\<forall>pc \<in> set (as_handlers s). pc = HClosed)"
    using d(2) by (auto simp: open_handlers_def filter_empty_conv)
  have free: "\<not> ac_stopping (as_act s)" "ac_running (as_act s) \<Longrightarrow> \<not> ac_starting (as_act s)"
    using d(4,5) assms(2) by auto
  have bounds: "int64_min < sa_idle_timeout (ac_cfg (as_act s))" "sa_idle_timeout (ac_cfg (as_act s)) \<le> int64_max"
    using assms(3,4) cfg by simp_all
  from bounds show ?thesis
  proof (cases rule: idle_enter_cases [where now = now])
    case stays
    then show ?thesis
      using free closed assms(2) by (auto simp: idle_step_def cfg last)
  next
    case (stops c b)
    let ?t = "s\<lparr>as_act := b, as_idle := IStop c,
      as_calls := rev (case ac_monitor (as_act s) of None \<Rightarrow> [] | Some m \<Rightarrow> snd (um_stop m)) @ as_calls s\<rparr>"
    have t: "act_exec (IdleAt now Proceed) s = Some ?t" using stops(1) assms(2) by (simp add: idle_step_def)
    have "reach (act_init cfg has_sup) act_next ?t" by (rule reach_step [OF reach act_exec_next [OF t]])
    then have "\<not> watched (as_act v)" if "act_run ls' ?t = Some v" "as_idle v = IStop c" for ls' v
      using act_invD(5,9) [OF act_system.inv_reach [OF reach_act_run [OF _ that(1)]]] that(2) by auto
    with t show ?thesis using stops(2-6) closed by (intro exI [of _ ?t]) (simp add: cfg last)
  qed
qed

definition idle_again :: "string act_label list" where
  "idle_again = first_connection @ [HandlerAt 0 6 RelayEnds, HandlerAt 0 7 Proceed]"

theorem idle_stop_iff_witness:
  "\<exists>s t. act_run idle_again (act_start sample_listener True) = Some s
     \<and> last_activity zero_time idle_again (act_start sample_listener True) = 7
     \<and> act_exec (IdleAt (100 * second) Proceed) s = Some t \<and> (\<exists>c. as_idle t = IStop c)"
proof -
  obtain s where s: "act_run idle_again (act_start sample_listener True) = Some s" "as_idle s = IIdle"
    "ac_running (as_act s)" "as_handlers s = [HClosed]"
    by (simp add: idle_again_def first_connection_def act_eval)
  have l: "last_activity zero_time idle_again (act_start sample_listener True) = 7"
    by (simp add: idle_again_def first_connection_def act_eval)
  have b: "int64_min < sa_idle_timeout sample_listener" "sa_idle_timeout sample_listener \<le> int64_max"
    "sa_idle_timeout sample_listener \<le> 100 * second - 7"
    by (simp_all add: sample_listener_def second_def int64_min_def int64_max_def)
  from idle_stop_iff [OF s(1,2) b(1,2), of "100 * second"] s(3,4) b(3) show ?thesis
    using s(1) l by auto
qed

section \<open>A refused idle stop\<close>

text \<open>
  A backend that runs unwatched, with no stop of it granted: it stays so until the controller grants
  one, since only a startup starts the monitor and a running backend is not started.
\<close>

definition unattended :: "'e act_sys \<Rightarrow> bool" where
  "unattended s \<longleftrightarrow>
     act_inv s \<and> ac_running (as_act s) \<and> \<not> watched (as_act s) \<and> (\<forall>c. as_idle s \<noteq> IMark c)"

definition grants_stop :: "'e act_label \<Rightarrow> bool" where
  "grants_stop l \<longleftrightarrow> (\<exists>now. l = IdleAt now (ControllerAnswers None))"

lemma unattended_handler:
  assumes "unattended s" "i < length (as_handlers s)"
    and step: "handler_step now inp (as_handlers s ! i) (as_act s) = Some (pc, a, calls)"
  shows "ac_running a \<and> \<not> watched a \<and> (ac_monitor a = None \<longleftrightarrow> ac_monitor (as_act s) = None)"
proof -
  have inv: "act_inv s" and run: "ac_running (as_act s)" and unwatched: "\<not> watched (as_act s)"
    using assms(1) by (simp_all add: unattended_def)
  have "\<not> is_starter (as_handlers s ! i)"
    using act_invD(3,4) [OF inv] run by (intro no_starters [OF _ assms(2)]) auto
  then show ?thesis using step run unwatched
    by (cases "as_handlers s ! i")
      (auto simp: is_starter_def handler_step_def ensure_enter_def watched_def mark_traffic_def conn_closed_def
        split: if_splits input.splits option.splits prod.splits)
qed

lemma unattended_idle:
  assumes "unattended s" "\<not> grants_stop (IdleAt now inp)"
    and step: "idle_step now inp (as_idle s) (as_act s) = Some (pc, a, calls)"
  shows "ac_running a \<and> \<not> watched a \<and> (ac_monitor a = None \<longleftrightarrow> ac_monitor (as_act s) = None) \<and> (\<forall>c. pc \<noteq> IMark c)"
proof (cases "as_idle s")
  case IIdle
  have "ac_monitor (fst (stop_monitor b)) = None \<longleftrightarrow> ac_monitor b = None" for b :: "'a activator"
    by (simp add: stop_monitor_def um_stop_def split: option.split)
  then have "ac_running (fst (snd (idle_enter now (as_act s)))) \<and> \<not> watched (fst (snd (idle_enter now (as_act s))))
      \<and> (ac_monitor (fst (snd (idle_enter now (as_act s)))) = None \<longleftrightarrow> ac_monitor (as_act s) = None)"
    using assms(1) by (simp add: idle_enter_def unattended_def Let_def case_prod_unfold)
  then show ?thesis using step IIdle by (auto simp: idle_step_def split: if_splits prod.splits option.splits)
next
  case (IStop c)
  with step assms show ?thesis
    by (auto simp: idle_step_def unattended_def grants_stop_def split: input.splits option.splits)
next
  case (IRelease c)
  with step assms show ?thesis
    by (auto simp: idle_step_def unattended_def idle_release_def close_chan_def watched_def split: if_splits option.splits)
qed (use assms in \<open>simp_all add: unattended_def\<close>)

lemma unattended_exec:
  assumes "unattended s" "\<not> grants_stop l" "act_exec l s = Some t"
  shows "unattended t \<and> (ac_monitor (as_act t) = None \<longleftrightarrow> ac_monitor (as_act s) = None)"
proof -
  have "act_inv t" using assms(1) act_inv_step [OF _ act_exec_next [OF assms(3)]] by (simp add: unattended_def)
  moreover have "ac_running (as_act t) \<and> \<not> watched (as_act t) \<and> (\<forall>c. as_idle t \<noteq> IMark c)
      \<and> (ac_monitor (as_act t) = None \<longleftrightarrow> ac_monitor (as_act s) = None)"
  proof (cases l)
    case (OpenAt now)
    with assms show ?thesis by (auto simp: unattended_def conn_opened_def watched_def)
  next
    case (HandlerAt i now inp)
    with assms unattended_handler [OF assms(1), of i now inp] show ?thesis
      by (auto simp: unattended_def split: if_splits option.splits)
  next
    case (IdleAt now inp)
    with assms unattended_idle [OF assms(1), of now inp] show ?thesis
      by (auto split: option.splits)
  qed
  ultimately show ?thesis by (simp add: unattended_def)
qed

lemma unattended_run:
  assumes "unattended s" "list_all (\<lambda>l. \<not> grants_stop l) ls" "act_run ls s = Some t"
  shows "unattended t \<and> (ac_monitor (as_act t) = None \<longleftrightarrow> ac_monitor (as_act s) = None)"
  using assms
proof (induction ls arbitrary: s)
  case (Cons l ls)
  then obtain s' where "act_exec l s = Some s'" "act_run ls s' = Some t" by (auto split: option.splits)
  with Cons unattended_exec [of s l s'] show ?case by auto
qed simp

text \<open>While an idle stop waits for the controller the backend still counts as running.\<close>

definition stop_running :: "'e act_sys \<Rightarrow> bool" where
  "stop_running s \<longleftrightarrow> act_inv s \<and> (\<forall>c. as_idle s = IStop c \<or> as_idle s = IMark c \<longrightarrow> ac_running (as_act s))"

lemma stop_running_step:
  assumes "stop_running s" "act_next s t"
  shows "stop_running t"
  using assms(2)
proof cases
  case (opened now)
  with assms show ?thesis using act_inv_step [OF _ assms(2)] by (auto simp: stop_running_def conn_opened_def)
next
  case (handler i now inp pc a calls)
  have inv: "act_inv s" "act_inv t" using assms act_inv_step [OF _ assms(2)] by (auto simp: stop_running_def)
  have "ac_running a" if "as_idle s \<noteq> IIdle" "ac_running (as_act s)"
  proof -
    have "\<not> is_starter (as_handlers s ! i)"
      using act_invD(3,4) [OF inv(1)] that(2) by (intro no_starters [OF _ handler(2)]) auto
    then show ?thesis using handler(3) that(2)
      by (cases "as_handlers s ! i")
        (auto simp: is_starter_def handler_step_def ensure_enter_def mark_traffic_def conn_closed_def
          split: if_splits input.splits option.splits prod.splits)
  qed
  with handler assms(1) inv show ?thesis by (auto simp: stop_running_def)
next
  case (idle now inp pc a calls)
  have inv: "act_inv t" using assms act_inv_step [OF _ assms(2)] by (auto simp: stop_running_def)
  have "ac_running a" if "pc = IStop c \<or> pc = IMark c" for c
  proof (cases "as_idle s")
    case IIdle
    then have "ac_running (fst (snd (idle_enter now (as_act s))))" if "fst (idle_enter now (as_act s)) \<noteq> None"
      using that by (auto simp: idle_enter_def Let_def case_prod_unfold split: if_splits)
    with IIdle idle(2) that show ?thesis by (auto simp: idle_step_def split: if_splits prod.splits option.splits)
  next
    case (IStop d)
    with idle(2) that assms(1) show ?thesis
      by (auto simp: idle_step_def stop_running_def split: input.splits option.splits)
  qed (use idle(2) that in \<open>auto simp: idle_step_def split: if_splits\<close>)
  with idle(1) inv show ?thesis by (auto simp: stop_running_def)
qed

lemma stop_running_start: "stop_running (act_start cfg has_sup)"
  unfolding stop_running_def by (intro conjI act_inv_start) (simp add: act_start_def)

interpretation idle_system: transition_invariant "act_init cfg has_sup" act_next stop_running
  for cfg :: socket_activation_config and has_sup :: bool
  by unfold_locales (simp_all add: act_init_def stop_running_start stop_running_step)

text \<open>C39. A refused idle stop leaves the backend unattended. Whenever the unit controller answers an idle
  stop with an error, in any run, the backend goes on running, and however the run continues
  (connections served, further refused stops) it stays running and unmonitored until the controller
  grants a stop: the monitor, where there is one, was stopped before the unit and only a startup
  starts it again.\<close>

theorem refused_idle_stop_leaves_backend_unmonitored:
  assumes "reach (act_init cfg has_sup) act_next s" "as_idle s = IStop c"
    and "act_exec (IdleAt now (ControllerAnswers (Some e))) s = Some t"
    and "list_all (\<lambda>l. \<not> grants_stop l) ls" "act_run ls t = Some v"
  shows "ac_running (as_act v) \<and> \<not> watched (as_act v)
    \<and> (ac_monitor (as_act v) = None \<longleftrightarrow> ac_monitor (as_act s) = None)"
proof -
  have run: "ac_running (as_act s)" and inv: "act_inv s"
    using idle_system.inv_reach [OF assms(1)] assms(2) by (auto simp: stop_running_def)
  have "ac_stopping (as_act s)" using act_invD(5) [OF inv] assms(2) by simp
  then have "\<not> watched (as_act s)" using act_invD(9) [OF inv] by blast
  moreover have t: "t = s\<lparr>as_idle := IRelease c\<rparr>" using assms(2,3) by (auto simp: idle_step_def)
  moreover have "act_inv t" by (rule act_inv_step [OF inv act_exec_next [OF assms(3)]])
  ultimately have "unattended t" using run by (simp add: unattended_def)
  from unattended_run [OF this assms(4,5)] show ?thesis by (simp add: unattended_def t)
qed

text \<open>Served on after a refused stop: a new connection relays, nobody monitors the backend.\<close>

definition served_on :: "string act_label list" where
  "served_on = [IdleAt (100 * second) Proceed, OpenAt (101 * second), HandlerAt 1 (101 * second) Proceed,
     HandlerAt 1 (101 * second) (DialAnswers True)]"

theorem refused_idle_stop_leaves_backend_unmonitored_witness:
  "\<exists>s t v. act_run (idle_again @ [IdleAt (100 * second) Proceed]) (act_start sample_listener True) = Some s
     \<and> act_exec (IdleAt (100 * second) (ControllerAnswers (Some ''busy''))) s = Some t
     \<and> act_run served_on t = Some v \<and> HRelay \<in> set (as_handlers v)
     \<and> ac_running (as_act v) \<and> \<not> watched (as_act v) \<and> ac_monitor (as_act v) \<noteq> None"
proof -
  obtain s where s: "act_run (idle_again @ [IdleAt (100 * second) Proceed]) (act_start sample_listener True) = Some s"
    "\<exists>c. as_idle s = IStop c" "ac_monitor (as_act s) \<noteq> None"
    "\<exists>t v. act_exec (IdleAt (100 * second) (ControllerAnswers (Some ''busy''))) s = Some t
       \<and> act_run served_on t = Some v \<and> HRelay \<in> set (as_handlers v)"
    by (simp add: idle_again_def first_connection_def served_on_def act_eval)
  then obtain c t v where t: "as_idle s = IStop c"
    "act_exec (IdleAt (100 * second) (ControllerAnswers (Some ''busy''))) s = Some t"
    "act_run served_on t = Some v" "HRelay \<in> set (as_handlers v)" by blast
  have "list_all (\<lambda>l. \<not> grants_stop l) served_on" by (simp add: served_on_def grants_stop_def)
  from refused_idle_stop_leaves_backend_unmonitored [OF reach_run_start [OF s(1)] t(1,2) this t(3)] s(1,3) t
  show ?thesis by blast
qed

end
