(* ===== verification/UdpProxy.thy ===== *)
theory UdpProxy
  imports ActivatorSystem "HOL-Library.Multiset"
begin

text \<open>
  \<^verbatim>\<open>internal/socketactivation/udp.go\<close>: the UDP sessions of one listener. The map holds pointers, and
  the reply loop of a session keeps its own, so the sessions live in a heap (addresses are indices)
  and the map holds addresses. The read loop, the reply loops and the expiry loop are program
  counters; a step is one critical section, one call of the activator, or one answer of a socket.

  A session opens and closes one connection of the activator, so it is a connection handler of
  \<open>ActivatorSystem\<close>: \<open>ses_handler\<close> is its index there, a ghost, and \<open>ensureRunning\<close> inside
  \<^verbatim>\<open>session\<close> is that handler's own steps.
\<close>

section \<open>State\<close>

definition udp_session_ttl :: duration where
  "udp_session_ttl = 30 * second"

record udp_session =
  ses_handler :: nat
  ses_key :: string
  ses_last_seen :: instant
  ses_closed :: bool

text \<open>Inside \<^verbatim>\<open>closeSession\<close>: the critical section, the close of the backend socket, \<^verbatim>\<open>connClosed\<close>.\<close>

datatype close_stage = CloseLookup | CloseBackend nat | CloseCount nat

datatype reader_pc =
  RdRead
| RdLookup string
| RdOpen string
| RdEnsure string nat
| RdInsert string nat instant
| RdDrop string nat nat
| RdFail nat
| RdMark string nat
| RdWrite string nat
| RdClosing string close_stage
| RdSwap
| RdCloseAll "nat list"
| RdCountAll nat "nat list"
| RdDone

datatype reply_pc =
  PyCheck
| PyRead
| PyMark bool
| PySeen bool
| PyWrite bool
| PyClosing close_stage
| PyDone

datatype expire_pc =
  XWait
| XScan instant
| XNext "string list"
| XClosing string close_stage "string list"
| XDone

record 'e udp_sys =
  ud_sys :: "'e act_sys"
  ud_sessions :: "nat gomap"
  ud_heap :: "udp_session list"
  ud_reader :: reader_pc
  ud_replies :: "reply_pc list"
  ud_expire :: expire_pc
  ud_double_close :: bool

section \<open>The activator's calls\<close>

definition udp_opened :: "instant \<Rightarrow> 'e udp_sys \<Rightarrow> 'e udp_sys" where
  "udp_opened now s =
     s\<lparr>ud_sys := (ud_sys s)\<lparr>as_act := conn_opened now (as_act (ud_sys s)),
                           as_handlers := as_handlers (ud_sys s) @ [HEnter]\<rparr>\<rparr>"

definition udp_mark :: "instant \<Rightarrow> 'e udp_sys \<Rightarrow> 'e udp_sys" where
  "udp_mark now s = s\<lparr>ud_sys := (ud_sys s)\<lparr>as_act := mark_traffic now (as_act (ud_sys s))\<rparr>\<rparr>"

definition handler_at :: "nat \<Rightarrow> 'e pc \<Rightarrow> 'e udp_sys \<Rightarrow> 'e udp_sys" where
  "handler_at h pc s = s\<lparr>ud_sys := (ud_sys s)\<lparr>as_handlers := (as_handlers (ud_sys s))[h := pc]\<rparr>\<rparr>"

definition udp_closed :: "instant \<Rightarrow> nat \<Rightarrow> 'e udp_sys \<Rightarrow> 'e udp_sys" where
  "udp_closed now h s =
     handler_at h HClosed (s\<lparr>ud_sys := (ud_sys s)\<lparr>as_act := conn_closed now (as_act (ud_sys s))\<rparr>\<rparr>)"

section \<open>Sessions\<close>

definition ses_at :: "'e udp_sys \<Rightarrow> nat \<Rightarrow> udp_session" where
  "ses_at s sid = ud_heap s ! sid"

definition seen :: "instant \<Rightarrow> nat \<Rightarrow> 'e udp_sys \<Rightarrow> 'e udp_sys" where
  "seen now sid s = s\<lparr>ud_heap := (ud_heap s)[sid := (ses_at s sid)\<lparr>ses_last_seen := now\<rparr>]\<rparr>"

definition close_backend :: "nat \<Rightarrow> 'e udp_sys \<Rightarrow> 'e udp_sys" where
  "close_backend sid s =
     s\<lparr>ud_double_close := ud_double_close s \<or> ses_closed (ses_at s sid),
       ud_heap := (ud_heap s)[sid := (ses_at s sid)\<lparr>ses_closed := True\<rparr>]\<rparr>"

text \<open>\<^verbatim>\<open>closeSession\<close>, one stage at a time; \<open>None\<close> is its return.\<close>

definition close_session ::
  "instant \<Rightarrow> string \<Rightarrow> close_stage \<Rightarrow> 'e udp_sys \<Rightarrow> close_stage option \<times> 'e udp_sys" where
  "close_session now key st s =
     (case st of
        CloseLookup \<Rightarrow>
          (case map_of (ud_sessions s) key of
             None \<Rightarrow> (None, s)
           | Some sid \<Rightarrow>
               (Some (CloseBackend sid),
                handler_at (ses_handler (ses_at s sid)) HClosing
                  (s\<lparr>ud_sessions := AList.delete key (ud_sessions s)\<rparr>)))
      | CloseBackend sid \<Rightarrow> (Some (CloseCount sid), close_backend sid s)
      | CloseCount sid \<Rightarrow> (None, udp_closed now (ses_handler (ses_at s sid)) s))"

text \<open>The first critical section of \<^verbatim>\<open>session\<close>, and the one after the dial.\<close>

definition session_lookup :: "instant \<Rightarrow> string \<Rightarrow> 'e udp_sys \<Rightarrow> reader_pc \<times> 'e udp_sys" where
  "session_lookup now key s =
     (case map_of (ud_sessions s) key of
        Some sid \<Rightarrow> (RdMark key sid, seen now sid s)
      | None \<Rightarrow> (RdOpen key, s))"

definition session_insert :: "string \<Rightarrow> nat \<Rightarrow> instant \<Rightarrow> 'e udp_sys \<Rightarrow> reader_pc \<times> 'e udp_sys" where
  "session_insert key h created s =
     (case map_of (ud_sessions s) key of
        Some existing \<Rightarrow> (RdDrop key h existing, handler_at h HClosing s)
      | None \<Rightarrow>
          (let sid = length (ud_heap s) in
           (RdMark key sid,
            s\<lparr>ud_heap := ud_heap s @ [\<lparr>ses_handler = h, ses_key = key, ses_last_seen = created, ses_closed = False\<rparr>],
              ud_sessions := AList.update key sid (ud_sessions s),
              ud_replies := ud_replies s @ [PyCheck]\<rparr>)))"

text \<open>The first critical section of \<^verbatim>\<open>expireIdle\<close>.\<close>

definition stale_keys :: "instant \<Rightarrow> 'e udp_sys \<Rightarrow> string list" where
  "stale_keys now s =
     map fst (filter (\<lambda>(key, sid). time_sub now (ses_last_seen (ses_at s sid)) \<ge> udp_session_ttl) (ud_sessions s))"

text \<open>The critical section of \<^verbatim>\<open>closeAllSessions\<close>: the sessions it will close, in the map's order.\<close>

definition swap_sessions :: "'e udp_sys \<Rightarrow> nat list \<times> 'e udp_sys" where
  "swap_sessions s =
     (map snd (ud_sessions s),
      fold (\<lambda>sid. handler_at (ses_handler (ses_at s sid)) HClosing) (map snd (ud_sessions s)) (s\<lparr>ud_sessions := []\<rparr>))"

section \<open>The loops\<close>

datatype 'e udp_input =
  Go
| GotDatagram string
| ReadFailed
| ListenerClosed
| Ensure "'e input"
| Wrote bool
| Replied bool bool
| CtxGone
| Tick

definition reader_step :: "instant \<Rightarrow> 'e udp_input \<Rightarrow> 'e udp_sys \<Rightarrow> (reader_pc \<times> 'e udp_sys) option" where
  "reader_step now inp s =
     (case ud_reader s of
        RdRead \<Rightarrow>
          (case inp of
             GotDatagram key \<Rightarrow> Some (RdLookup key, s)
           | ReadFailed \<Rightarrow> Some (RdRead, s)
           | ListenerClosed \<Rightarrow> Some (RdSwap, s)
           | _ \<Rightarrow> None)
      | RdLookup key \<Rightarrow> if inp = Go then Some (session_lookup now key s) else None
      | RdOpen key \<Rightarrow>
          if inp = Go then Some (RdEnsure key (length (as_handlers (ud_sys s))), udp_opened now s) else None
      | RdEnsure key h \<Rightarrow>
          (case inp of
             Ensure i \<Rightarrow>
               (case handler_step now i (as_handlers (ud_sys s) ! h) (as_act (ud_sys s)) of
                  None \<Rightarrow> None
                | Some (pc, a, calls) \<Rightarrow>
                    Some (if pc = HRelay then RdInsert key h now else if pc = HClosing then RdFail h else RdEnsure key h,
                      s\<lparr>ud_sys := (ud_sys s)\<lparr>as_act := a, as_handlers := (as_handlers (ud_sys s))[h := pc],
                                           as_calls := rev calls @ as_calls (ud_sys s)\<rparr>\<rparr>))
           | _ \<Rightarrow> None)
      | RdInsert key h created \<Rightarrow> if inp = Go then Some (session_insert key h created s) else None
      | RdDrop key h existing \<Rightarrow> if inp = Go then Some (RdMark key existing, udp_closed now h s) else None
      | RdFail h \<Rightarrow> if inp = Go then Some (RdRead, udp_closed now h s) else None
      | RdMark key sid \<Rightarrow> if inp = Go then Some (RdWrite key sid, udp_mark now s) else None
      | RdWrite key sid \<Rightarrow>
          (case inp of
             Wrote ok \<Rightarrow>
               if ok then (if ses_closed (ses_at s sid) then None else Some (RdRead, s))
               else Some (RdClosing key CloseLookup, s)
           | _ \<Rightarrow> None)
      | RdClosing key st \<Rightarrow>
          if inp = Go then
            (case close_session now key st s of
               (None, s') \<Rightarrow> Some (RdRead, s')
             | (Some st', s') \<Rightarrow> Some (RdClosing key st', s'))
          else None
      | RdSwap \<Rightarrow>
          if inp = Go then (case swap_sessions s of (sids, s') \<Rightarrow> Some (RdCloseAll sids, s')) else None
      | RdCloseAll [] \<Rightarrow> if inp = Go then Some (RdDone, s) else None
      | RdCloseAll (sid # sids) \<Rightarrow> if inp = Go then Some (RdCountAll sid sids, close_backend sid s) else None
      | RdCountAll sid sids \<Rightarrow>
          if inp = Go then Some (RdCloseAll sids, udp_closed now (ses_handler (ses_at s sid)) s) else None
      | RdDone \<Rightarrow> None)"

definition reply_step :: "nat \<Rightarrow> instant \<Rightarrow> 'e udp_input \<Rightarrow> 'e udp_sys \<Rightarrow> (reply_pc \<times> 'e udp_sys) option" where
  "reply_step sid now inp s =
     (case ud_replies s ! sid of
        PyCheck \<Rightarrow> if inp = Go then Some (PyRead, s) else if inp = CtxGone then Some (PyDone, s) else None
      | PyRead \<Rightarrow>
          (case inp of
             Replied got err \<Rightarrow>
               if ses_closed (ses_at s sid) \<and> (got \<or> \<not> err) then None
               else Some (if got then PyMark err else if err then PyClosing CloseLookup else PyCheck, s)
           | _ \<Rightarrow> None)
      | PyMark err \<Rightarrow> if inp = Go then Some (PySeen err, udp_mark now s) else None
      | PySeen err \<Rightarrow> if inp = Go then Some (PyWrite err, seen now sid s) else None
      | PyWrite err \<Rightarrow>
          (case inp of
             Wrote ok \<Rightarrow> Some (if \<not> ok \<or> err then PyClosing CloseLookup else PyCheck, s)
           | _ \<Rightarrow> None)
      | PyClosing st \<Rightarrow>
          if inp = Go then
            (case close_session now (ses_key (ses_at s sid)) st s of
               (None, s') \<Rightarrow> Some (PyDone, s')
             | (Some st', s') \<Rightarrow> Some (PyClosing st', s'))
          else None
      | PyDone \<Rightarrow> None)"

definition expire_step :: "instant \<Rightarrow> 'e udp_input \<Rightarrow> 'e udp_sys \<Rightarrow> (expire_pc \<times> 'e udp_sys) option" where
  "expire_step now inp s =
     (case ud_expire s of
        XWait \<Rightarrow> if inp = Tick then Some (XScan now, s) else if inp = CtxGone then Some (XDone, s) else None
      | XScan t \<Rightarrow> if inp = Go then Some (XNext (stale_keys t s), s) else None
      | XNext [] \<Rightarrow> if inp = Go then Some (XWait, s) else None
      | XNext (key # keys) \<Rightarrow> if inp = Go then Some (XClosing key CloseLookup keys, s) else None
      | XClosing key st keys \<Rightarrow>
          if inp = Go then
            (case close_session now key st s of
               (None, s') \<Rightarrow> Some (XNext keys, s')
             | (Some st', s') \<Rightarrow> Some (XClosing key st' keys, s'))
          else None
      | XDone \<Rightarrow> None)"

text \<open>The handlers that stand for UDP sessions, which the activator's other goroutines leave alone.\<close>

fun reader_handler :: "reader_pc \<Rightarrow> nat option" where
  "reader_handler (RdEnsure key h) = Some h"
| "reader_handler (RdInsert key h t) = Some h"
| "reader_handler (RdDrop key h sid) = Some h"
| "reader_handler (RdFail h) = Some h"
| "reader_handler _ = None"

definition udp_owned :: "'e udp_sys \<Rightarrow> nat \<Rightarrow> bool" where
  "udp_owned s h \<longleftrightarrow> h \<in> ses_handler ` set (ud_heap s) \<or> reader_handler (ud_reader s) = Some h"

datatype 'e udp_label =
  UActivator "'e act_label"
| UReader instant "'e udp_input"
| UReply nat instant "'e udp_input"
| UExpire instant "'e udp_input"

fun udp_exec :: "'e udp_label \<Rightarrow> 'e udp_sys \<Rightarrow> 'e udp_sys option" where
  "udp_exec (UActivator l) s =
     (if (case l of HandlerAt h now inp \<Rightarrow> udp_owned s h | _ \<Rightarrow> False) then None
      else map_option (\<lambda>t. s\<lparr>ud_sys := t\<rparr>) (act_exec l (ud_sys s)))"
| "udp_exec (UReader now inp) s =
     (case reader_step now inp s of None \<Rightarrow> None | Some (pc, s') \<Rightarrow> Some (s'\<lparr>ud_reader := pc\<rparr>))"
| "udp_exec (UReply sid now inp) s =
     (if sid < length (ud_replies s) then
        (case reply_step sid now inp s of
           None \<Rightarrow> None | Some (pc, s') \<Rightarrow> Some (s'\<lparr>ud_replies := (ud_replies s')[sid := pc]\<rparr>))
      else None)"
| "udp_exec (UExpire now inp) s =
     (case expire_step now inp s of None \<Rightarrow> None | Some (pc, s') \<Rightarrow> Some (s'\<lparr>ud_expire := pc\<rparr>))"

inductive udp_next :: "'e udp_sys \<Rightarrow> 'e udp_sys \<Rightarrow> bool" where
  "udp_exec l s = Some t \<Longrightarrow> udp_next s t"

inductive_cases udp_next_cases: "udp_next s t"

fun udp_run :: "'e udp_label list \<Rightarrow> 'e udp_sys \<Rightarrow> 'e udp_sys option" where
  "udp_run [] s = Some s"
| "udp_run (l # ls) s = (case udp_exec l s of None \<Rightarrow> None | Some t \<Rightarrow> udp_run ls t)"

definition udp_start :: "socket_activation_config \<Rightarrow> bool \<Rightarrow> 'e udp_sys" where
  "udp_start cfg has_sup =
     \<lparr>ud_sys = act_start cfg has_sup, ud_sessions = [], ud_heap = [], ud_reader = RdRead, ud_replies = [],
      ud_expire = XWait, ud_double_close = False\<rparr>"

definition udp_init :: "socket_activation_config \<Rightarrow> bool \<Rightarrow> 'e udp_sys \<Rightarrow> bool" where
  "udp_init cfg has_sup s \<longleftrightarrow> s = udp_start cfg has_sup"

lemma reach_udp_run: "reach init udp_next s \<Longrightarrow> udp_run ls s = Some t \<Longrightarrow> reach init udp_next t"
proof (induction ls arbitrary: s)
  case Nil
  then show ?case by simp
next
  case (Cons l ls)
  then obtain u where u: "udp_exec l s = Some u" "udp_run ls u = Some t" by (auto split: option.splits)
  show ?case by (rule Cons.IH [OF reach_step [OF Cons.prems(1) udp_next.intros [OF u(1)]] u(2)])
qed

section \<open>The ledger of sessions\<close>

text \<open>
  A session is live (in the map), being closed by exactly one thread, before or after that thread's
  close of the backend socket, or done. \<open>led_ok\<close> says so of the multisets of the live sessions and
  of those each thread still has to close or to count, and ties it to the activator's handlers.
\<close>

definition led_ok ::
  "nat multiset \<Rightarrow> nat multiset \<Rightarrow> nat multiset \<Rightarrow> udp_session list \<Rightarrow> 'e pc list \<Rightarrow> bool" where
  "led_ok L B C hp hs \<longleftrightarrow>
     distinct (map ses_handler hp) \<and> (\<forall>x \<in> set hp. ses_handler x < length hs)
     \<and> (\<forall>sid. sid \<in># L + B + C \<longrightarrow> sid < length hp)
     \<and> (\<forall>sid < length hp.
          count L sid + count B sid + count C sid \<le> 1
          \<and> hs ! ses_handler (hp ! sid) =
              (if sid \<in># L then HRelay else if sid \<in># B + C then HClosing else HClosed)
          \<and> ses_closed (hp ! sid) = (sid \<notin># L + B))"

lemma led_conj:
  assumes "led_ok L B C hp hs"
  shows "distinct (map ses_handler hp)" "\<forall>x \<in> set hp. ses_handler x < length hs"
    "\<forall>sid. sid \<in># L + B + C \<longrightarrow> sid < length hp"
    "\<forall>sid < length hp. count L sid + count B sid + count C sid \<le> 1
       \<and> hs ! ses_handler (hp ! sid) = (if sid \<in># L then HRelay else if sid \<in># B + C then HClosing else HClosed)
       \<and> ses_closed (hp ! sid) = (sid \<notin># L + B)"
  using assms unfolding led_ok_def atomize_conj conj_assoc .

lemma led_frame:
  assumes "led_ok L B C hp hs" "length hs \<le> length hs'" "\<And>x. x \<in> set hp \<Longrightarrow> hs' ! ses_handler x = hs ! ses_handler x"
  shows "led_ok L B C hp hs'"
  using led_conj [OF assms(1)] assms(2,3) unfolding led_ok_def by fastforce

lemma led_heap_cong:
  assumes "led_ok L B C hp hs" "map ses_handler hp' = map ses_handler hp" "map ses_closed hp' = map ses_closed hp"
  shows "led_ok L B C hp' hs"
proof -
  have len: "length hp' = length hp" using assms(2) by (rule map_eq_imp_length_eq)
  have h: "ses_handler (hp' ! i) = ses_handler (hp ! i)" "ses_closed (hp' ! i) = ses_closed (hp ! i)"
    if "i < length hp" for i
    using assms(2,3) that len by (metis nth_map)+
  have "ses_handler ` set hp' = ses_handler ` set hp" using assms(2) by (metis set_map)
  then have "\<forall>x \<in> set hp'. ses_handler x < length hs" using led_conj(2) [OF assms(1)] by (metis (no_types, lifting) imageE imageI)
  then show ?thesis using led_conj [OF assms(1)] unfolding led_ok_def by (simp add: assms(2) len h)
qed

lemma led_handler_eq:
  assumes "led_ok L B C hp hs" "sid < length hp" "i < length hp"
  shows "ses_handler (hp ! i) = ses_handler (hp ! sid) \<longleftrightarrow> i = sid"
  using led_conj(1) [OF assms(1)] assms(2,3) by (metis length_map nth_eq_iff_index_eq nth_map)

lemma led_move:
  assumes "led_ok L B C hp hs" "sid < length hp"
    "\<And>i. i \<noteq> sid \<Longrightarrow> count L' i = count L i \<and> count B' i = count B i \<and> count C' i = count C i"
    "count L' sid + count B' sid + count C' sid \<le> 1"
    "pc = (if sid \<in># L' then HRelay else if sid \<in># B' + C' then HClosing else HClosed)"
    "cl = (sid \<notin># L' + B')"
  shows "led_ok L' B' C' (hp[sid := (hp ! sid)\<lparr>ses_closed := cl\<rparr>]) (hs[ses_handler (hp ! sid) := pc])"
proof -
  note d = led_conj [OF assms(1)]
  let ?hp = "hp[sid := (hp ! sid)\<lparr>ses_closed := cl\<rparr>]"
  have hd: "map ses_handler ?hp = map ses_handler hp" by (simp add: map_update list_update_same_conv assms(2))
  then have im: "ses_handler ` set ?hp = ses_handler ` set hp" by (metis set_map)
  have mem: "i \<in># L' \<longleftrightarrow> i \<in># L" "i \<in># B' \<longleftrightarrow> i \<in># B" "i \<in># C' \<longleftrightarrow> i \<in># C" if "i \<noteq> sid" for i
    using assms(3) [OF that] by (simp_all flip: count_greater_zero_iff)
  have bound: "\<forall>i. i \<in># L' + B' + C' \<longrightarrow> i < length ?hp"
    using d(3) mem assms(2) by (metis length_list_update union_iff)
  have hlt: "ses_handler (hp ! sid) < length hs" using d(2) assms(2) by simp
  have each: "count L' i + count B' i + count C' i \<le> 1
      \<and> (hs[ses_handler (hp ! sid) := pc]) ! ses_handler (?hp ! i)
          = (if i \<in># L' then HRelay else if i \<in># B' + C' then HClosing else HClosed)
      \<and> ses_closed (?hp ! i) = (i \<notin># L' + B')" if "i < length hp" for i
  proof (cases "i = sid")
    case True
    then show ?thesis using assms(2,4,5,6) hlt by simp
  next
    case False
    then have "ses_handler (hp ! sid) \<noteq> ses_handler (hp ! i)"
      using led_handler_eq [OF assms(1,2) that] by simp
    then show ?thesis using False d(4) [rule_format, OF that] mem [OF False] assms(3) [OF False] by simp
  qed
  have below: "\<forall>x \<in> set ?hp. ses_handler x < length (hs[ses_handler (hp ! sid) := pc])"
    using d(2) im by (metis (no_types, lifting) image_iff length_list_update)
  show ?thesis
    unfolding led_ok_def hd using d(1) below bound each by simp
qed

text \<open>The moves: out of the map, the backend closed, the connection counted, a new session.\<close>

lemma led_take:
  assumes "led_ok (add_mset sid L) B C hp hs"
  shows "led_ok L (add_mset sid B) C hp (hs[ses_handler (hp ! sid) := HClosing])"
    "sid < length hp" "hs ! ses_handler (hp ! sid) = HRelay"
proof -
  note d = led_conj [OF assms]
  show sid: "sid < length hp" using d(3) by simp
  note e = d(4) [rule_format, OF sid]
  show "hs ! ses_handler (hp ! sid) = HRelay" using e by simp
  have o: "count L sid = 0" "count B sid = 0" "count C sid = 0" using e by simp_all
  have "led_ok L (add_mset sid B) C (hp[sid := (hp ! sid)\<lparr>ses_closed := False\<rparr>]) (hs[ses_handler (hp ! sid) := HClosing])"
    by (rule led_move [OF assms sid]) (simp_all add: o not_in_iff)
  moreover have "hp[sid := (hp ! sid)\<lparr>ses_closed := False\<rparr>] = hp"
    using e by (intro list_update_same_conv [THEN iffD2] sid) simp
  ultimately show "led_ok L (add_mset sid B) C hp (hs[ses_handler (hp ! sid) := HClosing])" by simp
qed

lemma led_shut:
  assumes "led_ok L (add_mset sid B) C hp hs"
  shows "led_ok L B (add_mset sid C) (hp[sid := (hp ! sid)\<lparr>ses_closed := True\<rparr>]) hs"
    "sid < length hp" "\<not> ses_closed (hp ! sid)"
proof -
  note d = led_conj [OF assms]
  show sid: "sid < length hp" using d(3) by simp
  note e = d(4) [rule_format, OF sid]
  show "\<not> ses_closed (hp ! sid)" using e by simp
  have o: "count L sid = 0" "count B sid = 0" "count C sid = 0" using e by simp_all
  have "led_ok L B (add_mset sid C) (hp[sid := (hp ! sid)\<lparr>ses_closed := True\<rparr>]) (hs[ses_handler (hp ! sid) := HClosing])"
    by (rule led_move [OF assms sid]) (simp_all add: o not_in_iff)
  moreover have "hs[ses_handler (hp ! sid) := HClosing] = hs"
    using e o d(2) sid by (intro list_update_same_conv [THEN iffD2]) (simp_all add: not_in_iff)
  ultimately show "led_ok L B (add_mset sid C) (hp[sid := (hp ! sid)\<lparr>ses_closed := True\<rparr>]) hs" by simp
qed

lemma led_count:
  assumes "led_ok L B (add_mset sid C) hp hs"
  shows "led_ok L B C hp (hs[ses_handler (hp ! sid) := HClosed])"
    "sid < length hp" "hs ! ses_handler (hp ! sid) = HClosing"
proof -
  note d = led_conj [OF assms]
  show sid: "sid < length hp" using d(3) by simp
  note e = d(4) [rule_format, OF sid]
  have o: "count L sid = 0" "count B sid = 0" "count C sid = 0" using e by simp_all
  show "hs ! ses_handler (hp ! sid) = HClosing" using e o by (simp add: not_in_iff)
  have "led_ok L B C (hp[sid := (hp ! sid)\<lparr>ses_closed := True\<rparr>]) (hs[ses_handler (hp ! sid) := HClosed])"
    by (rule led_move [OF assms sid]) (simp_all add: o not_in_iff)
  moreover have "hp[sid := (hp ! sid)\<lparr>ses_closed := True\<rparr>] = hp"
    using e o by (intro list_update_same_conv [THEN iffD2] sid) (simp add: not_in_iff)
  ultimately show "led_ok L B C hp (hs[ses_handler (hp ! sid) := HClosed])" by simp
qed

lemma led_new:
  assumes "led_ok L B C hp hs" "ses_handler x < length hs" "ses_handler x \<notin> ses_handler ` set hp"
    "hs ! ses_handler x = HRelay" "\<not> ses_closed x"
  shows "led_ok (add_mset (length hp) L) B C (hp @ [x]) hs"
proof -
  note d = led_conj [OF assms(1)]
  have "count (L + B + C) (length hp) = 0" using d(3) by (meson count_eq_zero_iff less_irrefl)
  then have o: "count L (length hp) = 0" "count B (length hp) = 0" "count C (length hp) = 0" by simp_all
  have "count (add_mset (length hp) L) i + count B i + count C i \<le> 1
      \<and> hs ! ses_handler ((hp @ [x]) ! i)
          = (if i \<in># add_mset (length hp) L then HRelay else if i \<in># B + C then HClosing else HClosed)
      \<and> ses_closed ((hp @ [x]) ! i) = (i \<notin># add_mset (length hp) L + B)" if "i < length (hp @ [x])" for i
  proof (cases "i = length hp")
    case True
    then show ?thesis using o assms(4,5) by simp
  next
    case False
    then have "i < length hp" using that by simp
    then show ?thesis using d(4) False by (simp add: nth_append)
  qed
  moreover have "\<forall>i. i \<in># add_mset (length hp) L + B + C \<longrightarrow> i < length (hp @ [x])"
    using d(3) by (auto intro: less_SucI)
  ultimately show ?thesis unfolding led_ok_def using d(1,2) assms(2,3) by simp
qed

section \<open>The invariant\<close>

fun stage_b :: "close_stage \<Rightarrow> nat multiset" where
  "stage_b (CloseBackend sid) = {#sid#}"
| "stage_b st = {#}"

fun stage_c :: "close_stage \<Rightarrow> nat multiset" where
  "stage_c (CloseCount sid) = {#sid#}"
| "stage_c st = {#}"

fun reader_b :: "reader_pc \<Rightarrow> nat multiset" where
  "reader_b (RdClosing key st) = stage_b st"
| "reader_b (RdCloseAll sids) = mset sids"
| "reader_b (RdCountAll sid sids) = mset sids"
| "reader_b pc = {#}"

fun reader_c :: "reader_pc \<Rightarrow> nat multiset" where
  "reader_c (RdClosing key st) = stage_c st"
| "reader_c (RdCountAll sid sids) = {#sid#}"
| "reader_c pc = {#}"

fun reply_b :: "reply_pc \<Rightarrow> nat multiset" where
  "reply_b (PyClosing st) = stage_b st"
| "reply_b pc = {#}"

fun reply_c :: "reply_pc \<Rightarrow> nat multiset" where
  "reply_c (PyClosing st) = stage_c st"
| "reply_c pc = {#}"

fun expire_b :: "expire_pc \<Rightarrow> nat multiset" where
  "expire_b (XClosing key st keys) = stage_b st"
| "expire_b pc = {#}"

fun expire_c :: "expire_pc \<Rightarrow> nat multiset" where
  "expire_c (XClosing key st keys) = stage_c st"
| "expire_c pc = {#}"

definition live :: "'e udp_sys \<Rightarrow> nat multiset" where
  "live s = mset (map snd (ud_sessions s))"

definition to_close :: "'e udp_sys \<Rightarrow> nat multiset" where
  "to_close s = reader_b (ud_reader s) + sum_list (map reply_b (ud_replies s)) + expire_b (ud_expire s)"

definition to_count :: "'e udp_sys \<Rightarrow> nat multiset" where
  "to_count s = reader_c (ud_reader s) + sum_list (map reply_c (ud_replies s)) + expire_c (ud_expire s)"

text \<open>What holds of the sessions, given what the threads still have to close and to count.\<close>

definition ledger :: "nat multiset \<Rightarrow> nat multiset \<Rightarrow> 'e udp_sys \<Rightarrow> bool" where
  "ledger B C s \<longleftrightarrow>
     act_inv (ud_sys s) \<and> gm_ok (ud_sessions s) \<and> \<not> ud_double_close s
     \<and> led_ok (live s) B C (ud_heap s) (as_handlers (ud_sys s))"

definition fresh_handler :: "'e udp_sys \<Rightarrow> nat \<Rightarrow> bool" where
  "fresh_handler s h \<longleftrightarrow> h < length (as_handlers (ud_sys s)) \<and> h \<notin> ses_handler ` set (ud_heap s)"

text \<open>Only the read loop makes sessions, so the key it makes one for stays absent.\<close>

definition reader_ok :: "reader_pc \<Rightarrow> 'e udp_sys \<Rightarrow> bool" where
  "reader_ok pc s \<longleftrightarrow>
     (case pc of
        RdOpen key \<Rightarrow> key \<notin> gm_keys (ud_sessions s)
      | RdEnsure key h \<Rightarrow> key \<notin> gm_keys (ud_sessions s) \<and> fresh_handler s h
      | RdInsert key h now \<Rightarrow>
          key \<notin> gm_keys (ud_sessions s) \<and> fresh_handler s h \<and> as_handlers (ud_sys s) ! h = HRelay
      | RdDrop key h sid \<Rightarrow> False
      | RdFail h \<Rightarrow> fresh_handler s h \<and> as_handlers (ud_sys s) ! h = HClosing
      | _ \<Rightarrow> True)"

definition udp_inv :: "'e udp_sys \<Rightarrow> bool" where
  "udp_inv s \<longleftrightarrow>
     ledger (to_close s) (to_count s) s \<and> reader_ok (ud_reader s) s \<and> length (ud_replies s) = length (ud_heap s)"

text \<open>A step of one thread leaves alone what the others hold.\<close>

definition others_keep :: "'e udp_sys \<Rightarrow> 'e udp_sys \<Rightarrow> bool" where
  "others_keep s t \<longleftrightarrow>
     gm_keys (ud_sessions t) \<subseteq> gm_keys (ud_sessions s)
     \<and> map ses_handler (ud_heap t) = map ses_handler (ud_heap s)
     \<and> length (as_handlers (ud_sys s)) \<le> length (as_handlers (ud_sys t))
     \<and> (\<forall>h. fresh_handler s h \<longrightarrow> as_handlers (ud_sys t) ! h = as_handlers (ud_sys s) ! h)
     \<and> ud_reader t = ud_reader s \<and> ud_replies t = ud_replies s \<and> ud_expire t = ud_expire s"

lemma others_keep_refl [simp]: "others_keep s s"
  by (simp add: others_keep_def)

lemma fresh_keep: "others_keep s t \<Longrightarrow> fresh_handler s h \<Longrightarrow> fresh_handler t h"
  unfolding others_keep_def fresh_handler_def by (metis (no_types, lifting) order_less_le_trans set_map)

lemma reader_keep:
  assumes "others_keep s t" "reader_ok pc s"
  shows "reader_ok pc t"
proof -
  have keys: "key \<notin> gm_keys (ud_sessions t)" if "key \<notin> gm_keys (ud_sessions s)" for key
    using assms(1) that by (auto simp: others_keep_def)
  have same: "as_handlers (ud_sys t) ! h = as_handlers (ud_sys s) ! h" if "fresh_handler s h" for h
    using assms(1) that by (simp add: others_keep_def)
  show ?thesis
    using assms(2) fresh_keep [OF assms(1)] keys same by (cases pc) (auto simp: reader_ok_def)
qed

subsection \<open>The activator's side of a session\<close>

lemma act_relay_ends:
  assumes "act_inv s" "h < length (as_handlers s)" "as_handlers s ! h = HRelay"
  shows "act_inv (s\<lparr>as_handlers := (as_handlers s)[h := HClosing]\<rparr>)"
  by (rule act_inv_move [OF assms(1,2)]) (simp_all add: assms(3) is_starter_def)

lemma act_closes:
  assumes "act_inv s" "h < length (as_handlers s)" "as_handlers s ! h = HClosing"
  shows "act_inv (s\<lparr>as_act := conn_closed now (as_act s), as_handlers := (as_handlers s)[h := HClosed]\<rparr>)"
  using act_inv_closed [OF assms, where now = now and calls = "as_calls s"] by simp

lemma act_traffic:
  assumes "act_inv s"
  shows "act_inv (s\<lparr>as_act := mark_traffic now (as_act s)\<rparr>)"
proof -
  have "list_all (pc_ok (mark_traffic now (as_act s))) (as_handlers s)"
    using act_invD(8) [OF assms] by (simp add: list_all_iff)
  moreover have "watched (mark_traffic now (as_act s)) = watched (as_act s)"
    "is_open (mark_traffic now (as_act s)) c = is_open (as_act s) c" for c
    by (simp_all add: watched_def is_open_def mark_traffic_def)
  ultimately show ?thesis
    by (intro act_invI; use act_invD [OF assms] in \<open>simp add: mark_traffic_def\<close>)
qed

subsection \<open>The steps on the ledger\<close>

lemma ledger_conj:
  assumes "ledger B C s"
  shows "act_inv (ud_sys s)" "gm_ok (ud_sessions s)" "\<not> ud_double_close s"
    "led_ok (live s) B C (ud_heap s) (as_handlers (ud_sys s))"
  using assms unfolding ledger_def atomize_conj conj_assoc .

lemma ledger_handler_less: "ledger B C s \<Longrightarrow> sid < length (ud_heap s) \<Longrightarrow>
    ses_handler (ses_at s sid) < length (as_handlers (ud_sys s))"
  unfolding ses_at_def by (metis ledger_conj(4) led_conj(2) nth_mem)

text \<open>A change of the activator that keeps the counters of the sessions' handlers.\<close>

lemma ledger_act:
  assumes "ledger B C s" "act_inv u" "length (as_handlers (ud_sys s)) \<le> length (as_handlers u)"
    "\<And>h. h < length (as_handlers (ud_sys s)) \<Longrightarrow> h \<in> ses_handler ` set (ud_heap s) \<Longrightarrow>
       as_handlers u ! h = as_handlers (ud_sys s) ! h"
  shows "ledger B C (s\<lparr>ud_sys := u\<rparr>)"
proof -
  note d = ledger_conj [OF assms(1)]
  have "led_ok (live s) B C (ud_heap s) (as_handlers u)"
    by (rule led_frame [OF d(4) assms(3)]) (use assms(4) led_conj(2) [OF d(4)] in simp)
  then show ?thesis using d(2,3) assms(2) by (simp add: ledger_def live_def)
qed

lemma ledger_mark: "ledger B C s \<Longrightarrow> ledger B C (udp_mark now s) \<and> others_keep s (udp_mark now s)"
  unfolding udp_mark_def
  by (intro conjI ledger_act) (simp_all add: act_traffic ledger_conj(1) others_keep_def)

lemma ledger_seen:
  assumes "ledger B C s" "sid < length (ud_heap s)"
  shows "ledger B C (seen now sid s) \<and> others_keep s (seen now sid s)"
proof -
  have same: "map ses_handler (ud_heap (seen now sid s)) = map ses_handler (ud_heap s)"
    "map ses_closed (ud_heap (seen now sid s)) = map ses_closed (ud_heap s)"
    using assms(2) by (simp_all add: seen_def ses_at_def map_update list_update_same_conv)
  have "led_ok (live s) B C (ud_heap (seen now sid s)) (as_handlers (ud_sys s))"
    by (rule led_heap_cong [OF ledger_conj(4) [OF assms(1)] same])
  then show ?thesis
    using ledger_conj [OF assms(1)] same by (simp add: ledger_def others_keep_def seen_def live_def)
qed

lemma mset_delete:
  "gm_ok m \<Longrightarrow> map_of m k = Some v \<Longrightarrow>
     mset (map snd m) = add_mset v (mset (map snd (AList.delete k m)))"
proof (induction m)
  case Nil
  then show ?case by simp
next
  case (Cons e m)
  show ?case
  proof (cases "fst e = k")
    case True
    then have "k \<notin> fst ` set m" using Cons.prems(1) by (auto simp: gm_ok_def)
    then have "AList.delete k m = m" by (rule delete_id)
    then show ?thesis using True Cons.prems(2) by (cases e) simp
  next
    case False
    then show ?thesis using Cons by (cases e) (simp add: gm_ok_def)
  qed
qed

lemma ledger_take:
  assumes "ledger B C s" "map_of (ud_sessions s) key = Some sid"
  shows "ledger (add_mset sid B) C (handler_at (ses_handler (ses_at s sid)) HClosing
           (s\<lparr>ud_sessions := AList.delete key (ud_sessions s)\<rparr>))"
proof -
  note d = ledger_conj [OF assms(1)]
  have "live s = add_mset sid (mset (map snd (AList.delete key (ud_sessions s))))"
    unfolding live_def by (rule mset_delete [OF d(2) assms(2)])
  note t = led_take [OF d(4) [unfolded this]]
  have "act_inv (ud_sys s\<lparr>as_handlers := (as_handlers (ud_sys s))[ses_handler (ud_heap s ! sid) := HClosing]\<rparr>)"
    by (rule act_relay_ends [OF d(1) _ t(3)]) (use t(2) led_conj(2) [OF d(4)] in simp)
  then show ?thesis using d(2,3) t(1) by (simp add: ledger_def handler_at_def ses_at_def live_def)
qed

lemma ledger_shut:
  assumes "ledger (add_mset sid B) C s"
  shows "ledger B (add_mset sid C) (close_backend sid s) \<and> others_keep s (close_backend sid s)"
proof -
  note d = ledger_conj [OF assms]
  note t = led_shut [OF d(4)]
  have "map ses_handler (ud_heap (close_backend sid s)) = map ses_handler (ud_heap s)"
    using t(2) by (simp add: close_backend_def ses_at_def map_update list_update_same_conv)
  then show ?thesis
    using d t by (simp add: ledger_def others_keep_def close_backend_def ses_at_def live_def)
qed

lemma ledger_closed:
  assumes "ledger B C s" "h < length (as_handlers (ud_sys s))" "as_handlers (ud_sys s) ! h = HClosing"
    "led_ok (live s) B C' (ud_heap s) ((as_handlers (ud_sys s))[h := HClosed])"
  shows "ledger B C' (udp_closed now h s)"
  using act_closes [OF ledger_conj(1) [OF assms(1)] assms(2,3), of now] ledger_conj(2,3) [OF assms(1)] assms(4)
  by (simp add: ledger_def udp_closed_def handler_at_def live_def)

lemma ledger_count:
  assumes "ledger B (add_mset sid C) s"
  shows "ledger B C (udp_closed now (ses_handler (ses_at s sid)) s)"
proof -
  note t = led_count [OF ledger_conj(4) [OF assms]]
  show ?thesis
    by (rule ledger_closed [OF assms ledger_handler_less [OF assms t(2)]]) (use t in \<open>simp_all add: ses_at_def\<close>)
qed

lemma ledger_fail:
  assumes "ledger B C s" "fresh_handler s h" "as_handlers (ud_sys s) ! h = HClosing"
  shows "ledger B C (udp_closed now h s)"
proof (rule ledger_closed [OF assms(1) _ assms(3)])
  show "h < length (as_handlers (ud_sys s))" using assms(2) by (simp add: fresh_handler_def)
  show "led_ok (live s) B C (ud_heap s) ((as_handlers (ud_sys s))[h := HClosed])"
  proof (rule led_frame [OF ledger_conj(4) [OF assms(1)]])
    fix x assume "x \<in> set (ud_heap s)"
    then have "h \<noteq> ses_handler x" using assms(2) by (auto simp: fresh_handler_def)
    then show "(as_handlers (ud_sys s))[h := HClosed] ! ses_handler x = as_handlers (ud_sys s) ! ses_handler x"
      by (rule nth_list_update_neq)
  qed simp
qed

lemma keep_session_handler:
  assumes "ledger B C s" "sid < length (ud_heap s)"
  shows "others_keep s (udp_closed now (ses_handler (ses_at s sid)) s)"
    "others_keep s (handler_at (ses_handler (ses_at s sid)) pc (s\<lparr>ud_sessions := AList.delete key (ud_sessions s)\<rparr>))"
proof -
  have "ses_handler (ses_at s sid) \<noteq> h" if "fresh_handler s h" for h
    using that assms(2) by (auto simp: fresh_handler_def ses_at_def)
  then show "others_keep s (udp_closed now (ses_handler (ses_at s sid)) s)"
    "others_keep s (handler_at (ses_handler (ses_at s sid)) pc (s\<lparr>ud_sessions := AList.delete key (ud_sessions s)\<rparr>))"
    by (auto simp: others_keep_def udp_closed_def handler_at_def)
qed

definition opt_b :: "close_stage option \<Rightarrow> nat multiset" where
  "opt_b r = (case r of None \<Rightarrow> {#} | Some st \<Rightarrow> stage_b st)"

definition opt_c :: "close_stage option \<Rightarrow> nat multiset" where
  "opt_c r = (case r of None \<Rightarrow> {#} | Some st \<Rightarrow> stage_c st)"

lemma ledger_close_session:
  assumes "ledger (stage_b st + B) (stage_c st + C) s" "close_session now key st s = (r, t)"
  shows "ledger (opt_b r + B) (opt_c r + C) t \<and> others_keep s t"
proof (cases st)
  case CloseLookup
  show ?thesis
  proof (cases "map_of (ud_sessions s) key")
    case None
    then show ?thesis using assms CloseLookup by (auto simp: close_session_def opt_b_def opt_c_def)
  next
    case (Some sid)
    have l: "ledger B C s" using assms(1) CloseLookup by simp
    have "sid \<in># live s" using map_of_SomeD [OF Some] by (force simp: live_def)
    then have "sid < length (ud_heap s)" using led_conj(3) [OF ledger_conj(4) [OF l]] by simp
    with ledger_take [OF l Some] keep_session_handler(2) [OF l this] assms(2) CloseLookup Some
    show ?thesis by (auto simp: close_session_def opt_b_def opt_c_def)
  qed
next
  case (CloseBackend sid)
  then show ?thesis
    using assms ledger_shut [of sid B C s] by (auto simp: close_session_def opt_b_def opt_c_def)
next
  case (CloseCount sid)
  then have l: "ledger B (add_mset sid C) s" using assms(1) by simp
  have "sid < length (ud_heap s)" by (rule led_count(2) [OF ledger_conj(4) [OF l]])
  with ledger_count [OF l] keep_session_handler(1) [OF l this] assms(2) CloseCount
  show ?thesis by (auto simp: close_session_def opt_b_def opt_c_def)
qed

lemma sum_list_update_rest:
  fixes f :: "'a \<Rightarrow> nat multiset"
  assumes "i < length xs"
  shows "\<exists>R. \<forall>y. sum_list (map f (xs[i := y])) = f y + R"
  by (rule exI [of _ "sum_list (map f (take i xs @ drop (Suc i) xs))"])
    (simp add: upd_conv_take_nth_drop [OF assms] ac_simps)

lemma ledger_reply:
  assumes "ledger (reply_b (ud_replies s ! sid) + B) (reply_c (ud_replies s ! sid) + C) s"
    "sid < length (ud_heap s)" "reply_step sid now inp s = Some (pc, t)"
  shows "ledger (reply_b pc + B) (reply_c pc + C) t \<and> others_keep s t"
proof (cases "ud_replies s ! sid")
  case (PyClosing st)
  obtain r u where r: "close_session now (ses_key (ses_at s sid)) st s = (r, u)" by fastforce
  have "ledger (opt_b r + B) (opt_c r + C) u \<and> others_keep s u"
    using ledger_close_session [OF _ r] assms(1) PyClosing by simp
  then show ?thesis
    using assms(3) PyClosing r by (auto simp: reply_step_def opt_b_def opt_c_def split: if_splits option.splits)
next
  case (PyMark err)
  then show ?thesis
    using assms ledger_mark [of B C s now] by (auto simp: reply_step_def split: if_splits)
next
  case (PySeen err)
  then show ?thesis
    using assms ledger_seen [of B C s sid now] by (auto simp: reply_step_def split: if_splits)
qed (use assms in \<open>auto simp: reply_step_def split: if_splits udp_input.splits\<close>)

lemma ledger_expire:
  assumes "ledger (expire_b (ud_expire s) + B) (expire_c (ud_expire s) + C) s"
    "expire_step now inp s = Some (pc, t)"
  shows "ledger (expire_b pc + B) (expire_c pc + C) t \<and> others_keep s t"
proof (cases "ud_expire s")
  case (XNext keys)
  then show ?thesis using assms by (cases keys) (auto simp: expire_step_def split: if_splits)
next
  case (XClosing key st keys)
  obtain r u where r: "close_session now key st s = (r, u)" by fastforce
  have "ledger (opt_b r + B) (opt_c r + C) u \<and> others_keep s u"
    using ledger_close_session [OF _ r] assms(1) XClosing by simp
  then show ?thesis
    using assms(2) XClosing r by (auto simp: expire_step_def opt_b_def opt_c_def split: if_splits option.splits)
qed (use assms in \<open>auto simp: expire_step_def split: if_splits udp_input.splits\<close>)

text \<open>The read loop: the calls of the activator while a session is made, the insertion, the swap.\<close>

lemma ledger_opened:
  assumes "ledger B C s"
  shows "ledger B C (udp_opened now s) \<and> others_keep s (udp_opened now s)
    \<and> fresh_handler (udp_opened now s) (length (as_handlers (ud_sys s)))"
proof -
  let ?u = "ud_sys s\<lparr>as_act := conn_opened now (as_act (ud_sys s)), as_handlers := as_handlers (ud_sys s) @ [HEnter]\<rparr>"
  have "act_inv ?u" by (rule act_inv_step [OF ledger_conj(1) [OF assms] act_next.opened])
  then have "ledger B C (s\<lparr>ud_sys := ?u\<rparr>)"
    by (rule ledger_act [OF assms]) (simp_all add: nth_append)
  moreover have "length (as_handlers (ud_sys s)) \<notin> ses_handler ` set (ud_heap s)"
    using led_conj(2) [OF ledger_conj(4) [OF assms]] by auto
  ultimately show ?thesis
    by (auto simp: udp_opened_def others_keep_def fresh_handler_def nth_append)
qed

lemma ledger_ensure:
  assumes "ledger B C s" "fresh_handler s h"
    "handler_step now i (as_handlers (ud_sys s) ! h) (as_act (ud_sys s)) = Some (pc, a, calls)"
  shows "ledger B C (s\<lparr>ud_sys := (ud_sys s)\<lparr>as_act := a, as_handlers := (as_handlers (ud_sys s))[h := pc],
                                        as_calls := rev calls @ as_calls (ud_sys s)\<rparr>\<rparr>)"
proof (rule ledger_act [OF assms(1)])
  have "h < length (as_handlers (ud_sys s))" using assms(2) by (simp add: fresh_handler_def)
  from act_inv_step [OF ledger_conj(1) [OF assms(1)] act_next.handler [OF this assms(3)]]
  show "act_inv (ud_sys s\<lparr>as_act := a, as_handlers := (as_handlers (ud_sys s))[h := pc],
                        as_calls := rev calls @ as_calls (ud_sys s)\<rparr>)" .
  fix k assume "k \<in> ses_handler ` set (ud_heap s)"
  then have "h \<noteq> k" using assms(2) by (auto simp: fresh_handler_def)
  then show "as_handlers (ud_sys s\<lparr>as_act := a, as_handlers := (as_handlers (ud_sys s))[h := pc],
      as_calls := rev calls @ as_calls (ud_sys s)\<rparr>) ! k = as_handlers (ud_sys s) ! k" by simp
qed simp

lemma update_absent: "k \<notin> gm_keys m \<Longrightarrow> AList.update k v m = m @ [(k, v)]"
  by (induction m) (auto simp: gm_keys_def)

lemma ledger_insert:
  assumes "ledger B C s" "fresh_handler s h" "as_handlers (ud_sys s) ! h = HRelay" "key \<notin> gm_keys (ud_sessions s)"
    "session_insert key h created s = (pc, t)"
  shows "ledger B C t \<and> pc = RdMark key (length (ud_heap s)) \<and> ud_replies t = ud_replies s @ [PyCheck]
    \<and> length (ud_heap t) = Suc (length (ud_heap s)) \<and> ud_expire t = ud_expire s"
proof -
  let ?x = "\<lparr>ses_handler = h, ses_key = key, ses_last_seen = created, ses_closed = False\<rparr>"
  note d = ledger_conj [OF assms(1)]
  have none: "map_of (ud_sessions s) key = None" using assms(4) by (simp add: map_of_None_keys)
  have "led_ok (add_mset (length (ud_heap s)) (live s)) B C (ud_heap s @ [?x]) (as_handlers (ud_sys s))"
    by (rule led_new [OF d(4)]) (use assms(2,3) in \<open>simp_all add: fresh_handler_def\<close>)
  moreover have "gm_ok (AList.update key (length (ud_heap s)) (ud_sessions s))" using d(2) by simp
  ultimately show ?thesis
    using d(1,3) assms(5) none
    by (auto simp: session_insert_def Let_def ledger_def live_def update_absent [OF assms(4)])
qed

definition closing_handler :: "udp_session list \<Rightarrow> nat \<Rightarrow> 'e act_sys \<Rightarrow> 'e act_sys" where
  "closing_handler hp sid a = a\<lparr>as_handlers := (as_handlers a)[ses_handler (hp ! sid) := HClosing]\<rparr>"

lemma fold_handler_at:
  "fold (\<lambda>sid. handler_at (ses_handler (ses_at s sid)) HClosing) sids t =
     t\<lparr>ud_sys := fold (closing_handler (ud_heap s)) sids (ud_sys t)\<rparr>"
  by (induction sids arbitrary: t) (simp_all add: handler_at_def closing_handler_def ses_at_def)

lemma swap_fold:
  "act_inv a \<Longrightarrow> led_ok (mset sids + L) B C hp (as_handlers a) \<Longrightarrow>
     act_inv (fold (closing_handler hp) sids a)
     \<and> led_ok L (mset sids + B) C hp (as_handlers (fold (closing_handler hp) sids a))"
proof (induction sids arbitrary: a B)
  case Nil
  then show ?case by simp
next
  case (Cons sid sids)
  have l: "led_ok (add_mset sid (mset sids + L)) B C hp (as_handlers a)" using Cons.prems(2) by simp
  note t = led_take [OF l]
  have "ses_handler (hp ! sid) < length (as_handlers a)" using led_conj(2) [OF l] t(2) by simp
  with act_relay_ends [OF Cons.prems(1) _ t(3)] have i: "act_inv (closing_handler hp sid a)"
    by (simp add: closing_handler_def)
  have "led_ok (mset sids + L) (add_mset sid B) C hp (as_handlers (closing_handler hp sid a))"
    using t(1) by (simp add: closing_handler_def)
  from Cons.IH [OF i this] show ?case by simp
qed

lemma ledger_swap:
  assumes "ledger B C s" "swap_sessions s = (sids, t)"
  shows "ledger (mset sids + B) C t \<and> length (ud_heap t) = length (ud_heap s)
    \<and> ud_replies t = ud_replies s \<and> ud_expire t = ud_expire s"
proof -
  note d = ledger_conj [OF assms(1)]
  have sids: "sids = map snd (ud_sessions s)" using assms(2) by (simp add: swap_sessions_def)
  have t: "t = s\<lparr>ud_sessions := [], ud_sys := fold (closing_handler (ud_heap s)) sids (ud_sys s)\<rparr>"
    using assms(2) by (auto simp: swap_sessions_def fold_handler_at)
  have "led_ok (mset sids + {#}) B C (ud_heap s) (as_handlers (ud_sys s))"
    using d(4) by (simp add: sids live_def)
  from swap_fold [OF d(1) this] show ?thesis
    using d(3) by (simp add: t ledger_def live_def)
qed

text \<open>What a step of the read loop keeps.\<close>

definition reader_after :: "reader_pc \<Rightarrow> nat multiset \<Rightarrow> nat multiset \<Rightarrow> 'e udp_sys \<Rightarrow> 'e udp_sys \<Rightarrow> bool" where
  "reader_after pc B C s t \<longleftrightarrow>
     ledger (reader_b pc + B) (reader_c pc + C) t \<and> reader_ok pc t \<and> ud_expire t = ud_expire s
     \<and> (ud_replies t = ud_replies s \<and> length (ud_heap t) = length (ud_heap s)
        \<or> ud_replies t = ud_replies s @ [PyCheck] \<and> length (ud_heap t) = Suc (length (ud_heap s)))"

lemma keep_lengths: "others_keep s t \<Longrightarrow>
    ud_expire t = ud_expire s \<and> ud_replies t = ud_replies s \<and> length (ud_heap t) = length (ud_heap s)"
  unfolding others_keep_def by (metis map_eq_imp_length_eq)

lemma reader_after_keep:
  "ledger (reader_b pc + B) (reader_c pc + C) t \<Longrightarrow> others_keep s t \<Longrightarrow> reader_ok pc t \<Longrightarrow> reader_after pc B C s t"
  by (simp add: reader_after_def keep_lengths)

lemma reader_lookup:
  assumes "ledger B C s" "session_lookup now key s = (pc, t)"
  shows "reader_after pc B C s t"
proof (cases "map_of (ud_sessions s) key")
  case None
  with assms show ?thesis
    by (auto simp: session_lookup_def reader_after_def reader_ok_def map_of_None_keys)
next
  case (Some sid)
  have "sid \<in># live s" using map_of_SomeD [OF Some] by (force simp: live_def)
  then have "sid < length (ud_heap s)" using led_conj(3) [OF ledger_conj(4) [OF assms(1)]] by simp
  from ledger_seen [OF assms(1) this, of now] Some assms(2) show ?thesis
    by (intro reader_after_keep) (auto simp: session_lookup_def reader_ok_def)
qed

lemma reader_closed:
  assumes "ledger B C (udp_closed now h s)"
  shows "reader_after RdRead B C s (udp_closed now h s)"
  using assms by (simp add: reader_after_def reader_ok_def udp_closed_def handler_at_def)

lemma ledger_reader:
  assumes "ledger (reader_b (ud_reader s) + B) (reader_c (ud_reader s) + C) s" "reader_ok (ud_reader s) s"
    "reader_step now inp s = Some (pc, t)"
  shows "reader_after pc B C s t"
proof (cases "ud_reader s")
  case RdRead
  then show ?thesis
    using assms by (auto simp: reader_step_def reader_after_def reader_ok_def split: udp_input.splits)
next
  case (RdLookup key)
  then show ?thesis using assms reader_lookup [of B C s now key] by (auto simp: reader_step_def split: if_splits)
next
  case (RdOpen key)
  then have l: "ledger B C s" and k: "key \<notin> gm_keys (ud_sessions s)" using assms(1,2) by (auto simp: reader_ok_def)
  from ledger_opened [OF l, of now] have "key \<notin> gm_keys (ud_sessions (udp_opened now s))"
    using k by (auto simp: udp_opened_def)
  with ledger_opened [OF l, of now] RdOpen assms(3) show ?thesis
    by (intro reader_after_keep) (auto simp: reader_step_def reader_ok_def split: if_splits)
next
  case (RdEnsure key h)
  then have l: "ledger B C s" and k: "key \<notin> gm_keys (ud_sessions s)" "fresh_handler s h"
    using assms(1,2) by (auto simp: reader_ok_def)
  from assms(3) RdEnsure obtain i p a calls where
    step: "handler_step now i (as_handlers (ud_sys s) ! h) (as_act (ud_sys s)) = Some (p, a, calls)"
    and pc: "pc = (if p = HRelay then RdInsert key h now else if p = HClosing then RdFail h else RdEnsure key h)"
    and t: "t = s\<lparr>ud_sys := (ud_sys s)\<lparr>as_act := a, as_handlers := (as_handlers (ud_sys s))[h := p],
                                           as_calls := rev calls @ as_calls (ud_sys s)\<rparr>\<rparr>"
    by (auto simp: reader_step_def split: udp_input.splits option.splits)
  have "ledger B C t" unfolding t by (rule ledger_ensure [OF l k(2) step])
  moreover have "reader_ok pc t" using k by (auto simp: pc t reader_ok_def fresh_handler_def)
  ultimately show ?thesis by (auto simp: reader_after_def pc t)
next
  case (RdInsert key h created)
  then have "ledger B C s" "fresh_handler s h" "as_handlers (ud_sys s) ! h = HRelay" "key \<notin> gm_keys (ud_sessions s)"
    using assms(1,2) by (auto simp: reader_ok_def)
  from ledger_insert [OF this, of created pc t] RdInsert assms(3) show ?thesis
    by (auto simp: reader_step_def reader_after_def reader_ok_def split: if_splits)
next
  case (RdFail h)
  then have "ledger B C s" "fresh_handler s h" "as_handlers (ud_sys s) ! h = HClosing"
    using assms(1,2) by (auto simp: reader_ok_def)
  from reader_closed [OF ledger_fail [OF this, of now]] RdFail assms(3) show ?thesis
    by (auto simp: reader_step_def split: if_splits)
next
  case (RdMark key sid)
  then show ?thesis
    using assms ledger_mark [of B C s now]
    by (intro reader_after_keep) (auto simp: reader_step_def reader_ok_def split: if_splits)
next
  case (RdWrite key sid)
  then show ?thesis
    using assms by (auto simp: reader_step_def reader_after_def reader_ok_def split: udp_input.splits if_splits)
next
  case (RdClosing key st)
  obtain r u where r: "close_session now key st s = (r, u)" by fastforce
  have "ledger (opt_b r + B) (opt_c r + C) u \<and> others_keep s u"
    using ledger_close_session [OF _ r] assms(1) RdClosing by simp
  then show ?thesis
    using assms(3) RdClosing r
    by (intro reader_after_keep)
      (auto simp: reader_step_def opt_b_def opt_c_def reader_ok_def split: if_splits option.splits)
next
  case RdSwap
  obtain sids u where r: "swap_sessions s = (sids, u)" by fastforce
  from ledger_swap [OF _ r, of B C] RdSwap assms r show ?thesis
    by (auto simp: reader_step_def reader_after_def reader_ok_def split: if_splits)
next
  case (RdCloseAll sids)
  show ?thesis
  proof (cases sids)
    case Nil
    then show ?thesis
      using RdCloseAll assms by (auto simp: reader_step_def reader_after_def reader_ok_def split: if_splits)
  next
    case (Cons sid sids')
    then have "ledger (add_mset sid (mset sids' + B)) C s" using assms(1) RdCloseAll by simp
    from ledger_shut [OF this] Cons RdCloseAll assms(3) show ?thesis
      by (intro reader_after_keep) (auto simp: reader_step_def reader_ok_def split: if_splits)
  qed
next
  case (RdCountAll sid sids)
  then have l: "ledger (mset sids + B) (add_mset sid C) s" using assms(1) by simp
  have "sid < length (ud_heap s)" by (rule led_count(2) [OF ledger_conj(4) [OF l]])
  from ledger_count [OF l, of now] keep_session_handler(1) [OF l this, of now] RdCountAll assms(3) show ?thesis
    by (intro reader_after_keep) (auto simp: reader_step_def reader_ok_def split: if_splits)
qed (use assms in \<open>auto simp: reader_step_def reader_ok_def split: if_splits\<close>)

subsection \<open>Every step\<close>

lemma inv_with_pcs:
  "ledger B C (s\<lparr>ud_reader := r\<rparr>) = ledger B C s" "ledger B C (s\<lparr>ud_replies := ps\<rparr>) = ledger B C s"
  "ledger B C (s\<lparr>ud_expire := x\<rparr>) = ledger B C s"
  "reader_ok pc (s\<lparr>ud_reader := r\<rparr>) = reader_ok pc s" "reader_ok pc (s\<lparr>ud_replies := ps\<rparr>) = reader_ok pc s"
  "reader_ok pc (s\<lparr>ud_expire := x\<rparr>) = reader_ok pc s"
  by (simp_all add: ledger_def live_def reader_ok_def fresh_handler_def cong: reader_pc.case_cong)

lemma udp_inv_reader:
  assumes "udp_inv s" "reader_step now inp s = Some (pc, t)"
  shows "udp_inv (t\<lparr>ud_reader := pc\<rparr>)"
proof -
  let ?B = "sum_list (map reply_b (ud_replies s)) + expire_b (ud_expire s)"
  let ?C = "sum_list (map reply_c (ud_replies s)) + expire_c (ud_expire s)"
  have "ledger (reader_b (ud_reader s) + ?B) (reader_c (ud_reader s) + ?C) s"
    using assms(1) by (simp add: udp_inv_def to_close_def to_count_def ac_simps)
  from ledger_reader [OF this _ assms(2)] assms(1) have "reader_after pc ?B ?C s t"
    by (simp add: udp_inv_def)
  then show ?thesis
    using assms(1) unfolding reader_after_def udp_inv_def
    by (auto simp: inv_with_pcs to_close_def to_count_def ac_simps)
qed

lemma udp_inv_reply:
  assumes "udp_inv s" "sid < length (ud_replies s)" "reply_step sid now inp s = Some (pc, t)"
  shows "udp_inv (t\<lparr>ud_replies := (ud_replies t)[sid := pc]\<rparr>)"
proof -
  obtain R where R: "\<forall>y. sum_list (map reply_b ((ud_replies s)[sid := y])) = reply_b y + R"
    using sum_list_update_rest [OF assms(2)] by blast
  obtain Q where Q: "\<forall>y. sum_list (map reply_c ((ud_replies s)[sid := y])) = reply_c y + Q"
    using sum_list_update_rest [OF assms(2)] by blast
  let ?B = "R + reader_b (ud_reader s) + expire_b (ud_expire s)"
  let ?C = "Q + reader_c (ud_reader s) + expire_c (ud_expire s)"
  have "ledger (reply_b (ud_replies s ! sid) + ?B) (reply_c (ud_replies s ! sid) + ?C) s"
    using assms(1) R [rule_format, of "ud_replies s ! sid"] Q [rule_format, of "ud_replies s ! sid"]
    by (simp add: udp_inv_def to_close_def to_count_def ac_simps)
  moreover have "sid < length (ud_heap s)" using assms(1,2) by (simp add: udp_inv_def)
  ultimately have l: "ledger (reply_b pc + ?B) (reply_c pc + ?C) t" and k: "others_keep s t"
    using ledger_reply [OF _ _ assms(3)] by blast+
  have "reader_ok (ud_reader s) t" using reader_keep [OF k] assms(1) by (simp add: udp_inv_def)
  then show ?thesis
    using l k keep_lengths [OF k] R [rule_format, of pc] Q [rule_format, of pc] assms(1)
    by (simp add: udp_inv_def inv_with_pcs to_close_def to_count_def ac_simps others_keep_def)
qed

lemma udp_inv_expire:
  assumes "udp_inv s" "expire_step now inp s = Some (pc, t)"
  shows "udp_inv (t\<lparr>ud_expire := pc\<rparr>)"
proof -
  let ?B = "reader_b (ud_reader s) + sum_list (map reply_b (ud_replies s))"
  let ?C = "reader_c (ud_reader s) + sum_list (map reply_c (ud_replies s))"
  have "ledger (expire_b (ud_expire s) + ?B) (expire_c (ud_expire s) + ?C) s"
    using assms(1) by (simp add: udp_inv_def to_close_def to_count_def ac_simps)
  from ledger_expire [OF this assms(2)]
  have l: "ledger (expire_b pc + ?B) (expire_c pc + ?C) t" and k: "others_keep s t" by blast+
  have "reader_ok (ud_reader s) t" using reader_keep [OF k] assms(1) by (simp add: udp_inv_def)
  then show ?thesis
    using l k keep_lengths [OF k] assms(1)
    by (simp add: udp_inv_def inv_with_pcs to_close_def to_count_def ac_simps others_keep_def)
qed

lemma act_exec_owned:
  assumes "act_exec l a = Some u" "case l of HandlerAt h now inp \<Rightarrow> \<not> P h | _ \<Rightarrow> True"
  shows "length (as_handlers a) \<le> length (as_handlers u)
    \<and> (\<forall>h < length (as_handlers a). P h \<longrightarrow> as_handlers u ! h = as_handlers a ! h)"
  using assms by (cases l) (auto simp: nth_append nth_list_update split: if_splits option.splits)

lemma udp_inv_activator:
  assumes "udp_inv s" "act_exec l (ud_sys s) = Some u"
    "case l of HandlerAt h now inp \<Rightarrow> \<not> udp_owned s h | _ \<Rightarrow> True"
  shows "udp_inv (s\<lparr>ud_sys := u\<rparr>)"
proof -
  have l: "ledger (to_close s) (to_count s) s" and r: "reader_ok (ud_reader s) s"
    using assms(1) by (simp_all add: udp_inv_def)
  have o: "length (as_handlers (ud_sys s)) \<le> length (as_handlers u)"
    "\<And>h. h < length (as_handlers (ud_sys s)) \<Longrightarrow> udp_owned s h \<Longrightarrow> as_handlers u ! h = as_handlers (ud_sys s) ! h"
    using act_exec_owned [OF assms(2), of "udp_owned s"] assms(3) by auto
  have "act_inv u" by (rule act_inv_step [OF ledger_conj(1) [OF l] act_exec_next [OF assms(2)]])
  then have "ledger (to_close s) (to_count s) (s\<lparr>ud_sys := u\<rparr>)"
    by (rule ledger_act [OF l _ o(1)]) (auto intro: o(2) simp: udp_owned_def)
  moreover have "reader_ok (ud_reader s) (s\<lparr>ud_sys := u\<rparr>)"
    using r o by (cases "ud_reader s") (auto simp: reader_ok_def fresh_handler_def udp_owned_def)
  ultimately show ?thesis using assms(1) by (simp add: udp_inv_def to_close_def to_count_def)
qed

lemma udp_inv_exec: "udp_inv s \<Longrightarrow> udp_exec l s = Some t \<Longrightarrow> udp_inv t"
proof (cases l)
  case (UActivator k)
  assume inv: "udp_inv s" and ex: "udp_exec l s = Some t"
  then have free: "\<not> (case k of HandlerAt h now inp \<Rightarrow> udp_owned s h | _ \<Rightarrow> False)"
    using UActivator by (auto split: if_splits)
  then obtain u where u: "act_exec k (ud_sys s) = Some u" "t = s\<lparr>ud_sys := u\<rparr>"
    using ex UActivator by auto
  from free have "case k of HandlerAt h now inp \<Rightarrow> \<not> udp_owned s h | _ \<Rightarrow> True" by (cases k) auto
  from udp_inv_activator [OF inv u(1) this] show ?thesis using u(2) by simp
qed (auto split: if_splits option.splits intro: udp_inv_reader udp_inv_reply udp_inv_expire)

lemma udp_inv_start: "udp_inv (udp_start cfg has_sup)"
  by (simp add: udp_inv_def ledger_def udp_start_def reader_ok_def live_def to_close_def to_count_def led_ok_def
      act_inv_start)

interpretation udp_system: transition_invariant "udp_init cfg has_sup" udp_next udp_inv
  by unfold_locales (auto simp: udp_init_def udp_inv_start elim!: udp_next_cases intro: udp_inv_exec)

section \<open>Properties\<close>

lemma live_handlers:
  assumes "udp_inv s" "(key, sid) \<in> set (ud_sessions s)"
  shows "sid < length (ud_heap s)" "as_handlers (ud_sys s) ! ses_handler (ses_at s sid) = HRelay"
    "ses_handler (ses_at s sid) < length (as_handlers (ud_sys s))" "\<not> ses_closed (ses_at s sid)"
proof -
  have l: "ledger (to_close s) (to_count s) s" using assms(1) by (simp add: udp_inv_def)
  have m: "sid \<in># live s" using assms(2) by (force simp: live_def)
  note d = led_conj [OF ledger_conj(4) [OF l]]
  show sid: "sid < length (ud_heap s)" using d(3) m by simp
  show "as_handlers (ud_sys s) ! ses_handler (ses_at s sid) = HRelay" "\<not> ses_closed (ses_at s sid)"
    using d(4) [rule_format, OF sid] m by (simp_all add: ses_at_def)
  show "ses_handler (ses_at s sid) < length (as_handlers (ud_sys s))" by (rule ledger_handler_less [OF l sid])
qed

lemma live_sessions_counted:
  assumes "udp_inv s"
  shows "length (ud_sessions s) \<le> open_handlers (as_handlers (ud_sys s))"
proof -
  have l: "ledger (to_close s) (to_count s) s" using assms by (simp add: udp_inv_def)
  note d = led_conj [OF ledger_conj(4) [OF l]]
  have "count (live s) sid \<le> 1" for sid
  proof (cases "sid < length (ud_heap s)")
    case True
    then show ?thesis using d(4) by fastforce
  next
    case False
    then have "sid \<notin># live s" using d(3) by auto
    then show ?thesis by (simp add: not_in_iff)
  qed
  then have dist: "distinct (map snd (ud_sessions s))"
    unfolding live_def distinct_count_atmost_1
    by (metis count_eq_zero_iff count_inI le_zero_eq less_one nat_less_le set_mset_mset count_mset_0_iff)
  let ?f = "\<lambda>sid. ses_handler (ses_at s sid)"
  let ?S = "set (map snd (ud_sessions s))"
  have inj: "inj_on ?f ?S"
    using led_handler_eq [OF ledger_conj(4) [OF l]] live_handlers(1) [OF assms]
    by (auto simp: inj_on_def ses_at_def)
  have "?f ` ?S \<subseteq> {i. i < length (as_handlers (ud_sys s)) \<and> as_handlers (ud_sys s) ! i \<noteq> HClosed}"
    using live_handlers(2,3) [OF assms] by auto
  then have "card (?f ` ?S) \<le> open_handlers (as_handlers (ud_sys s))"
    unfolding open_handlers_def length_filter_conv_card by (intro card_mono) auto
  then show ?thesis using card_image [OF inj] distinct_card [OF dist] by simp
qed

lemma reach_udp_start:
  "udp_run ls (udp_start cfg has_sup) = Some t \<Longrightarrow> reach (udp_init cfg has_sup) udp_next t"
  by (rule reach_udp_run [OF reach_init]) (simp_all add: udp_init_def)

lemmas udp_eval =
  act_eval udp_start_def reader_step_def reply_step_def expire_step_def session_lookup_def session_insert_def
  close_session_def close_backend_def udp_opened_def udp_closed_def udp_mark_def handler_at_def seen_def
  ses_at_def stale_keys_def udp_owned_def udp_session_ttl_def

text \<open>The first datagram of a client starts the backend and makes its session.\<close>

definition first_datagram :: "string udp_label list" where
  "first_datagram =
     [UReader 1 (GotDatagram ''client''), UReader 1 Go, UReader 1 Go,
      UReader 1 (Ensure Proceed), UReader 2 (Ensure (ControllerAnswers None)),
      UReader 3 (Ensure (Polled TickerFired)), UReader 4 (Ensure (Polled ProbePassed)),
      UReader 4 (Ensure Proceed), UReader 5 (Ensure (DialAnswers True)), UReader 5 Go,
      UReader 5 Go, UReader 5 (Wrote True)]"

lemma first_datagram_run:
  "\<exists>t. udp_run first_datagram (udp_start sample_listener True) = Some t
     \<and> ud_sessions t = [(''client'', 0)] \<and> as_handlers (ud_sys t) = [HRelay] \<and> ud_heap t \<noteq> []"
  by (simp add: first_datagram_def udp_eval)

text \<open>C18. A UDP session holds the backend up: while a client's session is in the map the unit runs
  and is not being stopped, the session's socket is open, the activator counts at least one open
  connection per session, and the idle loop finds nothing to stop.\<close>

theorem udp_session_holds_backend:
  assumes "reach (udp_init cfg has_sup) udp_next s" "(key, sid) \<in> set (ud_sessions s)"
  shows "ac_running (as_act (ud_sys s)) \<and> \<not> ac_stopping (as_act (ud_sys s))
    \<and> \<not> ses_closed (ses_at s sid)
    \<and> int (length (ud_sessions s)) \<le> ac_active (as_act (ud_sys s))
    \<and> fst (idle_enter now (as_act (ud_sys s))) = None"
proof -
  have inv: "udp_inv s" by (rule udp_system.inv_reach [OF assms(1)])
  then have act: "act_inv (ud_sys s)" by (simp add: udp_inv_def ledger_def)
  note d = act_invD [OF act]
  have relay: "HRelay \<in> set (as_handlers (ud_sys s))"
    using live_handlers(2,3) [OF inv assms(2)] by (metis nth_mem)
  have "pc_ok (as_act (ud_sys s)) HRelay" using d(8) relay unfolding list_all_iff by (rule bspec)
  then have run: "ac_running (as_act (ud_sys s))" by simp
  have "\<not> parked (HRelay :: 'a pc)" by simp
  with relay have "\<not> list_all parked (as_handlers (ud_sys s))" unfolding list_all_iff by blast
  then have stop: "\<not> ac_stopping (as_act (ud_sys s))" using d(7) by blast
  have cnt: "int (length (ud_sessions s)) \<le> ac_active (as_act (ud_sys s))"
    using live_sessions_counted [OF inv] d(2) by simp
  moreover have "0 < length (ud_sessions s)" using assms(2) by (cases "ud_sessions s") auto
  ultimately have "0 < ac_active (as_act (ud_sys s))" by linarith
  then have "fst (idle_enter now (as_act (ud_sys s))) = None" by (simp add: idle_enter_def)
  with run stop cnt live_handlers(4) [OF inv assms(2)] show ?thesis by blast
qed

theorem udp_session_holds_backend_witness:
  "\<exists>t. udp_run first_datagram (udp_start sample_listener True) = Some t
     \<and> ac_running (as_act (ud_sys t)) \<and> 1 \<le> ac_active (as_act (ud_sys t))"
proof -
  obtain t where t: "udp_run first_datagram (udp_start sample_listener True) = Some t"
    "ud_sessions t = [(''client'', 0)]"
    using first_datagram_run by blast
  from udp_session_holds_backend [OF reach_udp_start [OF t(1)], of "''client''" 0] t show ?thesis by auto
qed

text \<open>C19. The read loop, the reply loops and the expiry loop may all try to close a session, in any
  order, but each backend socket is closed once and each connection given back once: a session is
  in the map with its socket open and its connection counted, or one thread is closing it, or its
  socket is closed and its connection given back.\<close>

theorem udp_sessions_closed_once:
  assumes "reach (udp_init cfg has_sup) udp_next s" "sid < length (ud_heap s)"
  shows "\<not> ud_double_close s
    \<and> count (live s) sid + count (to_close s) sid + count (to_count s) sid \<le> 1
    \<and> (ses_closed (ses_at s sid) \<longleftrightarrow> sid \<notin># live s + to_close s)
    \<and> (as_handlers (ud_sys s) ! ses_handler (ses_at s sid) = HClosed \<longleftrightarrow>
         sid \<notin># live s + to_close s + to_count s)"
proof -
  have l: "ledger (to_close s) (to_count s) s"
    using udp_system.inv_reach [OF assms(1)] by (simp add: udp_inv_def)
  show ?thesis
    using ledger_conj(3) [OF l] led_conj(4) [OF ledger_conj(4) [OF l], rule_format, OF assms(2)]
    by (auto simp: ses_at_def)
qed

theorem udp_sessions_closed_once_witness:
  "\<exists>t. udp_run (first_datagram @ [UReply 0 6 Go, UReply 0 36 (Replied False True), UReply 0 36 Go, UReply 0 36 Go])
        (udp_start sample_listener True) = Some t
     \<and> ses_closed (ses_at t 0) \<and> as_handlers (ud_sys t) ! ses_handler (ses_at t 0) \<noteq> HClosed"
proof -
  let ?ls = "first_datagram @ [UReply 0 6 Go, UReply 0 36 (Replied False True), UReply 0 36 Go, UReply 0 36 Go]"
  obtain t where t: "udp_run ?ls (udp_start sample_listener True) = Some t" "length (ud_heap t) = 1"
    "ud_sessions t = []" "ud_reader t = RdRead" "ud_expire t = XWait"
    "ud_replies t = [PyClosing (CloseCount 0)]"
    by (simp add: first_datagram_def udp_eval)
  from udp_sessions_closed_once [OF reach_udp_start [OF t(1)], of 0] t show ?thesis
    by (auto simp: live_def to_close_def to_count_def)
qed

text \<open>The branch of \<^verbatim>\<open>session\<close> for a session another datagram made while it dialled is dead: the
  read loop handles one datagram at a time and is the only maker of sessions.\<close>

theorem udp_second_lookup_finds_nothing:
  assumes "reach (udp_init cfg has_sup) udp_next s" "ud_reader s = RdInsert key h now"
  shows "map_of (ud_sessions s) key = None"
  using udp_system.inv_reach [OF assms(1)] assms(2)
  by (simp add: udp_inv_def reader_ok_def map_of_None_keys)

text \<open>A session closed by another thread wakes its reply loop with an error; it then closes whatever
  session its client has by now.\<close>

definition stale_reply :: "string udp_label list" where
  "stale_reply = first_datagram @
     [UReply 0 6 Go, UReader 7 (GotDatagram ''client''), UReader 7 Go, UReader 7 Go, UReader 7 (Wrote False),
      UReader 7 Go, UReader 7 Go, UReader 7 Go,
      UReader 8 (GotDatagram ''client''), UReader 8 Go, UReader 8 Go, UReader 8 (Ensure Proceed),
      UReader 8 (Ensure (DialAnswers True)), UReader 8 Go, UReader 8 Go, UReader 8 (Wrote True),
      UReply 0 8 (Replied False True)]"

lemma stale_reply_run:
  "\<exists>s t. udp_run stale_reply (udp_start sample_listener True) = Some s
     \<and> ses_closed (ses_at s 0) \<and> ud_sessions s = [(''client'', 1)] \<and> ses_last_seen (ses_at s 1) = 8
     \<and> udp_exec (UReply 0 8 Go) s = Some t \<and> ud_sessions t = [] \<and> ud_replies t ! 0 = PyClosing (CloseBackend 1)"
  by (simp add: stale_reply_def first_datagram_def udp_eval)

text \<open>The reply loop of a closed session can take down a newer, healthy session of the same client:
  sessions are closed by key, not by identity, so the loop's own error, which only says that its old
  socket is gone, removes the session that has replaced it, seen at that very instant.\<close>

theorem stale_reply_loop_closes_new_session:
  "\<exists>s t. reach (udp_init sample_listener True) udp_next (s :: string udp_sys)
     \<and> ses_closed (ses_at s 0) \<and> map_of (ud_sessions s) ''client'' = Some 1
     \<and> udp_exec (UReply 0 (ses_last_seen (ses_at s 1)) Go) s = Some t
     \<and> map_of (ud_sessions t) ''client'' = None \<and> ud_replies t ! 0 = PyClosing (CloseBackend 1)"
proof -
  obtain s t :: "string udp_sys" where r: "udp_run stale_reply (udp_start sample_listener True) = Some s"
    and s: "ses_closed (ses_at s 0)" "ud_sessions s = [(''client'', 1)]" "ses_last_seen (ses_at s 1) = 8"
    and t: "udp_exec (UReply 0 8 Go) s = Some t" "ud_sessions t = []" "ud_replies t ! 0 = PyClosing (CloseBackend 1)"
    using stale_reply_run by blast
  have "reach (udp_init sample_listener True) udp_next s" by (rule reach_udp_start [OF r])
  with s t show ?thesis by (intro exI [of _ s] exI [of _ t]) simp
qed

text \<open>A session seen between the expiry's scan and its close is closed all the same.\<close>

definition late_datagram :: "string udp_label list" where
  "late_datagram = first_datagram @
     [UExpire 40000000000 Tick, UExpire 40000000000 Go,
      UReader 40000000001 (GotDatagram ''client''), UReader 40000000001 Go,
      UExpire 40000000002 Go, UExpire 40000000002 Go]"

lemma refreshed_session_expires:
  "\<exists>t. udp_run late_datagram (udp_start sample_listener True) = Some t
     \<and> ses_last_seen (ses_at t 0) = 40000000001 \<and> ud_sessions t = []
     \<and> ud_reader t = RdMark ''client'' 0 \<and> ud_expire t = XClosing ''client'' (CloseBackend 0) []"
  by (simp add: late_datagram_def first_datagram_def udp_eval)

text \<open>The expiry closes the clients whose session has seen nothing for the session's lifetime.\<close>

theorem stale_keys_iff:
  assumes "reach (udp_init cfg has_sup) udp_next s"
  shows "key \<in> set (stale_keys now s) \<longleftrightarrow>
    (\<exists>sid. map_of (ud_sessions s) key = Some sid \<and> 30 * second \<le> now - ses_last_seen (ses_at s sid))"
proof -
  have ok: "gm_ok (ud_sessions s)" using udp_system.inv_reach [OF assms] by (simp add: udp_inv_def ledger_def)
  have "udp_session_ttl \<le> time_sub now u \<longleftrightarrow> 30 * second \<le> now - u" for u
    using time_sub_less_iff [of udp_session_ttl now u]
    by (simp add: udp_session_ttl_def second_def int64_min_def int64_max_def not_less [symmetric])
  moreover have "map_of (ud_sessions s) key = Some sid \<longleftrightarrow> (key, sid) \<in> set (ud_sessions s)" for sid
    using ok by (auto simp: gm_ok_def map_of_eq_Some_iff)
  ultimately show ?thesis by (force simp: stale_keys_def)
qed

end
