(* ===== verification/Relay.thy ===== *)
theory Relay
  imports Prelude
begin

text \<open>
  \<^verbatim>\<open>internal/socketactivation/proxy.go\<close>: the byte relay between a client and the backend. A
  reader is the sequence of its \<^verbatim>\<open>Read\<close> results (the chunk and whether an error came with it), a
  writer the sequence of its \<^verbatim>\<open>Write\<close> outcomes. The copy loop ends only when one of them fails,
  so it is a partial function: \<open>None\<close> is the loop that never returns.
\<close>

type_synonym reader = "nat \<Rightarrow> string \<times> bool"
type_synonym writer = "nat \<Rightarrow> bool"

text \<open>What a copy has done: the bytes written, and how often traffic was reported.\<close>

record copied =
  cp_bytes :: string
  cp_traffic :: nat

definition add_chunk :: "string \<Rightarrow> copied \<Rightarrow> copied" where
  "add_chunk chunk c = \<lparr>cp_bytes = cp_bytes c @ chunk, cp_traffic = Suc (cp_traffic c)\<rparr>"

partial_function (option) copy_with_traffic :: "reader \<Rightarrow> writer \<Rightarrow> nat \<Rightarrow> copied \<Rightarrow> copied option" where
  "copy_with_traffic src dst k c =
     (if fst (src k) \<noteq> [] \<and> \<not> dst k then Some c
      else
        (let c' = (if fst (src k) \<noteq> [] then add_chunk (fst (src k)) c else c) in
         if snd (src k) then Some c' else copy_with_traffic src dst (Suc k) c'))"

text \<open>
  \<^verbatim>\<open>relay\<close> runs both directions and returns when both have; each ends by half-closing the
  connection it wrote to.
\<close>

datatype side = Client | Backend

definition relay ::
  "reader \<Rightarrow> writer \<Rightarrow> reader \<Rightarrow> writer \<Rightarrow> (copied \<times> copied \<times> side set) option" where
  "relay client_in backend_out backend_in client_out =
     (case copy_with_traffic client_in backend_out 0 \<lparr>cp_bytes = [], cp_traffic = 0\<rparr> of
        None \<Rightarrow> None
      | Some up \<Rightarrow>
          (case copy_with_traffic backend_in client_out 0 \<lparr>cp_bytes = [], cp_traffic = 0\<rparr> of
             None \<Rightarrow> None
           | Some down \<Rightarrow> Some (up, down, {Backend, Client})))"

section \<open>When the loop ends\<close>

definition stops_at :: "reader \<Rightarrow> writer \<Rightarrow> nat \<Rightarrow> bool" where
  "stops_at src dst k \<longleftrightarrow> snd (src k) \<or> fst (src k) \<noteq> [] \<and> \<not> dst k"

text \<open>The chunks moved by the reads from \<open>k\<close> up to and including \<open>n\<close>, when \<open>n\<close> is the first stop.\<close>

definition moved :: "reader \<Rightarrow> writer \<Rightarrow> nat \<Rightarrow> nat \<Rightarrow> string list" where
  "moved src dst k n = filter (\<lambda>x. x \<noteq> []) (map (\<lambda>i. fst (src i)) [k..<n])
     @ (if fst (src n) \<noteq> [] \<and> dst n then [fst (src n)] else [])"

lemma copy_stop:
  "stops_at src dst k \<Longrightarrow> copy_with_traffic src dst k c =
     Some (if fst (src k) \<noteq> [] \<and> dst k then add_chunk (fst (src k)) c else c)"
  by (subst copy_with_traffic.simps) (auto simp: stops_at_def Let_def)

lemma copy_continue:
  "\<not> stops_at src dst k \<Longrightarrow> copy_with_traffic src dst k c =
     copy_with_traffic src dst (Suc k) (if fst (src k) \<noteq> [] then add_chunk (fst (src k)) c else c)"
  by (subst copy_with_traffic.simps) (auto simp: stops_at_def Let_def)

lemma moved_step:
  "k < n \<Longrightarrow> moved src dst k n = (if fst (src k) \<noteq> [] then [fst (src k)] else []) @ moved src dst (Suc k) n"
  by (simp add: moved_def upt_conv_Cons)

lemma copy_until_first_stop:
  assumes "k \<le> n" "stops_at src dst n" "\<And>i. k \<le> i \<Longrightarrow> i < n \<Longrightarrow> \<not> stops_at src dst i"
  shows "copy_with_traffic src dst k c =
    Some \<lparr>cp_bytes = cp_bytes c @ concat (moved src dst k n),
          cp_traffic = cp_traffic c + length (moved src dst k n)\<rparr>"
  using assms
proof (induction "n - k" arbitrary: k c)
  case 0
  then show ?case by (auto simp: copy_stop moved_def add_chunk_def)
next
  case (Suc d)
  then have "k < n" by simp
  moreover have "\<not> stops_at src dst k" using Suc.prems(3) [of k] \<open>k < n\<close> by simp
  ultimately show ?case
    using Suc.hyps(1) [of "Suc k"] Suc.hyps(2) Suc.prems
    by (simp add: copy_continue moved_step add_chunk_def)
qed

text \<open>A loop that returns has met a stop: by fixpoint induction on the graph of the function.\<close>

lemma copy_returns_stop:
  assumes "copy_with_traffic src dst k c = Some r"
  shows "\<exists>n \<ge> k. stops_at src dst n"
  using assms
proof (rule copy_with_traffic.raw_induct [where P = "\<lambda>src dst k c r. \<exists>n \<ge> k. stops_at src dst n", rotated])
  fix f :: "reader \<Rightarrow> writer \<Rightarrow> nat \<Rightarrow> copied \<Rightarrow> copied option" and src dst k c r
  assume IH: "\<And>src dst k c r. f src dst k c = Some r \<Longrightarrow> \<exists>n \<ge> k. stops_at src dst n"
    and body: "(if fst (src k) \<noteq> [] \<and> \<not> dst k then Some c
      else let c' = if fst (src k) \<noteq> [] then add_chunk (fst (src k)) c else c
           in if snd (src k) then Some c' else f src dst (Suc k) c') = Some r"
  show "\<exists>n \<ge> k. stops_at src dst n"
  proof (cases "stops_at src dst k")
    case True
    then show ?thesis by blast
  next
    case False
    then obtain c' where "f src dst (Suc k) c' = Some r"
      using body by (auto simp: stops_at_def Let_def split: if_splits)
    from IH [OF this] show ?thesis by (auto intro: Suc_leD)
  qed
qed

text \<open>C22. The copy between two connections returns exactly when a read fails or a write fails at
  some point; it has then moved, unchanged and in order, every chunk read before that point (and the
  last one, when it came with the error and could be written), reporting traffic once per chunk.\<close>

theorem copy_returns_iff:
  "(copy_with_traffic src dst 0 \<lparr>cp_bytes = [], cp_traffic = 0\<rparr> \<noteq> None \<longleftrightarrow> (\<exists>n. stops_at src dst n))
   \<and> (\<forall>r. copy_with_traffic src dst 0 \<lparr>cp_bytes = [], cp_traffic = 0\<rparr> = Some r \<longrightarrow>
        (let n = (LEAST n. stops_at src dst n) in
         cp_bytes r = concat (moved src dst 0 n) \<and> cp_traffic r = length (moved src dst 0 n)))"
proof -
  let ?c = "\<lparr>cp_bytes = [], cp_traffic = 0\<rparr>"
  have run: "copy_with_traffic src dst 0 ?c =
      Some \<lparr>cp_bytes = concat (moved src dst 0 (LEAST n. stops_at src dst n)),
            cp_traffic = length (moved src dst 0 (LEAST n. stops_at src dst n))\<rparr>"
    if "stops_at src dst n" for n
  proof -
    define m where "m = (LEAST n. stops_at src dst n)"
    have stop: "stops_at src dst m" unfolding m_def using that by (rule LeastI)
    have "\<not> stops_at src dst i" if "i < m" for i
      using that unfolding m_def by (rule not_less_Least)
    with copy_until_first_stop [OF le0 stop, of ?c] show ?thesis unfolding m_def [symmetric] by simp
  qed
  show ?thesis
  proof (cases "\<exists>n. stops_at src dst n")
    case True
    then obtain n where "stops_at src dst n" ..
    from run [OF this] True show ?thesis by (simp add: Let_def)
  next
    case False
    then have "copy_with_traffic src dst 0 ?c = None"
      using copy_returns_stop [of src dst 0 ?c] by (cases "copy_with_traffic src dst 0 ?c") auto
    with False show ?thesis by simp
  qed
qed

theorem copy_returns_iff_witness:
  "copy_with_traffic (\<lambda>k. if k = 0 then (''GET'', False) else (''/'', True)) (\<lambda>k. True) 0
     \<lparr>cp_bytes = [], cp_traffic = 0\<rparr> \<noteq> None"
  using copy_returns_iff [of "\<lambda>k. if k = 0 then (''GET'', False) else (''/'', True)" "\<lambda>k. True"]
  by (auto simp: stops_at_def intro!: exI [of _ 1])

end
