(* ===== verification/HttpHealth.thy ===== *)
theory HttpHealth
  imports Config StateManager Json "HOL-Library.Multiset"
begin

text \<open>
  \<^verbatim>\<open>internal/httphealth/server.go\<close>: the health endpoint. A request handler is a function of the
  method, the readiness flag, the encoded time and the two providers it asks: the names of the
  critical units, in whatever order the daemon's map gives them, and the state manager. The
  listener, the server's timeouts and its shutdown are \<^verbatim>\<open>net/http\<close>'s.
\<close>

section \<open>Data\<close>

record unit_view =
  uv_unit_name :: string
  uv_active_state :: string
  uv_sub_state :: string
  uv_healthy :: "bool option"

record health_response =
  hr_status :: string
  hr_ready :: bool
  hr_timestamp :: string
  hr_units :: "unit_view list"

record http_reply =
  rp_code :: nat
  rp_allow :: "string option"
  rp_body :: "health_response option"

definition json_of_view :: "unit_view \<Rightarrow> json" where
  "json_of_view v =
     JObj (str_field ''unit_name'' (uv_unit_name v) @ omit_empty_str ''active_state'' (uv_active_state v) @
       omit_empty_str ''sub_state'' (uv_sub_state v) @ omit_empty_bool ''healthy'' (uv_healthy v))"

definition json_of_health :: "health_response \<Rightarrow> json" where
  "json_of_health r =
     JObj (str_field ''status'' (hr_status r) @ [(''ready'', JBool (hr_ready r))] @
       str_field ''timestamp'' (hr_timestamp r) @
       (if hr_units r = [] then [] else [(''units'', JArr (map json_of_view (hr_units r)))]))"

section \<open>Handlers\<close>

definition unit_view_of :: "'h state_manager \<Rightarrow> string \<Rightarrow> unit_view" where
  "unit_view_of sm name =
     (case get_status sm name of
        None \<Rightarrow> \<lparr>uv_unit_name = name, uv_active_state = [], uv_sub_state = [], uv_healthy = None\<rparr>
      | Some status \<Rightarrow>
          \<lparr>uv_unit_name = name, uv_active_state = us_active_state status, uv_sub_state = us_sub_state status,
           uv_healthy = us_healthy status\<rparr>)"

definition critical_view :: "'h state_manager \<Rightarrow> string list \<Rightarrow> unit_view list" where
  "critical_view sm names = map (unit_view_of sm) (sort names)"

fun all_healthy :: "unit_view list \<Rightarrow> bool" where
  "all_healthy [] \<longleftrightarrow> True"
| "all_healthy (u # us) \<longleftrightarrow>
     (if uv_active_state u \<noteq> ''active'' then False
      else if uv_healthy u = Some False then False
      else all_healthy us)"

definition status_string :: "bool \<Rightarrow> string" where
  "status_string ok = (if ok then ''ok'' else ''unhealthy'')"

definition allowed_method :: "string \<Rightarrow> bool" where
  "allowed_method m \<longleftrightarrow> m = ''GET'' \<or> m = ''HEAD''"

definition method_not_allowed :: http_reply where
  "method_not_allowed = \<lparr>rp_code = 405, rp_allow = Some ''GET, HEAD'', rp_body = None\<rparr>"

definition write_json :: "nat \<Rightarrow> health_response \<Rightarrow> http_reply" where
  "write_json status body = \<lparr>rp_code = status, rp_allow = None, rp_body = Some body\<rparr>"

definition handle_health :: "'h state_manager \<Rightarrow> string list \<Rightarrow> bool \<Rightarrow> string \<Rightarrow> string \<Rightarrow> http_reply" where
  "handle_health sm critical ready now m =
     (if \<not> allowed_method m then method_not_allowed
      else
        (let units = critical_view sm critical; healthy = all_healthy units in
         write_json (if healthy then 200 else 503)
           \<lparr>hr_status = status_string healthy, hr_ready = ready, hr_timestamp = now, hr_units = units\<rparr>))"

definition handle_ready :: "bool \<Rightarrow> string \<Rightarrow> string \<Rightarrow> http_reply" where
  "handle_ready ready now m =
     (if \<not> allowed_method m then method_not_allowed
      else write_json (if ready then 200 else 503)
        \<lparr>hr_status = status_string ready, hr_ready = ready, hr_timestamp = now, hr_units = []\<rparr>)"

definition handle_live :: "bool \<Rightarrow> string \<Rightarrow> string \<Rightarrow> http_reply" where
  "handle_live ready now m =
     (if \<not> allowed_method m then method_not_allowed
      else write_json 200 \<lparr>hr_status = ''ok'', hr_ready = ready, hr_timestamp = now, hr_units = []\<rparr>)"

text \<open>The routes \<^verbatim>\<open>Start\<close> installs; \<^verbatim>\<open>ServeMux\<close> answers 404 for any other path.\<close>

definition serve :: "'h state_manager \<Rightarrow> string list \<Rightarrow> bool \<Rightarrow> string \<Rightarrow> string \<Rightarrow> string \<Rightarrow> http_reply" where
  "serve sm critical ready now path m =
     (if path = ''/health'' then handle_health sm critical ready now m
      else if path = ''/ready'' then handle_ready ready now m
      else if path = ''/live'' then handle_live ready now m
      else \<lparr>rp_code = 404, rp_allow = None, rp_body = None\<rparr>)"

section \<open>The server\<close>

text \<open>\<^verbatim>\<open>Start\<close> listens, and the handlers answer from then on; the daemon calls \<^verbatim>\<open>MarkReady\<close> when its
  start-up is done.\<close>

record http_server =
  sv_cfg :: http_config
  sv_ready :: bool
  sv_listening :: bool

definition http_new :: "http_config \<Rightarrow> http_server" where
  "http_new cfg = \<lparr>sv_cfg = cfg, sv_ready = False, sv_listening = False\<rparr>"

definition mark_ready :: "http_server \<Rightarrow> http_server" where
  "mark_ready srv = srv\<lparr>sv_ready := True\<rparr>"

definition http_start :: "(string \<Rightarrow> 'x option) \<Rightarrow> http_server \<Rightarrow> 'x option \<times> http_server" where
  "http_start listen srv =
     (case listen (ht_listen (sv_cfg srv)) of
        Some e \<Rightarrow> (Some e, srv)
      | None \<Rightarrow> (None, srv\<lparr>sv_listening := True\<rparr>))"

definition http_answer ::
  "'h state_manager \<Rightarrow> string list \<Rightarrow> string \<Rightarrow> string \<Rightarrow> string \<Rightarrow> http_server \<Rightarrow> http_reply option" where
  "http_answer sm critical now path m srv =
     (if sv_listening srv then Some (serve sm critical (sv_ready srv) now path m) else None)"

section \<open>Lemmas\<close>

definition serving :: "'h state_manager \<Rightarrow> string \<Rightarrow> bool" where
  "serving sm u \<longleftrightarrow>
     (case get_status sm u of
        None \<Rightarrow> False
      | Some st \<Rightarrow> us_active_state st = ''active'' \<and> us_healthy st \<noteq> Some False)"

lemma all_healthy_iff:
  "all_healthy vs \<longleftrightarrow> (\<forall>v \<in> set vs. uv_active_state v = ''active'' \<and> uv_healthy v \<noteq> Some False)"
  by (induction vs) auto

lemma view_serving:
  "uv_active_state (unit_view_of sm u) = ''active'' \<and> uv_healthy (unit_view_of sm u) \<noteq> Some False
     \<longleftrightarrow> serving sm u"
  by (simp add: unit_view_of_def serving_def split: option.split)

lemma all_healthy_critical: "all_healthy (critical_view sm names) \<longleftrightarrow> (\<forall>u \<in> set names. serving sm u)"
  by (simp add: all_healthy_iff critical_view_def view_serving [symmetric])

lemma view_names: "map uv_unit_name (critical_view sm names) = sort names"
proof -
  have "uv_unit_name (unit_view_of sm u) = u" for u by (simp add: unit_view_of_def split: option.split)
  then show ?thesis by (simp add: critical_view_def comp_def)
qed

lemma health_endpoint_correct_parts:
  assumes "m = ''GET'' \<or> m = ''HEAD''"
  shows "rp_code (serve sm critical ready now ''/health'' m) = (if \<forall>u \<in> set critical. serving sm u then 200 else 503)"
    and "map_option (\<lambda>b. map uv_unit_name (hr_units b)) (rp_body (serve sm critical ready now ''/health'' m))
           = Some (sort critical)"
    and "mset critical' = mset critical \<Longrightarrow>
           serve sm critical' ready now ''/health'' m = serve sm critical ready now ''/health'' m"
proof -
  show "rp_code (serve sm critical ready now ''/health'' m) = (if \<forall>u \<in> set critical. serving sm u then 200 else 503)"
    using assms by (auto simp: serve_def handle_health_def allowed_method_def write_json_def all_healthy_critical Let_def)
  show "map_option (\<lambda>b. map uv_unit_name (hr_units b)) (rp_body (serve sm critical ready now ''/health'' m))
      = Some (sort critical)"
    using assms by (auto simp: serve_def handle_health_def allowed_method_def write_json_def view_names Let_def)
  assume "mset critical' = mset critical"
  then have "sort critical' = sort critical" by (simp add: properties_for_sort)
  then show "serve sm critical' ready now ''/health'' m = serve sm critical ready now ''/health'' m"
    by (simp add: serve_def handle_health_def critical_view_def)
qed

text \<open>C31. The health endpoint answers 200 exactly when every critical unit is known, active and not
  unhealthy (a unit without health checks passes), 503 otherwise; its body names the critical units
  in order, and neither the answer nor the body depends on the order the daemon's map yields them.\<close>

theorem health_endpoint_correct:
  assumes "m = ''GET'' \<or> m = ''HEAD''"
  shows "rp_code (serve sm critical ready now ''/health'' m) = (if \<forall>u \<in> set critical. serving sm u then 200 else 503)
    \<and> map_option (\<lambda>b. map uv_unit_name (hr_units b)) (rp_body (serve sm critical ready now ''/health'' m))
           = Some (sort critical)
    \<and> (mset critical' = mset critical \<longrightarrow>
           serve sm critical' ready now ''/health'' m = serve sm critical ready now ''/health'' m)"
  using health_endpoint_correct_parts [OF assms] by (intro conjI impI)

text \<open>Readiness is the daemon's start-up, not the units' health: between \<^verbatim>\<open>Start\<close> and \<^verbatim>\<open>MarkReady\<close> the
  readiness endpoint answers 503 while liveness answers 200, and after it both answer 200.\<close>

theorem ready_after_mark:
  assumes "http_start listen (http_new cfg) = (None, srv)"
  shows "map_option rp_code (http_answer sm critical now ''/ready'' ''GET'' srv) = Some 503
    \<and> map_option rp_code (http_answer sm critical now ''/ready'' ''GET'' (mark_ready srv)) = Some 200
    \<and> map_option rp_code (http_answer sm critical now ''/live'' ''GET'' srv) = Some 200"
  using assms
  by (auto simp: http_start_def http_new_def mark_ready_def http_answer_def serve_def handle_ready_def handle_live_def
      write_json_def allowed_method_def split: option.splits)

definition two_units :: "unit state_manager" where
  "two_units =
     \<lparr>sm_units =
        [(''db.service'', (fresh_status ''db.service'')\<lparr>us_active_state := ''active''\<rparr>),
         (''web.service'', (fresh_status ''web.service'')\<lparr>us_active_state := ''active'', us_healthy := Some False\<rparr>)],
      sm_handlers = []\<rparr>"

theorem health_endpoint_correct_witness:
  "rp_code (serve two_units [''db.service''] True [] ''/health'' ''GET'') = 200
   \<and> rp_code (serve two_units [''web.service'', ''db.service''] True [] ''/health'' ''GET'') = 503
   \<and> serve two_units [''web.service'', ''db.service''] True [] ''/health'' ''GET''
       = serve two_units [''db.service'', ''web.service''] True [] ''/health'' ''GET''"
  using health_endpoint_correct [THEN conjunct1, of "''GET''" two_units "[''db.service'']" True "[]"]
    health_endpoint_correct [THEN conjunct1, of "''GET''" two_units "[''web.service'', ''db.service'']" True "[]"]
    health_endpoint_correct [THEN conjunct2, THEN conjunct2, THEN mp, of "''GET''" "[''web.service'', ''db.service'']" "[''db.service'', ''web.service'']"
      two_units True "[]"]
  by (simp add: serving_def get_status_def two_units_def fresh_status_def)

end
