(* ===== verification/DaemonReload.thy ===== *)
theory DaemonReload
  imports Daemon ConfigDeps
begin

text \<open>
  What registration, discovery and reload leave supervised. The abstract state of the daemon is a
  partial map, from the supervised units to whether each is critical; every operation is a pointwise
  update of it, and a reload computes it from the new configuration. Also the round trip of instance
  names and the health checks a discovered instance gets.
\<close>

section \<open>Frame\<close>

named_theorems dm_frame

lemma on_rs_frame [dm_frame, simp]:
  "dm_registered (on_rs l d) = dm_registered d" "dm_critical (on_rs l d) = dm_critical d"
  "dm_cancels (on_rs l d) = dm_cancels d" "dm_monitors (on_rs l d) = dm_monitors d"
  "dm_world (on_rs l d) = dm_world d" "dm_cfg (on_rs l d) = dm_cfg d"
  "dm_ctxs (on_rs l d) = dm_ctxs d" "dm_tasks (on_rs l d) = dm_tasks d"
  by (simp_all add: on_rs_def)

lemma with_sm_frame [dm_frame, simp]:
  "dm_registered (with_sm sm d) = dm_registered d" "dm_critical (with_sm sm d) = dm_critical d"
  "dm_cancels (with_sm sm d) = dm_cancels d" "dm_monitors (with_sm sm d) = dm_monitors d"
  "dm_world (with_sm sm d) = dm_world d" "dm_cfg (with_sm sm d) = dm_cfg d"
  "dm_ctxs (with_sm sm d) = dm_ctxs d" "dm_tasks (with_sm sm d) = dm_tasks d"
  by (simp_all add: with_sm_def)

lemma dispatch_frame [dm_frame, simp]:
  "dm_registered (dispatch evs d) = dm_registered d" "dm_critical (dispatch evs d) = dm_critical d"
  "dm_cancels (dispatch evs d) = dm_cancels d" "dm_monitors (dispatch evs d) = dm_monitors d"
  "dm_world (dispatch evs d) = dm_world d" "dm_cfg (dispatch evs d) = dm_cfg d"
  "dm_ctxs (dispatch evs d) = dm_ctxs d" "dm_tasks (dispatch evs d) = dm_tasks d"
  by (induction evs d rule: dispatch.induct) simp_all

lemma state_changed_frame [dm_frame, simp]:
  "dm_registered (state_changed u a b d) = dm_registered d" "dm_critical (state_changed u a b d) = dm_critical d"
  "dm_cancels (state_changed u a b d) = dm_cancels d" "dm_monitors (state_changed u a b d) = dm_monitors d"
  "dm_world (state_changed u a b d) = dm_world d" "dm_cfg (state_changed u a b d) = dm_cfg d"
  "dm_ctxs (state_changed u a b d) = dm_ctxs d" "dm_tasks (state_changed u a b d) = dm_tasks d"
  by (simp_all add: state_changed_def split: prod.split)

lemma health_changed_frame [dm_frame, simp]:
  "dm_registered (health_changed u h d) = dm_registered d" "dm_critical (health_changed u h d) = dm_critical d"
  "dm_cancels (health_changed u h d) = dm_cancels d" "dm_monitors (health_changed u h d) = dm_monitors d"
  "dm_world (health_changed u h d) = dm_world d" "dm_cfg (health_changed u h d) = dm_cfg d"
  "dm_ctxs (health_changed u h d) = dm_ctxs d" "dm_tasks (health_changed u h d) = dm_tasks d"
  by (simp_all add: health_changed_def split: prod.split)

lemma exec_call_frame [dm_frame, simp]:
  "dm_registered (exec_call m c d) = dm_registered d" "dm_critical (exec_call m c d) = dm_critical d"
  "dm_cancels (exec_call m c d) = dm_cancels d" "dm_monitors (exec_call m c d) = dm_monitors d"
  "dm_world (exec_call m c d) = dm_world d" "dm_cfg (exec_call m c d) = dm_cfg d"
  by (cases c; simp split: sum.split)+

lemma fold_exec_frame [dm_frame, simp]:
  "dm_registered (fold (exec_call m) cs d) = dm_registered d" "dm_critical (fold (exec_call m) cs d) = dm_critical d"
  "dm_cancels (fold (exec_call m) cs d) = dm_cancels d" "dm_monitors (fold (exec_call m) cs d) = dm_monitors d"
  "dm_world (fold (exec_call m) cs d) = dm_world d" "dm_cfg (fold (exec_call m) cs d) = dm_cfg d"
  by (induction cs arbitrary: d) simp_all

lemma run_calls_frame [dm_frame, simp]:
  "dm_registered (run_calls m p) = dm_registered (snd p)" "dm_critical (run_calls m p) = dm_critical (snd p)"
  "dm_cancels (run_calls m p) = dm_cancels (snd p)" "dm_monitors (run_calls m p) = dm_monitors (snd p)"
  "dm_world (run_calls m p) = dm_world (snd p)" "dm_cfg (run_calls m p) = dm_cfg (snd p)"
  by (simp_all add: run_calls_def)

section \<open>The supervised units\<close>

definition reg_ok :: "'w daemon \<Rightarrow> bool" where
  "reg_ok d \<longleftrightarrow>
     gm_ok (dm_registered d) \<and> gm_keys (dm_cancels d) = gm_keys (dm_registered d)
     \<and> gm_keys (dm_critical d) \<subseteq> gm_keys (dm_registered d)"

definition supervised :: "'w daemon \<Rightarrow> string \<Rightarrow> bool option" where
  "supervised d n =
     (if n \<in> gm_keys (dm_registered d) then Some (n \<in> gm_keys (dm_critical d)) else None)"

definition register_view :: "string \<Rightarrow> bool \<Rightarrow> (string \<Rightarrow> bool option) \<Rightarrow> string \<Rightarrow> bool option" where
  "register_view n b v = v(n := (case v n of None \<Rightarrow> Some b | Some b' \<Rightarrow> Some b'))"

lemma supervised_None: "supervised d n = None \<longleftrightarrow> map_of (dm_registered d) n = None"
  by (simp add: supervised_def map_of_None_keys)

lemma register_unit_facts:
  "reg_ok d \<Longrightarrow> reg_ok (register_unit m n u d)"
  "reg_ok d \<Longrightarrow> supervised (register_unit m n u d) = register_view n (uc_critical u) (supervised d)"
  "dm_world (register_unit m n u d) = dm_world d"
  by (auto simp: register_unit_def register_enter_def reg_ok_def supervised_def register_view_def Let_def
      map_of_None_keys fun_eq_iff dest: gm_keys_mem split: option.splits)

lemma unregister_unit_facts:
  "reg_ok d \<Longrightarrow> reg_ok (unregister_unit m n d)"
  "reg_ok d \<Longrightarrow> supervised (unregister_unit m n d) = (supervised d)(n := None)"
  "dm_world (unregister_unit m n d) = dm_world d"
  by (auto simp: unregister_unit_def unregister_enter_def reg_ok_def supervised_def
      map_of_None_keys fun_eq_iff dest: gm_keys_mem split: option.splits)

lemma update_unit_facts:
  "reg_ok d \<Longrightarrow> reg_ok (update_unit m n u d)"
  "reg_ok d \<Longrightarrow> supervised (update_unit m n u d) = (supervised d)(n := Some (uc_critical u))"
  "dm_world (update_unit m n u d) = dm_world d"
  by (simp_all add: update_unit_def register_unit_facts unregister_unit_facts register_view_def)

interpretation supervised_units: registry
  supervised "\<lambda>n u. update_unit m n u" "unregister_unit m" "\<lambda>n u. uc_critical u" reg_ok
  for m :: "('w, 'e) manager"
  by unfold_locales (simp_all add: update_unit_facts unregister_unit_facts)

section \<open>Folds of pointwise updates\<close>

text \<open>
  A fold of operations each of which updates the abstract map at its own key: an invariant, the
  world, and the result at one key.
\<close>

lemma fold_keeps:
  assumes "\<And>x d. P d \<Longrightarrow> P (f x d) \<and> w (f x d) = w d" and "P d"
  shows "P (fold f xs d) \<and> w (fold f xs d) = w d"
  using assms(2) by (induction xs arbitrary: d) (simp_all add: assms(1))

lemma fold_other_keys:
  assumes "\<And>x d. P d \<Longrightarrow> P (f x d)" and "\<And>x d. P d \<Longrightarrow> key x \<noteq> n \<Longrightarrow> view (f x d) n = view d n"
    and "P d" and "\<And>x. x \<in> set xs \<Longrightarrow> key x \<noteq> n"
  shows "view (fold f xs d) n = view d n"
  using assms(3,4) by (induction xs arbitrary: d) (simp_all add: assms(1,2))

lemma fold_own_key:
  assumes "\<And>x d. P d \<Longrightarrow> P (f x d)" and "\<And>x d. P d \<Longrightarrow> key x \<noteq> n \<Longrightarrow> view (f x d) n = view d n"
    and "\<And>x d. P d \<Longrightarrow> x \<in> set xs \<Longrightarrow> key x = n \<Longrightarrow> view (f x d) n = r"
    and "P d" and "\<exists>x \<in> set xs. key x = n"
  shows "view (fold f xs d) n = r"
  using assms(3-5)
proof (induction xs arbitrary: d)
  case Nil
  then show ?case by simp
next
  case (Cons x xs)
  show ?case
  proof (cases "\<exists>y \<in> set xs. key y = n")
    case True
    have "view (fold f xs (f x d)) n = r"
      by (rule Cons.IH [OF _ assms(1) [OF Cons.prems(2)] True]) (use Cons.prems(1) in simp)
    then show ?thesis by simp
  next
    case False
    then have "key x = n" using Cons.prems(3) by simp
    have "view (fold f xs (f x d)) n = view (f x d) n"
      by (rule fold_other_keys [where P = P and f = f and view = view and key = key and n = n, OF assms(1,2)]) (use False assms(1) Cons.prems(2) in auto)
    then show ?thesis using Cons.prems(1) [OF Cons.prems(2) _ \<open>key x = n\<close>] by simp
  qed
qed

section \<open>Reload\<close>

lemma discover_instances_facts:
  assumes "reg_ok d"
  shows "reg_ok (discover_instances m re u d) \<and> dm_world (discover_instances m re u d) = dm_world d"
proof (cases "mg_list_units m (template_prefix u) (dm_world d)")
  case (Inl e)
  then show ?thesis using assms by (simp add: discover_instances_def)
next
  case (Inr ns)
  have "reg_ok (fold (\<lambda>n. register_unit m n u) xs d) \<and> dm_world (fold (\<lambda>n. register_unit m n u) xs d) = dm_world d"
    for xs by (rule fold_keeps [where P = reg_ok and w = dm_world]) (simp_all add: register_unit_facts assms)
  with Inr show ?thesis by (simp add: discover_instances_def)
qed

text \<open>The instances of a template the manager lists.\<close>

definition instances :: "('w, 'e) manager \<Rightarrow> (string \<Rightarrow> string \<Rightarrow> bool) \<Rightarrow> 'w \<Rightarrow> unit_config \<Rightarrow> string set" where
  "instances m re w u =
     (case mg_list_units m (template_prefix u) w of
        Inl e \<Rightarrow> {} | Inr names \<Rightarrow> {n \<in> set names. discovered re u n})"

lemma fold_register_supervised:
  "reg_ok d \<Longrightarrow> supervised (fold (\<lambda>n. register_unit m n u) ns d) n =
     (if n \<in> set ns then register_view n (uc_critical u) (supervised d) n else supervised d n)"
  by (induction ns arbitrary: d) (auto simp: register_unit_facts register_view_def split: option.splits)

lemma discover_instances_supervised:
  "reg_ok d \<Longrightarrow> supervised (discover_instances m re u d) n =
     (if n \<in> instances m re (dm_world d) u then register_view n (uc_critical u) (supervised d) n
      else supervised d n)"
  by (simp add: discover_instances_def instances_def fold_register_supervised split: sum.split)

text \<open>What the discovery of some templates, in turn, makes of a unit not supervised before.\<close>

definition found_by ::
  "('w, 'e) manager \<Rightarrow> (string \<Rightarrow> string \<Rightarrow> bool) \<Rightarrow> 'w \<Rightarrow> unit_config list \<Rightarrow> string \<Rightarrow> unit_config option" where
  "found_by m re w us n = List.find (\<lambda>u. n \<in> instances m re w u) us"

lemma fold_discover_supervised:
  "reg_ok d \<Longrightarrow> supervised (fold (discover_instances m re) us d) n =
     (case supervised d n of
        Some b \<Rightarrow> Some b
      | None \<Rightarrow> map_option uc_critical (found_by m re (dm_world d) us n))"
proof (induction us arbitrary: d)
  case Nil
  then show ?case by (simp add: found_by_def split: option.split)
next
  case (Cons u us)
  then show ?case
    using discover_instances_facts [OF Cons.prems, of m re u]
    by (simp add: discover_instances_supervised found_by_def register_view_def split: option.split)
qed

definition wanted :: "config \<Rightarrow> unit_config list" where
  "wanted cfg = filter (\<lambda>u. is_enabled u \<and> \<not> is_template u) (cfg_units cfg)"

lemma new_units_props:
  "gm_ok (new_units cfg)" "gm_keys (new_units cfg) = unit_name ` set (wanted cfg)"
proof -
  have "gm_ok (fold (\<lambda>u. AList.update (unit_name u) u) us acc)
      \<and> gm_keys (fold (\<lambda>u. AList.update (unit_name u) u) us acc) = gm_keys acc \<union> unit_name ` set us"
    if "gm_ok acc" for us acc
    using that by (induction us arbitrary: acc) auto
  from this [of "[]" "wanted cfg"]
  show "gm_ok (new_units cfg)" "gm_keys (new_units cfg) = unit_name ` set (wanted cfg)"
    by (simp_all add: new_units_def wanted_def)
qed

lemma new_units_map_of:
  assumes "distinct (map unit_name (cfg_units cfg))"
  shows "map_of (new_units cfg) n = List.find (\<lambda>u. unit_name u = n) (wanted cfg)"
proof -
  have *: "map_of (fold (\<lambda>u. AList.update (unit_name u) u) us acc) n =
      (case List.find (\<lambda>u. unit_name u = n) us of Some u \<Rightarrow> Some u | None \<Rightarrow> map_of acc n)"
    if "distinct (map unit_name us)" for us acc
    using that
  proof (induction us arbitrary: acc)
    case Nil
    then show ?case by simp
  next
    case (Cons u us)
    have "List.find (\<lambda>v. unit_name v = n) us = None" if "unit_name u = n"
      using Cons.prems that by (auto simp: find_None_iff image_iff)
    then show ?case using Cons by (auto split: option.splits)
  qed
  have "distinct (map unit_name (wanted cfg))" using assms by (simp add: wanted_def distinct_map_filter)
  from * [OF this, of "[]"] show ?thesis by (simp add: new_units_def wanted_def split: option.splits)
qed

lemma reload_old_facts:
  assumes "reg_ok d"
  shows "reg_ok (reload_old m re cfg n d) \<and> dm_world (reload_old m re cfg n d) = dm_world d"
  using assms by (simp add: reload_old_def update_unit_facts unregister_unit_facts split: option.split)

lemma reload_new_facts:
  assumes "reg_ok d"
  shows "reg_ok (reload_new m p d)" "dm_world (reload_new m p d) = dm_world d"
    "supervised (reload_new m p d) = (supervised d)(fst p := Some (uc_critical (snd p)))"
  using assms supervised_None [of d "fst p"]
  by (auto simp: reload_new_def update_unit_facts register_unit_facts register_view_def split: prod.split option.splits)

text \<open>
  What a reload leaves supervised: the units of the new configuration; an instance supervised before
  that a template of the new configuration matches; and what the templates' discovery finds.
\<close>

definition reload_view ::
  "('w, 'e) manager \<Rightarrow> (string \<Rightarrow> string \<Rightarrow> bool) \<Rightarrow> 'w \<Rightarrow> config \<Rightarrow> (string \<Rightarrow> bool option) \<Rightarrow> string \<Rightarrow> bool option" where
  "reload_view m re w cfg old n =
     (case map_of (new_units cfg) n of
        Some u \<Rightarrow> Some (uc_critical u)
      | None \<Rightarrow>
          (case (if old n = None then None else find_matching_template re n (templates_of cfg)) of
             Some t \<Rightarrow> Some (uc_critical t)
           | None \<Rightarrow> map_option uc_critical (found_by m re w (templates_of cfg) n)))"

lemma reload_old_loop:
  assumes ok: "reg_ok d" and new: "map_of (new_units cfg) n = None"
  shows "supervised (fold (reload_old m re cfg) (map fst (dm_registered d)) d) n =
     (if supervised d n = None then None
      else map_option uc_critical (find_matching_template re n (templates_of cfg)))"
proof -
  let ?f = "reload_old m re cfg"
  have keep: "reg_ok (?f x e)" if "reg_ok e" for x e using reload_old_facts [OF that] by blast
  have other: "supervised (?f x e) n = supervised e n" if "reg_ok e" "x \<noteq> n" for x e
    using that by (auto simp: reload_old_def update_unit_facts unregister_unit_facts split: option.split)
  have own: "supervised (?f n e) n = map_option uc_critical (find_matching_template re n (templates_of cfg))"
    if "reg_ok e" for e
    using that new by (simp add: reload_old_def update_unit_facts unregister_unit_facts split: option.split)
  show ?thesis
  proof (cases "supervised d n")
    case None
    then have "n \<notin> set (map fst (dm_registered d))"
      by (simp add: supervised_def gm_keys_def split: if_splits)
    then have "supervised (fold ?f (map fst (dm_registered d)) d) n = supervised d n"
      by (intro fold_other_keys [where P = reg_ok and key = "\<lambda>x. x" and view = supervised]) (auto simp: keep other ok)
    then show ?thesis using None by simp
  next
    case (Some b)
    then have "n \<in> set (map fst (dm_registered d))"
      by (simp add: supervised_def gm_keys_def split: if_splits)
    then have "supervised (fold ?f (map fst (dm_registered d)) d) n =
        map_option uc_critical (find_matching_template re n (templates_of cfg))"
      by (intro fold_own_key [where P = reg_ok and key = "\<lambda>x. x" and view = supervised]) (auto simp: keep other own ok)
    then show ?thesis using Some by simp
  qed
qed

lemma reload_new_loop:
  assumes ok: "reg_ok d" and ord: "set ps = set (new_units cfg)"
  shows "supervised (fold (reload_new m) ps d) n =
     (case map_of (new_units cfg) n of Some u \<Rightarrow> Some (uc_critical u) | None \<Rightarrow> supervised d n)"
proof (cases "map_of (new_units cfg) n")
  case None
  then have "\<And>p. p \<in> set ps \<Longrightarrow> fst p \<noteq> n" using ord by (auto simp: map_of_eq_None_iff)
  then have "supervised (fold (reload_new m) ps d) n = supervised d n"
    by (intro fold_other_keys [where P = reg_ok and key = fst and view = supervised]) (auto simp: reload_new_facts ok)
  with None show ?thesis by simp
next
  case (Some u)
  have uniq: "snd p = u" if "p \<in> set ps" "fst p = n" for p
  proof -
    have "(fst p, snd p) \<in> set (new_units cfg)" using that(1) ord by simp
    then have "map_of (new_units cfg) n = Some (snd p)"
      using new_units_props(1) [of cfg] that by (simp add: gm_ok_def map_of_is_SomeI)
    with Some show "snd p = u" by simp
  qed
  have "(n, u) \<in> set ps" using Some ord by (auto dest: map_of_SomeD)
  then have "\<exists>p \<in> set ps. fst p = n" by force
  then have "supervised (fold (reload_new m) ps d) n = Some (uc_critical u)"
    by (intro fold_own_key [where P = reg_ok and key = fst and view = supervised]) (auto simp: reload_new_facts ok uniq)
  with Some show ?thesis by simp
qed

lemma reload_units_supervised:
  assumes ok: "reg_ok d" and ord: "\<And>us. set (ord us) = set us"
  shows "supervised (reload_units m re ord cfg d) = reload_view m re (dm_world d) cfg (supervised d)"
    and "reg_ok (reload_units m re ord cfg d)"
proof -
  define d2 where "d2 = fold (reload_old m re cfg) (map fst (dm_registered d)) d"
  define d3 where "d3 = on_rs (DoSetDependents (build_dependents (cfg_units cfg))) d2"
  define d4 where "d4 = fold (reload_new m) (ord (new_units cfg)) d3"
  have ok2: "reg_ok d2 \<and> dm_world d2 = dm_world d"
    unfolding d2_def by (rule fold_keeps [where P = reg_ok and w = dm_world]) (simp_all add: reload_old_facts ok)
  then have ok3: "reg_ok d3" "dm_world d3 = dm_world d" and sup3: "supervised d3 = supervised d2"
    by (simp_all add: d3_def reg_ok_def supervised_def fun_eq_iff)
  have ok4: "reg_ok d4 \<and> dm_world d4 = dm_world d3"
    unfolding d4_def by (rule fold_keeps [where P = reg_ok and w = dm_world]) (simp_all add: reload_new_facts ok3)
  have eq: "reload_units m re ord cfg d = fold (discover_instances m re) (templates_of cfg) d4"
    by (simp add: reload_units_def Let_def d2_def d3_def d4_def)
  have "reg_ok (fold (discover_instances m re) us d4) \<and> dm_world (fold (discover_instances m re) us d4) = dm_world d4" for us
    by (rule fold_keeps [where P = reg_ok and w = dm_world]) (use ok4 in \<open>simp_all add: discover_instances_facts\<close>)
  then show "reg_ok (reload_units m re ord cfg d)" unfolding eq by blast
  show "supervised (reload_units m re ord cfg d) = reload_view m re (dm_world d) cfg (supervised d)"
  proof
    fix n
    have "supervised d4 n = (case map_of (new_units cfg) n of Some u \<Rightarrow> Some (uc_critical u) | None \<Rightarrow> supervised d2 n)"
      unfolding d4_def by (simp add: reload_new_loop [OF ok3(1) ord] sup3 split: option.split)
    moreover have "supervised d2 n = (if supervised d n = None then None
        else map_option uc_critical (find_matching_template re n (templates_of cfg)))"
      if "map_of (new_units cfg) n = None" unfolding d2_def by (rule reload_old_loop [OF ok that])
    ultimately show "supervised (reload_units m re ord cfg d) n = reload_view m re (dm_world d) cfg (supervised d) n"
      unfolding eq using ok4 ok3(2)
      by (simp add: fold_discover_supervised reload_view_def split: option.split)
  qed
qed

section \<open>Instances\<close>

lemma extract_instance_inverse: "extract_instance (pre @ inst @ ''.'' @ ty) pre ty = inst"
  using trim_suffix_append [of inst "CHR ''.'' # ty"] by (simp add: extract_instance_def)

section \<open>Start-up\<close>

definition supervises :: "('w, 'e) manager \<Rightarrow> (string \<Rightarrow> string \<Rightarrow> bool) \<Rightarrow> 'w \<Rightarrow> unit_config \<Rightarrow> string \<Rightarrow> bool" where
  "supervises m re w u n \<longleftrightarrow>
     is_enabled u \<and> (if is_template u then n \<in> instances m re w u else n = unit_name u)"

lemma start_unit_facts:
  assumes "reg_ok d"
  shows "reg_ok (start_unit m re u d)" "dm_world (start_unit m re u d) = dm_world d"
    "supervised (start_unit m re u d) n =
       (if supervises m re (dm_world d) u n then register_view n (uc_critical u) (supervised d) n else supervised d n)"
  using assms discover_instances_facts [OF assms, of m re u]
  by (auto simp: start_unit_def supervises_def register_unit_facts discover_instances_supervised register_view_def)

lemma start_units_supervised:
  assumes "reg_ok d"
  shows "reg_ok (fold (start_unit m re) us d) \<and> dm_world (fold (start_unit m re) us d) = dm_world d
    \<and> supervised (fold (start_unit m re) us d) n =
       (case supervised d n of
          Some b \<Rightarrow> Some b
        | None \<Rightarrow> map_option uc_critical (List.find (\<lambda>u. supervises m re (dm_world d) u n) us))"
  using assms
proof (induction us arbitrary: d)
  case Nil
  then show ?case by (simp split: option.split)
next
  case (Cons u us)
  from Cons.IH [OF start_unit_facts(1) [OF Cons.prems, of m re u]] show ?case
    by (simp add: start_unit_facts Cons.prems register_view_def split: option.split)
qed

lemma start_loops_frame [simp]:
  "dm_registered (start_loops d) = dm_registered d" "dm_critical (start_loops d) = dm_critical d"
  "dm_cancels (start_loops d) = dm_cancels d" "dm_world (start_loops d) = dm_world d"
  "dm_rs (start_loops d) = dm_rs d"
  by (simp_all add: start_loops_def Let_def)

lemma reload_loops_frame [simp]:
  "dm_registered (reload_loops d) = dm_registered d" "dm_critical (reload_loops d) = dm_critical d"
  "dm_cancels (reload_loops d) = dm_cancels d" "dm_world (reload_loops d) = dm_world d"
  "dm_rs (reload_loops d) = dm_rs d"
  by (simp_all add: reload_loops_def Let_def)

lemma sd_message_frame [simp]:
  "dm_registered (sd_message t d) = dm_registered d" "dm_critical (sd_message t d) = dm_critical d"
  "dm_cancels (sd_message t d) = dm_cancels d" "dm_world (sd_message t d) = dm_world d"
  "dm_rs (sd_message t d) = dm_rs d"
  by (simp_all add: sd_message_def)

lemma reg_ok_frame [simp]:
  "reg_ok (sd_message t d) = reg_ok d" "reg_ok (start_loops d) = reg_ok d" "reg_ok (reload_loops d) = reg_ok d"
  "reg_ok (d\<lparr>dm_cfg := cfg\<rparr>) = reg_ok d" "reg_ok (d\<lparr>dm_log_level := lvl, dm_notifier := nt\<rparr>) = reg_ok d"
  by (simp_all add: reg_ok_def)

lemma supervised_frame [simp]:
  "supervised (sd_message t d) = supervised d" "supervised (start_loops d) = supervised d"
  "supervised (reload_loops d) = supervised d" "supervised (d\<lparr>dm_cfg := cfg\<rparr>) = supervised d"
  "supervised (d\<lparr>dm_log_level := lvl, dm_notifier := nt\<rparr>) = supervised d"
  by (simp_all add: supervised_def fun_eq_iff)

lemma start_supervised:
  assumes "daemon_start real dry re env environ now (Inr cfg) w = Inr d"
  shows "reg_ok d" "dm_world d = w"
    "supervised d n = map_option uc_critical
       (List.find (\<lambda>u. supervises (if dry then dry_run_manager real else real) re w u n) (cfg_units cfg))"
proof -
  let ?m = "if dry then dry_run_manager real else real"
  let ?d0 = "daemon_new environ now w cfg"
  define d1 where "d1 = fold (start_unit ?m re) (cfg_units cfg) ?d0"
  have d: "d = sd_message ''READY=1'' (start_loops d1)"
    using assms by (auto simp: daemon_start_def wire_manager Let_def bind_err_def d1_def split: sum.splits)
  have ok0: "reg_ok ?d0" and new: "supervised ?d0 n = None" "dm_world ?d0 = w" for n
    by (simp_all add: reg_ok_def supervised_def daemon_new_def)
  note start = start_units_supervised [OF ok0, of ?m re "cfg_units cfg", folded d1_def]
  show "reg_ok d" using start by (simp add: d)
  show "dm_world d = w" using start new by (simp add: d)
  show "supervised d n = map_option uc_critical (List.find (\<lambda>u. supervises ?m re w u n) (cfg_units cfg))"
    using start [of n] new by (simp add: d)
qed

lemma reload_supervised:
  assumes "reg_ok d" and "\<And>us. set (ord us) = set us"
  shows "supervised (reload m re ord (Inr cfg) d) = reload_view m re (dm_world d) cfg (supervised d)"
    and "reg_ok (reload m re ord (Inr cfg) d)"
proof -
  define d1 where "d1 = (sd_message ''RELOADING=1'' d)\<lparr>dm_log_level := setup_logging (cfg_log_level cfg),
      dm_notifier := update_config (cfg_notify cfg) (dm_notifier (sd_message ''RELOADING=1'' d))\<rparr>"
  have ok1: "reg_ok d1" using assms(1) by (simp add: d1_def)
  have sup1: "supervised d1 = supervised d" "dm_world d1 = dm_world d"
    by (simp_all add: d1_def)
  have eq: "reload m re ord (Inr cfg) d =
      sd_message ''READY=1'' (reload_loops ((reload_units m re ord cfg d1)\<lparr>dm_cfg := cfg\<rparr>))"
    by (simp add: reload_def Let_def d1_def)
  note r = reload_units_supervised [OF ok1 assms(2), of m re cfg]
  show "supervised (reload m re ord (Inr cfg) d) = reload_view m re (dm_world d) cfg (supervised d)"
    unfolding eq using r(1) by (simp add: sup1)
  show "reg_ok (reload m re ord (Inr cfg) d)"
    unfolding eq using r(2) by simp
qed

section \<open>Properties\<close>

lemma find_exists: "List.find P xs \<noteq> None \<longleftrightarrow> (\<exists>x \<in> set xs. P x)"
  by (auto simp: find_None_iff)

definition matches_template :: "(string \<Rightarrow> string \<Rightarrow> bool) \<Rightarrow> unit_config \<Rightarrow> string \<Rightarrow> bool" where
  "matches_template re t n \<longleftrightarrow>
     has_prefix n (template_prefix t) \<and> has_suffix n (''.'' @ uc_type t) \<and>
     match_instance re t (extract_instance n (template_prefix t) (uc_type t))"

text \<open>The supervised units after a reload, as a set.\<close>

lemma reload_supervises_configuration_iff:
  assumes "reg_ok d" and "\<And>us. set (ord us) = set us" and "distinct (map unit_name (cfg_units cfg))"
  shows "supervised (reload m re ord (Inr cfg) d) n \<noteq> None \<longleftrightarrow>
      (\<exists>u \<in> set (cfg_units cfg). is_enabled u \<and>
         (if is_template u then n \<in> instances m re (dm_world d) u \<or> supervised d n \<noteq> None \<and> matches_template re u n
          else unit_name u = n))"
proof -
  have conf: "map_of (new_units cfg) n \<noteq> None \<longleftrightarrow>
      (\<exists>u \<in> set (cfg_units cfg). is_enabled u \<and> \<not> is_template u \<and> unit_name u = n)" for n
    using find_exists [of "\<lambda>u. unit_name u = n" "wanted cfg"]
    by (auto simp: new_units_map_of [OF assms(3)] wanted_def)
  have tmpl: "find_matching_template re n (templates_of cfg) \<noteq> None \<longleftrightarrow>
      (\<exists>u \<in> set (cfg_units cfg). is_enabled u \<and> is_template u \<and> matches_template re u n)"
    unfolding find_matching_template_def find_exists by (auto simp: templates_of_def matches_template_def)
  have found: "found_by m re (dm_world d) (templates_of cfg) n \<noteq> None \<longleftrightarrow>
      (\<exists>u \<in> set (cfg_units cfg). is_enabled u \<and> is_template u \<and> n \<in> instances m re (dm_world d) u)"
    unfolding found_by_def find_exists by (auto simp: templates_of_def)
  have "reload_view m re (dm_world d) cfg (supervised d) n \<noteq> None \<longleftrightarrow>
      map_of (new_units cfg) n \<noteq> None
      \<or> supervised d n \<noteq> None \<and> find_matching_template re n (templates_of cfg) \<noteq> None
      \<or> found_by m re (dm_world d) (templates_of cfg) n \<noteq> None"
    by (auto simp: reload_view_def split: option.splits if_splits)
  then show "supervised (reload m re ord (Inr cfg) d) n \<noteq> None \<longleftrightarrow>
      (\<exists>u \<in> set (cfg_units cfg). is_enabled u \<and>
         (if is_template u then n \<in> instances m re (dm_world d) u \<or> supervised d n \<noteq> None \<and> matches_template re u n
          else unit_name u = n))"
    unfolding reload_supervised(1) [OF assms(1,2)] conf tmpl found by (simp only: if_bool_eq_disj) blast
qed

lemma reload_supervises_configuration_parts:
  assumes "reg_ok d" and "\<And>us. set (ord us) = set us" and "distinct (map unit_name (cfg_units cfg))"
  shows "supervised (reload m re ord (Inr cfg) d) n \<noteq> None \<longleftrightarrow>
      (\<exists>u \<in> set (cfg_units cfg). is_enabled u \<and>
         (if is_template u then n \<in> instances m re (dm_world d) u \<or> supervised d n \<noteq> None \<and> matches_template re u n
          else unit_name u = n))"
    and "u \<in> set (cfg_units cfg) \<Longrightarrow> is_enabled u \<Longrightarrow> \<not> is_template u \<Longrightarrow>
      supervised (reload m re ord (Inr cfg) d) (unit_name u) = Some (uc_critical u)"
    and "supervised (reload m re ord (Inl err) d) = supervised d"
proof -
  have conf: "map_of (new_units cfg) n \<noteq> None \<longleftrightarrow>
      (\<exists>u \<in> set (cfg_units cfg). is_enabled u \<and> \<not> is_template u \<and> unit_name u = n)" for n
    using find_exists [of "\<lambda>u. unit_name u = n" "wanted cfg"]
    by (auto simp: new_units_map_of [OF assms(3)] wanted_def)
  show "supervised (reload m re ord (Inr cfg) d) n \<noteq> None \<longleftrightarrow>
      (\<exists>u \<in> set (cfg_units cfg). is_enabled u \<and>
         (if is_template u then n \<in> instances m re (dm_world d) u \<or> supervised d n \<noteq> None \<and> matches_template re u n
          else unit_name u = n))"
    by (rule reload_supervises_configuration_iff [OF assms])
  show "supervised (reload m re ord (Inr cfg) d) (unit_name u) = Some (uc_critical u)"
    if "u \<in> set (cfg_units cfg)" "is_enabled u" "\<not> is_template u"
  proof -
    from that obtain v where v: "map_of (new_units cfg) (unit_name u) = Some v"
      using conf [of "unit_name u"] by auto
    then have "v \<in> set (wanted cfg) \<and> unit_name v = unit_name u"
      by (auto simp: new_units_map_of [OF assms(3)] List.find_Some_iff wanted_def [symmetric])
    then have "v = u"
      using that assms(3) by (auto simp: wanted_def distinct_map dest: inj_onD)
    with v show ?thesis by (simp add: reload_supervised(1) [OF assms(1,2)] reload_view_def)
  qed
  show "supervised (reload m re ord (Inl err) d) = supervised d"
    by (simp add: reload_def)
qed

text \<open>C7. After a reload exactly the right units are supervised: the enabled units of the new
  configuration, the units supervised before that match one of its enabled templates, and the
  instances of those templates the manager lists now; each unit named in the configuration is
  critical exactly when its entry says so. A configuration that does not load changes neither.\<close>

theorem reload_supervises_configuration:
  assumes "reg_ok d" and "\<And>us. set (ord us) = set us" and "distinct (map unit_name (cfg_units cfg))"
  shows "(\<forall>n. supervised (reload m re ord (Inr cfg) d) n \<noteq> None \<longleftrightarrow>
      (\<exists>u \<in> set (cfg_units cfg). is_enabled u \<and>
         (if is_template u then n \<in> instances m re (dm_world d) u \<or> supervised d n \<noteq> None \<and> matches_template re u n
          else unit_name u = n)))
    \<and> (\<forall>u \<in> set (cfg_units cfg). is_enabled u \<longrightarrow> \<not> is_template u \<longrightarrow>
      supervised (reload m re ord (Inr cfg) d) (unit_name u) = Some (uc_critical u))
    \<and> supervised (reload m re ord (Inl err) d) = supervised d"
  using reload_supervises_configuration_parts [OF assms] by (intro conjI allI ballI impI)

text \<open>A small system: two services in the configuration, a template, and a manager that lists instances.\<close>

definition config_of :: "unit_config list \<Rightarrow> config" where
  "config_of us =
     \<lparr>cfg_log_level = ''info'', cfg_units = us,
      cfg_notify = \<lparr>nc_variables = [], nc_webhooks = [], nc_scripts = [], nc_execs = []\<rparr>,
      cfg_socket = ''/run/s'', cfg_discovery_interval = 30 * second,
      cfg_http = \<lparr>ht_listen = [], ht_read_timeout = 0, ht_write_timeout = 0, ht_shutdown_timeout = 0\<rparr>,
      cfg_socket_activation = []\<rparr>"

definition sample_units :: "unit_config list" where
  "sample_units =
     [(plain_unit ''web'' ''service'' [''db''])\<lparr>uc_critical := True\<rparr>,
      (plain_unit ''db'' ''service'' [])\<lparr>uc_enabled := Some False\<rparr>,
      plain_unit ''worker@'' ''service'' []]"

definition sample_manager :: "(unit, string) manager" where
  "sample_manager =
     \<lparr>mg_start = (\<lambda>u w. (None, w)), mg_stop = (\<lambda>u w. (None, w)), mg_restart = (\<lambda>u w. (None, w)),
      mg_unit_state = (\<lambda>u w. Inl ''no bus''), mg_last_trigger = (\<lambda>u w. Inl ''no bus''),
      mg_list_units = (\<lambda>p w. Inr [p @ ''a.service'', p @ ''b.timer''])\<rparr>"

definition sample_daemon :: "unit daemon" where
  "sample_daemon = (daemon_new [] 0 () (config_of []))
     \<lparr>dm_registered := [(''worker@old.service'', ()), (''gone.service'', ())],
      dm_cancels := [(''worker@old.service'', 0), (''gone.service'', 1)], dm_ctxs := [False, False]\<rparr>"

lemma sample_daemon_ok: "reg_ok sample_daemon"
  by (simp add: sample_daemon_def reg_ok_def daemon_new_def gm_ok_def gm_keys_def)

lemmas sample_defs =
  sample_units_def plain_unit_def is_template_def after_at_def is_enabled_def unit_name_def template_prefix_def
  instances_def discovered_def match_instance_def matches_template_def has_suffix_def has_prefix_def

theorem reload_supervises_configuration_witness:
  "let d' = reload sample_manager (\<lambda>re s. True) rev (Inr (config_of sample_units)) sample_daemon in
     supervised d' ''web.service'' = Some True \<and> supervised d' ''db.service'' = None
     \<and> supervised d' ''gone.service'' = None \<and> supervised d' ''worker@old.service'' \<noteq> None
     \<and> supervised d' ''worker@a.service'' \<noteq> None \<and> supervised d' ''worker@b.timer'' = None"
proof -
  let ?d = "reload sample_manager (\<lambda>re s. True) rev (Inr (config_of sample_units)) sample_daemon"
  have names: "distinct (map unit_name (cfg_units (config_of sample_units)))"
    by (simp add: config_of_def sample_defs)
  note all = reload_supervises_configuration [where m = sample_manager and re = "\<lambda>re s. True",
      OF sample_daemon_ok set_rev names]
  note r = all [THEN conjunct1, rule_format] all [THEN conjunct2, THEN conjunct1, rule_format]
  note eval = config_of_def sample_defs sample_manager_def sample_daemon_def daemon_new_def supervised_def gm_keys_def
  have web: "supervised ?d ''web.service'' = Some True"
    using r(2) [of "hd sample_units"] by (simp add: config_of_def sample_defs)
  have "supervised ?d ''worker@old.service'' \<noteq> None" unfolding r(1) by (simp add: eval)
  moreover have "supervised ?d ''worker@a.service'' \<noteq> None" unfolding r(1) by (simp add: eval)
  moreover have "\<not> supervised ?d ''db.service'' \<noteq> None" unfolding r(1) by (simp add: eval)
  moreover have "\<not> supervised ?d ''gone.service'' \<noteq> None" unfolding r(1) by (simp add: eval)
  moreover have "\<not> supervised ?d ''worker@b.timer'' \<noteq> None" unfolding r(1) by (simp add: eval)
  ultimately show ?thesis using web by simp
qed

text \<open>C28. Reloading the configuration the daemon was started with supervises the same units: with the
  same units listed by the manager, neither start-up's order by priority nor reload's passes lose or
  add any.\<close>

theorem reload_after_start_same_units:
  assumes "daemon_start real dry re env environ now (Inr cfg) w = Inr d"
    and "\<And>us. set (ord us) = set us" and "distinct (map unit_name (cfg_units cfg))"
  shows "dom (supervised (reload (if dry then dry_run_manager real else real) re ord (Inr cfg) d)) = dom (supervised d)"
proof -
  let ?m = "if dry then dry_run_manager real else real"
  note start = start_supervised [OF assms(1)]
  have old: "supervised d n \<noteq> None \<longleftrightarrow> (\<exists>u \<in> set (cfg_units cfg). supervises ?m re w u n)" for n
    unfolding start(3) using find_exists [of "\<lambda>u. supervises ?m re w u n" "cfg_units cfg"] by simp
  have "supervised (reload ?m re ord (Inr cfg) d) n \<noteq> None \<longleftrightarrow> supervised d n \<noteq> None" for n
    unfolding reload_supervises_configuration_iff [OF start(1) assms(2,3)] start(2)
    using old [of n] by (auto simp: supervises_def split: if_splits)
  then show ?thesis by (auto simp: dom_def)
qed

definition open_listeners :: "string listen_env" where
  "open_listeners = \<lparr>le_socket = (\<lambda>p. None), le_http = (\<lambda>a. None), le_activation = (\<lambda>s. None)\<rparr>"

definition started_daemon :: "unit daemon" where
  "started_daemon =
     sd_message ''READY=1'' (start_loops (fold (start_unit sample_manager (\<lambda>re s. True)) sample_units
       (daemon_new [] 0 () (config_of sample_units))))"

lemma sample_start:
  "daemon_start sample_manager False (\<lambda>re s. True) open_listeners [] 0 (Inr (config_of sample_units)) ()
     = Inr started_daemon"
  by (simp add: daemon_start_def wire_manager start_listeners_def open_listeners_def started_daemon_def config_of_def http_enabled_def)

theorem reload_after_start_same_units_witness:
  "dom (supervised (reload sample_manager (\<lambda>re s. True) rev (Inr (config_of sample_units)) started_daemon))
     = dom (supervised started_daemon)"
  using reload_after_start_same_units [OF sample_start set_rev] by (simp add: config_of_def sample_defs)

text \<open>A discovered instance is checked as itself: registering \<^verbatim>\<open>name@instance.type\<close> for its template
  recovers the instance from the name and starts, under the unit's fresh context, one watch and one
  checker whose checks are the template's with the instance substituted.\<close>

theorem discovered_instance_checked_as_itself:
  assumes "is_template u" and "uc_health_checks u \<noteq> []"
    and "n = template_prefix u @ inst @ ''.'' @ uc_type u" and "map_of (dm_registered d) n = None"
  shows "dm_tasks (register_unit m n u d) =
      dm_tasks d @ [Watching n (length (dm_ctxs d)),
        Checking n (map (resolve_health_check inst) (uc_health_checks u)) (uc_grace_period u) (length (dm_ctxs d))]"
    and "dm_ctxs (register_unit m n u d) = dm_ctxs d @ [False]"
proof -
  have inst: "extract_instance n (template_prefix u) (uc_type u) = inst"
    unfolding assms(3) by (rule extract_instance_inverse)
  have init: "dm_tasks (exec_call m (InitState n) e) = dm_tasks e" "dm_ctxs (exec_call m (InitState n) e) = dm_ctxs e" for e
    by (simp_all split: sum.split)
  show "dm_tasks (register_unit m n u d) =
      dm_tasks d @ [Watching n (length (dm_ctxs d)),
        Checking n (map (resolve_health_check inst) (uc_health_checks u)) (uc_grace_period u) (length (dm_ctxs d))]"
    using assms(1,2,4)
    by (simp add: register_unit_def run_calls_def register_enter_def register_calls_def checks_for_def inst
        resolve_health_checks_def Let_def init del: exec_call.simps(3) split: option.split)
  show "dm_ctxs (register_unit m n u d) = dm_ctxs d @ [False]"
    using assms(4)
    by (simp add: register_unit_def run_calls_def register_enter_def register_calls_def Let_def init
        del: exec_call.simps(3) split: option.split)
qed

theorem discovered_instance_checked_as_itself_witness:
  "let u = (plain_unit ''worker@'' ''service'' [])\<lparr>uc_health_checks :=
          [\<lparr>hc_type = ''tcp'', hc_interval = second, hc_timeout = second, hc_retries = 1,
             hc_tcp = Some \<lparr>tcp_address = ''{{instance}}:80''\<rparr>, hc_http = None, hc_unix = None, hc_script = None\<rparr>]\<rparr> in
   length (dm_tasks (register_unit sample_manager ''worker@a.service'' u sample_daemon)) = 2"
  unfolding Let_def
  by (subst discovered_instance_checked_as_itself(1) [where inst = "''a''"])
    (simp_all add: sample_defs sample_daemon_def daemon_new_def)

end
