(* ===== verification/DaemonCascade.thy ===== *)
theory DaemonCascade
  imports DaemonReload
begin

text \<open>
  The dependents the daemon gives the restarter (\<^verbatim>\<open>buildDependents\<close>): what a cascade restarts, from the
  configuration, and where that is not what the configuration means; and what a restart goroutine then
  does to the system.
\<close>

section \<open>Dependents\<close>

text \<open>The units that depend on \<open>k\<close>, once per entry of their \<^verbatim>\<open>depends_on\<close>, in configuration order.\<close>

definition dependents_of :: "unit_config list \<Rightarrow> string \<Rightarrow> string list" where
  "dependents_of units k =
     concat (map (\<lambda>u. map (\<lambda>dep. unit_name u) (filter (\<lambda>dep. dep_unit u dep = k) (uc_depends_on u))) units)"

definition listed :: "string list gomap \<Rightarrow> string \<Rightarrow> string list" where
  "listed m k = (case map_of m k of None \<Rightarrow> [] | Some vs \<Rightarrow> vs)"

lemma listed_append_to: "listed (append_to k v m) k' = (if k' = k then listed m k @ [v] else listed m k')"
  by (simp add: listed_def append_to_def)

lemma listed_deps:
  "listed (fold (\<lambda>dep. append_to (dep_unit u dep) (unit_name u)) deps m) k
     = listed m k @ map (\<lambda>dep. unit_name u) (filter (\<lambda>dep. dep_unit u dep = k) deps)"
  by (induction deps arbitrary: m) (simp_all add: listed_append_to)

lemma listed_units:
  "listed (fold (\<lambda>u. fold (\<lambda>dep. append_to (dep_unit u dep) (unit_name u)) (uc_depends_on u)) units m) k
     = listed m k @ dependents_of units k"
  by (induction units arbitrary: m) (simp_all add: listed_deps dependents_of_def)

lemma read_build_dependents:
  "read_dependents k (set_dependents (build_dependents units) r) = dependents_of units k"
  using listed_units [of units "[]" k]
  by (simp add: read_dependents_def set_dependents_def build_dependents_def listed_def)

lemma dependents_of_iff:
  "v \<in> set (dependents_of units k) \<longleftrightarrow>
     (\<exists>u \<in> set units. unit_name u = v \<and> (\<exists>dep \<in> set (uc_depends_on u). dep_unit u dep = k))"
  by (auto simp: dependents_of_def)

section \<open>Frame\<close>

definition dm_dependents :: "'w daemon \<Rightarrow> string list gomap" where
  "dm_dependents d = rr_dependents (rs_restarter (dm_rs d))"

lemma handle_event_dependents [simp]: "rr_dependents (rs_restarter (handle_event ev s)) = rr_dependents (rs_restarter s)"
  by (simp add: handle_event_def should_restart_def reset_tracker_def Let_def
      split: option.split event_type.split if_splits)

lemma on_rs_dependents [simp]:
  "dm_dependents (on_rs (Deliver ev) d) = dm_dependents d"
  "dm_dependents (on_rs (DoRegister u pol) d) = dm_dependents d"
  "dm_dependents (on_rs (DoUnregister u) d) = dm_dependents d"
  "dm_dependents (on_rs (DoSetDependents m) d) = m"
  by (simp_all add: dm_dependents_def on_rs_def rr_register_def rr_unregister_def set_dependents_def)

lemma dispatch_dependents [simp]: "dm_dependents (dispatch evs d) = dm_dependents d"
  by (induction evs d rule: dispatch.induct) (simp_all add: dm_dependents_def [of "_\<lparr>dm_deliveries := _\<rparr>"]
      dm_dependents_def [symmetric])

lemma with_sm_dependents [simp]: "dm_dependents (with_sm sm d) = dm_dependents d"
  by (simp add: dm_dependents_def with_sm_def)

lemma exec_call_dependents [simp]: "dm_dependents (exec_call m c d) = dm_dependents d"
  by (cases c; simp add: state_changed_def split: sum.split prod.split)
    (simp_all add: dm_dependents_def)

lemma run_calls_dependents [simp]: "dm_dependents (run_calls m p) = dm_dependents (snd p)"
proof -
  have "dm_dependents (fold (exec_call m) cs d) = dm_dependents d" for cs d
    by (induction cs arbitrary: d) simp_all
  then show ?thesis by (simp add: run_calls_def)
qed

lemma enter_dependents [simp]:
  "dm_dependents (snd (register_enter n u d)) = dm_dependents d"
  "dm_dependents (snd (unregister_enter n d)) = dm_dependents d"
  by (simp_all add: register_enter_def unregister_enter_def Let_def dm_dependents_def split: option.split)

lemma unit_ops_dependents [simp]:
  "dm_dependents (register_unit m n u d) = dm_dependents d"
  "dm_dependents (unregister_unit m n d) = dm_dependents d"
  "dm_dependents (update_unit m n u d) = dm_dependents d"
  by (simp_all add: register_unit_def unregister_unit_def update_unit_def)

lemma fold_dependents: "(\<And>x d. dm_dependents (f x d) = dm_dependents d) \<Longrightarrow> dm_dependents (fold f xs d) = dm_dependents d"
  by (induction xs arbitrary: d) simp_all

lemma discover_dependents [simp]: "dm_dependents (discover_instances m re u d) = dm_dependents d"
  by (simp add: discover_instances_def fold_dependents split: sum.split)

lemma reload_passes_dependents [simp]:
  "dm_dependents (reload_old m re cfg n d) = dm_dependents d"
  "dm_dependents (reload_new m p d) = dm_dependents d"
  by (simp_all add: reload_old_def reload_new_def split: option.split prod.split)

lemma start_unit_dependents [simp]: "dm_dependents (start_unit m re u d) = dm_dependents d"
  by (simp add: start_unit_def)

lemma reload_dependents:
  "dm_dependents (reload m re ord (Inr cfg) d) = build_dependents (cfg_units cfg)"
proof -
  have "dm_dependents (reload_units m re ord cfg e) = build_dependents (cfg_units cfg)" for e
    by (simp add: reload_units_def Let_def fold_dependents)
  then show ?thesis
    by (simp add: reload_def Let_def dm_dependents_def)
qed

lemma frame_dependents [simp]:
  "dm_dependents (sd_message t d) = dm_dependents d" "dm_dependents (start_loops d) = dm_dependents d"
  "dm_dependents (daemon_new environ now w cfg) = build_dependents (cfg_units cfg)"
  by (simp_all add: dm_dependents_def) (simp add: daemon_new_def set_dependents_def)

lemma start_dependents:
  assumes "daemon_start real dry re env environ now (Inr cfg) w = Inr d"
  shows "dm_dependents d = build_dependents (cfg_units cfg)"
  using assms by (auto simp: daemon_start_def Let_def bind_err_def fold_dependents split: sum.splits)

section \<open>Properties\<close>

definition cascade :: "'w daemon \<Rightarrow> string \<Rightarrow> string list" where
  "cascade d k = read_dependents k (rs_restarter (dm_rs d))"

lemma cascade_eq: "dm_dependents d = build_dependents units \<Longrightarrow> cascade d k = dependents_of units k"
  using listed_units [of units "[]" k]
  by (simp add: cascade_def read_dependents_def dm_dependents_def build_dependents_def listed_def)

lemma cascade_follows_configuration_parts:
  assumes "daemon_start real dry re env environ now (Inr cfg) w = Inr d"
  shows "cascade d k = dependents_of (cfg_units cfg) k"
    and "cascade (reload m re' ord (Inr cfg') d') k = dependents_of (cfg_units cfg') k"
    and "v \<in> set (dependents_of (cfg_units cfg) k) \<longleftrightarrow>
      (\<exists>u \<in> set (cfg_units cfg). unit_name u = v \<and>
         (\<exists>dep \<in> set (uc_depends_on u). k = (if is_qualified_dep dep then dep else dep @ ''.'' @ uc_type u)))"
  by (simp_all add: cascade_eq [OF start_dependents [OF assms]] cascade_eq [OF reload_dependents] dependents_of_iff
      dep_unit_def is_qualified_dep_def eq_commute [of k])

text \<open>C29. What a restart cascades to is the configuration's \<^verbatim>\<open>depends_on\<close>: after start-up and after every
  reload, the restarter holds for a unit exactly the units with an entry naming it, in configuration
  order, a name without a type standing for the unit of the dependent's own type.\<close>

theorem cascade_follows_configuration:
  assumes "daemon_start real dry re env environ now (Inr cfg) w = Inr d"
  shows "cascade d k = dependents_of (cfg_units cfg) k
    \<and> cascade (reload m re' ord (Inr cfg') d') k = dependents_of (cfg_units cfg') k
    \<and> (v \<in> set (dependents_of (cfg_units cfg) k) \<longleftrightarrow>
      (\<exists>u \<in> set (cfg_units cfg). unit_name u = v \<and>
         (\<exists>dep \<in> set (uc_depends_on u). k = (if is_qualified_dep dep then dep else dep @ ''.'' @ uc_type u))))"
  by (intro conjI cascade_follows_configuration_parts [OF assms])

theorem cascade_follows_configuration_witness:
  "cascade started_daemon ''db.service'' = [''web.service'']"
  unfolding cascade_follows_configuration [OF sample_start, THEN conjunct1]
  by (simp add: config_of_def sample_units_def plain_unit_def dependents_of_def dep_unit_def unit_name_def has_suffix_def)

text \<open>A unit that is not enabled, hence not supervised, is restarted with its dependency all the same.\<close>

lemma disabled_unit_cascaded:
  "let units = [plain_unit ''db'' ''service'' [], (plain_unit ''old'' ''service'' [''db''])\<lparr>uc_enabled := Some False\<rparr>];
       d = reload sample_manager (\<lambda>re s. True) id (Inr (config_of units)) sample_daemon in
   cascade d ''db.service'' = [''old.service''] \<and> supervised d ''old.service'' = None"
proof -
  let ?units = "[plain_unit ''db'' ''service'' [], (plain_unit ''old'' ''service'' [''db''])\<lparr>uc_enabled := Some False\<rparr>]"
  let ?d = "reload sample_manager (\<lambda>re s. True) id (Inr (config_of ?units)) sample_daemon"
  have "cascade ?d ''db.service'' = [''old.service'']"
    unfolding cascade_eq [OF reload_dependents]
    by (simp add: config_of_def plain_unit_def dependents_of_def dep_unit_def unit_name_def has_suffix_def)
  moreover have "\<not> supervised ?d ''old.service'' \<noteq> None"
    by (subst reload_supervises_configuration_iff [OF sample_daemon_ok])
      (simp_all add: config_of_def sample_defs)
  ultimately show ?thesis by simp
qed

text \<open>A dependency named without its type is validated by name alone, whatever the type of the unit that
  bears it; the cascade looks it up under the dependent's type, and a restart of the service does not
  reach the timer that depends on it.\<close>

lemma bare_dependency_of_other_type_not_cascaded:
  "let units = [plain_unit ''db'' ''service'' [], plain_unit ''backup'' ''timer'' [''db'']] in
   validate_dependencies units = Inr () \<and> dependents_of units ''db.service'' = []"
proof -
  let ?units = "[plain_unit ''db'' ''service'' [], plain_unit ''backup'' ''timer'' [''db'']]"
  have "dependents_of ?units ''db.service'' = []"
    by (simp add: plain_unit_def dependents_of_def dep_unit_def has_suffix_def)
  moreover have "validate_dependencies ?units = Inr ()" by code_simp
  ultimately show ?thesis by simp
qed

section \<open>A restart, on the system\<close>

text \<open>The dependents still to be restarted, one manager call each.\<close>

lemma job_step_dependents:
  assumes "i < length (rs_jobs (dm_rs d))" "rs_jobs (dm_rs d) ! i = JDependents u ds"
  shows "(job_step m i ^^ Suc (length ds)) d =
    d\<lparr>dm_world := fold (\<lambda>v w. snd (mg_restart m v w)) ds (dm_world d),
      dm_rs := (dm_rs d)\<lparr>rs_jobs := (rs_jobs (dm_rs d))[i := JDone],
        rs_log := rev (map (\<lambda>v. OCascade (rs_now (dm_rs d)) u v i) ds) @ rs_log (dm_rs d)\<rparr>\<rparr>"
  using assms
proof (induction ds arbitrary: d)
  case Nil
  then show ?case by (simp add: job_step_def on_rs_def run_job_def)
next
  case (Cons v ds)
  let ?d = "d\<lparr>dm_world := snd (mg_restart m v (dm_world d)),
    dm_rs := (dm_rs d)\<lparr>rs_jobs := (rs_jobs (dm_rs d))[i := JDependents u ds],
      rs_log := OCascade (rs_now (dm_rs d)) u v i # rs_log (dm_rs d)\<rparr>\<rparr>"
  have step: "job_step m i d = ?d"
    using Cons.prems by (simp add: job_step_def on_rs_def run_job_def case_prod_unfold)
  have "(job_step m i ^^ Suc (length (v # ds))) d = (job_step m i ^^ Suc (length ds)) (job_step m i d)"
    by (simp only: list.size(4) add_Suc_right add_0_right funpow_Suc_right comp_apply)
  also have "\<dots> = (job_step m i ^^ Suc (length ds)) ?d" by (simp only: step)
  also have "\<dots> = ?d\<lparr>dm_world := fold (\<lambda>v w. snd (mg_restart m v w)) ds (dm_world ?d),
      dm_rs := (dm_rs ?d)\<lparr>rs_jobs := (rs_jobs (dm_rs ?d))[i := JDone],
        rs_log := rev (map (\<lambda>v. OCascade (rs_now (dm_rs ?d)) u v i) ds) @ rs_log (dm_rs ?d)\<rparr>\<rparr>"
    using Cons.prems by (intro Cons.IH) simp_all
  finally show ?case by simp
qed

text \<open>C40. What a due restart does to the system. A restart goroutine asks the manager to restart its unit.
  If the manager refuses, nothing more is asked for: the tracker the goroutine holds enters its
  cooldown and the goroutine ends. If the manager agrees, the goroutine asks it to restart each of the
  dependents the restarter holds for the unit, once per entry and in order, whatever the answers, and
  ends. Nothing else of the daemon changes: no tracker, no attempt, no status of a dependent.\<close>

theorem due_restart_acts_on_system:
  assumes "i < length (rs_jobs (dm_rs d))" "rs_jobs (dm_rs d) ! i = JRestarting u p"
    and "mg_restart m u (dm_world d) = (answer, w)"
  shows "case answer of
      Some e \<Rightarrow> job_step m i d =
        d\<lparr>dm_world := w,
          dm_rs := (dm_rs d)\<lparr>rs_restarter := enter_cooldown (rs_now (dm_rs d)) p (rs_restarter (dm_rs d)),
            rs_jobs := (rs_jobs (dm_rs d))[i := JDone],
            rs_log := OFailed (rs_now (dm_rs d)) u p i # rs_log (dm_rs d)\<rparr>\<rparr>
    | None \<Rightarrow> (job_step m i ^^ (length (cascade d u) + 3)) d =
        d\<lparr>dm_world := fold (\<lambda>v w. snd (mg_restart m v w)) (cascade d u) w,
          dm_rs := (dm_rs d)\<lparr>rs_jobs := (rs_jobs (dm_rs d))[i := JDone],
            rs_log := rev (map (\<lambda>v. OCascade (rs_now (dm_rs d)) u v i) (cascade d u)) @ rs_log (dm_rs d)\<rparr>\<rparr>"
proof (cases answer)
  case (Some e)
  then show ?thesis using assms by (simp add: job_step_def on_rs_def run_job_def)
next
  case None
  let ?j = "\<lambda>j. d\<lparr>dm_world := w, dm_rs := (dm_rs d)\<lparr>rs_jobs := (rs_jobs (dm_rs d))[i := j]\<rparr>\<rparr>"
  have asked: "job_step m i d = ?j (JCascade u)"
    using assms None by (simp add: job_step_def on_rs_def run_job_def)
  have read: "job_step m i (?j (JCascade u)) = ?j (JDependents u (cascade d u))"
    using assms(1) by (simp add: job_step_def on_rs_def run_job_def cascade_def)
  have "(job_step m i ^^ (length (cascade d u) + 3)) d =
      (job_step m i ^^ Suc (length (cascade d u))) (job_step m i (job_step m i d))"
    by (simp only: numeral_3_eq_3 add_Suc_right add_0_right funpow_Suc_right comp_apply)
  then show ?thesis
    using job_step_dependents [of i "?j (JDependents u (cascade d u))" u "cascade d u" m] assms(1) None
    by (simp only: asked read) simp
qed

text \<open>A manager over the list of the units it was asked to restart; it refuses \<^verbatim>\<open>api.service\<close>.\<close>

definition asking_manager :: "(string list, string) manager" where
  "asking_manager =
     \<lparr>mg_start = (\<lambda>u w. (None, w)), mg_stop = (\<lambda>u w. (None, w)),
      mg_restart = (\<lambda>u w. (if u = ''api.service'' then Some ''refused'' else None, w @ [u])),
      mg_unit_state = (\<lambda>u w. Inl ''no bus''), mg_last_trigger = (\<lambda>u w. Inl ''no bus''),
      mg_list_units = (\<lambda>p w. Inr [])\<rparr>"

definition due_daemon :: "string list daemon" where
  "due_daemon = (daemon_new [] 0 [] (config_of
       [plain_unit ''db'' ''service'' [], plain_unit ''api'' ''service'' [''db''], plain_unit ''web'' ''service'' [''db'']]))
     \<lparr>dm_rs := (dm_rs (daemon_new [] 0 [] (config_of
       [plain_unit ''db'' ''service'' [], plain_unit ''api'' ''service'' [''db''], plain_unit ''web'' ''service'' [''db'']]) :: string list daemon))
       \<lparr>rs_jobs := [JRestarting ''db.service'' 0]\<rparr>\<rparr>"

theorem due_restart_acts_on_system_witness:
  "dm_world ((job_step asking_manager 0 ^^ 5) due_daemon) = [''db.service'', ''api.service'', ''web.service'']"
proof -
  have job: "0 < length (rs_jobs (dm_rs due_daemon))" "rs_jobs (dm_rs due_daemon) ! 0 = JRestarting ''db.service'' 0"
    by (simp_all add: due_daemon_def)
  have ask: "mg_restart asking_manager ''db.service'' (dm_world due_daemon) = (None, [''db.service''])"
    by (simp add: asking_manager_def due_daemon_def daemon_new_def)
  have "dm_dependents due_daemon = build_dependents (cfg_units (config_of
      [plain_unit ''db'' ''service'' [], plain_unit ''api'' ''service'' [''db''], plain_unit ''web'' ''service'' [''db'']]))"
    by (simp add: due_daemon_def daemon_new_def dm_dependents_def set_dependents_def)
  then have deps: "cascade due_daemon ''db.service'' = [''api.service'', ''web.service'']"
    by (simp only: cascade_eq)
      (simp add: config_of_def plain_unit_def dependents_of_def dep_unit_def unit_name_def has_suffix_def)
  show ?thesis
    using due_restart_acts_on_system [OF job ask] unfolding deps by (simp add: asking_manager_def)
qed

end
