(* ===== verification/DaemonSystem.thy ===== *)
theory DaemonSystem
  imports DaemonReload "HOL-Library.Multiset"
begin

text \<open>
  The daemon under every interleaving. Registration and its reverse run on several goroutines (the
  event loop, the discovery loop, the activators); each is a critical section under \<^verbatim>\<open>d.mu\<close> followed
  by calls outside it. A thread is the list of calls still to make; a step enters an operation on a
  new thread, makes one call of some thread, or is one of the daemon's own events: a state change, a
  health result, a move of a restart goroutine, the clock, the parts of a reload, and the outside world
  changing on its own. A change of a status and the calls of its handlers are one step here, although the
  mutex of the state manager is released between them (\<open>EventDelivery\<close> separates the two).
\<close>

section \<open>Steps\<close>

record 'w dsys =
  ds_daemon :: "'w daemon"
  ds_threads :: "call list list"

datatype 'w d_label =
  LRegister string unit_config
| LUnregister string
| LWatch string "health_check list" restart_policy
| LUnwatch string
| LCall nat
| LState string string string
| LHealth string bool
| LJob nat
| LTick nat
| LDependents "string list gomap"
| LNotify notify_config
| LWorld 'w
| LStored config
| LLogging log_level
| LSystemd string
| LStartLoops
| LReloadLoops
| LDiscoveryReset
| LTimerReset

definition ds_spawn :: "call list \<times> 'w daemon \<Rightarrow> 'w dsys \<Rightarrow> 'w dsys" where
  "ds_spawn p s = s\<lparr>ds_daemon := snd p, ds_threads := ds_threads s @ [fst p]\<rparr>"

definition ds_call :: "('w, 'e) manager \<Rightarrow> nat \<Rightarrow> 'w dsys \<Rightarrow> 'w dsys" where
  "ds_call m i s =
     (if i < length (ds_threads s) then
        (case ds_threads s ! i of
           [] \<Rightarrow> s
         | c # cs \<Rightarrow> s\<lparr>ds_daemon := exec_call m c (ds_daemon s), ds_threads := (ds_threads s)[i := cs]\<rparr>)
      else s)"

fun d_step :: "('w, 'e) manager \<Rightarrow> 'w d_label \<Rightarrow> 'w dsys \<Rightarrow> 'w dsys" where
  "d_step m (LRegister n u) s = ds_spawn (register_enter n u (ds_daemon s)) s"
| "d_step m (LUnregister n) s = ds_spawn (unregister_enter n (ds_daemon s)) s"
| "d_step m (LWatch n checks pol) s = ds_spawn (watch_enter n checks pol (ds_daemon s)) s"
| "d_step m (LUnwatch n) s = ds_spawn (unwatch_enter n (ds_daemon s)) s"
| "d_step m (LCall i) s = ds_call m i s"
| "d_step m (LState u a b) s = s\<lparr>ds_daemon := state_changed u a b (ds_daemon s)\<rparr>"
| "d_step m (LHealth u h) s = s\<lparr>ds_daemon := health_changed u h (ds_daemon s)\<rparr>"
| "d_step m (LJob i) s = s\<lparr>ds_daemon := job_step m i (ds_daemon s)\<rparr>"
| "d_step m (LTick n) s = s\<lparr>ds_daemon := on_rs (Advance n) (ds_daemon s)\<rparr>"
| "d_step m (LDependents ds) s = s\<lparr>ds_daemon := on_rs (DoSetDependents ds) (ds_daemon s)\<rparr>"
| "d_step m (LNotify nc) s =
     s\<lparr>ds_daemon := (ds_daemon s)\<lparr>dm_notifier := update_config nc (dm_notifier (ds_daemon s))\<rparr>\<rparr>"
| "d_step m (LWorld w) s = s\<lparr>ds_daemon := (ds_daemon s)\<lparr>dm_world := w\<rparr>\<rparr>"
| "d_step m (LStored cfg) s = s\<lparr>ds_daemon := (ds_daemon s)\<lparr>dm_cfg := cfg\<rparr>\<rparr>"
| "d_step m (LLogging lv) s = s\<lparr>ds_daemon := (ds_daemon s)\<lparr>dm_log_level := lv\<rparr>\<rparr>"
| "d_step m (LSystemd msg) s = s\<lparr>ds_daemon := sd_message msg (ds_daemon s)\<rparr>"
| "d_step m LStartLoops s = s\<lparr>ds_daemon := start_loops (ds_daemon s)\<rparr>"
| "d_step m LReloadLoops s = s\<lparr>ds_daemon := reload_loops (ds_daemon s)\<rparr>"
| "d_step m LDiscoveryReset s = s\<lparr>ds_daemon := discovery_reset (ds_daemon s)\<rparr>"
| "d_step m LTimerReset s = s\<lparr>ds_daemon := timer_reset (ds_daemon s)\<rparr>"

inductive d_next :: "('w, 'e) manager \<Rightarrow> 'w dsys \<Rightarrow> 'w dsys \<Rightarrow> bool" for m where
  "d_next m s (d_step m l s)"

inductive_cases d_next_cases: "d_next m s t"

definition d_init :: "'w dsys \<Rightarrow> bool" where
  "d_init s \<longleftrightarrow> (\<exists>environ now w cfg. s = \<lparr>ds_daemon = daemon_new environ now w cfg, ds_threads = []\<rparr>)"

definition d_run :: "('w, 'e) manager \<Rightarrow> 'w d_label list \<Rightarrow> 'w dsys \<Rightarrow> 'w dsys" where
  "d_run m = fold (d_step m)"

lemma reach_d_run: "reach d_init (d_next m) s \<Longrightarrow> reach d_init (d_next m) (d_run m ls s)"
  unfolding d_run_def by (induction ls arbitrary: s) (auto intro: reach_step d_next.intros)

section \<open>Contexts and tasks\<close>

fun task_unit :: "task \<Rightarrow> string" where
  "task_unit (Watching u c) = u"
| "task_unit (Checking u checks grace c) = u"

fun task_ctx :: "task \<Rightarrow> nat" where
  "task_ctx (Watching u c) = c"
| "task_ctx (Checking u checks grace c) = c"

fun is_watch :: "task \<Rightarrow> bool" where
  "is_watch (Watching u c) \<longleftrightarrow> True"
| "is_watch (Checking u checks grace c) \<longleftrightarrow> False"

fun call_tasks :: "call \<Rightarrow> task multiset" where
  "call_tasks (WatchUnit u c) = {#Watching u c#}"
| "call_tasks (StartChecks u checks grace c) = {#Checking u checks grace c#}"
| "call_tasks _ = {#}"

fun call_cancels :: "call \<Rightarrow> nat set" where
  "call_cancels (CancelCtx c) = {c}"
| "call_cancels _ = {}"

definition calls_tasks :: "call list \<Rightarrow> task multiset" where
  "calls_tasks cs = sum_list (map call_tasks cs)"

definition calls_cancels :: "call list \<Rightarrow> nat set" where
  "calls_cancels cs = \<Union> (call_cancels ` set cs)"

lemma calls_simps [simp]:
  "calls_tasks [] = {#}" "calls_tasks (c # cs) = call_tasks c + calls_tasks cs"
  "calls_tasks (cs @ ds) = calls_tasks cs + calls_tasks ds"
  "calls_cancels [] = {}" "calls_cancels (c # cs) = call_cancels c \<union> calls_cancels cs"
  "calls_cancels (cs @ ds) = calls_cancels cs \<union> calls_cancels ds"
  by (simp_all add: calls_tasks_def calls_cancels_def)

text \<open>
  The invariant, over the two registries as maps, the contexts, the tasks running or about to be
  started, and the contexts about to be cancelled.
\<close>

type_synonym ctx_map = "string \<Rightarrow> nat option"

definition owned :: "ctx_map \<Rightarrow> ctx_map \<Rightarrow> task \<Rightarrow> bool" where
  "owned cancels monitors t \<longleftrightarrow>
     cancels (task_unit t) = Some (task_ctx t) \<or> \<not> is_watch t \<and> monitors (task_unit t) = Some (task_ctx t)"

definition task_count :: "bool \<Rightarrow> nat \<Rightarrow> task multiset \<Rightarrow> nat" where
  "task_count b c T = size (filter_mset (\<lambda>t. is_watch t = b \<and> task_ctx t = c) T)"

definition ctx_inv :: "ctx_map \<Rightarrow> ctx_map \<Rightarrow> bool list \<Rightarrow> task multiset \<Rightarrow> nat set \<Rightarrow> bool" where
  "ctx_inv cancels monitors ctxs T P \<longleftrightarrow>
     (\<forall>u c. cancels u = Some c \<or> monitors u = Some c \<longrightarrow> c < length ctxs \<and> \<not> ctxs ! c \<and> c \<notin> P)
     \<and> (\<forall>u v c. cancels u = Some c \<longrightarrow> cancels v = Some c \<longrightarrow> u = v)
     \<and> (\<forall>u v c. monitors u = Some c \<longrightarrow> monitors v = Some c \<longrightarrow> u = v)
     \<and> (\<forall>u v c. cancels u = Some c \<longrightarrow> monitors v \<noteq> Some c)
     \<and> (\<forall>t \<in># T. task_ctx t < length ctxs \<and> (ctxs ! task_ctx t \<or> task_ctx t \<in> P \<or> owned cancels monitors t))
     \<and> (\<forall>b c. task_count b c T \<le> 1)
     \<and> (\<forall>u c. cancels u = Some c \<longrightarrow> Watching u c \<in># T)"

lemma ctx_invI:
  assumes "\<And>u c. cancels u = Some c \<Longrightarrow> c < length ctxs \<and> \<not> ctxs ! c \<and> c \<notin> P"
    "\<And>u c. monitors u = Some c \<Longrightarrow> c < length ctxs \<and> \<not> ctxs ! c \<and> c \<notin> P"
    "\<And>u v c. cancels u = Some c \<Longrightarrow> cancels v = Some c \<Longrightarrow> u = v"
    "\<And>u v c. monitors u = Some c \<Longrightarrow> monitors v = Some c \<Longrightarrow> u = v"
    "\<And>u v c. cancels u = Some c \<Longrightarrow> monitors v \<noteq> Some c"
    "\<And>t. t \<in># T \<Longrightarrow> task_ctx t < length ctxs"
    "\<And>t. t \<in># T \<Longrightarrow> \<not> ctxs ! task_ctx t \<Longrightarrow> task_ctx t \<notin> P \<Longrightarrow> owned cancels monitors t"
    "\<And>b c. task_count b c T \<le> 1"
    "\<And>u c. cancels u = Some c \<Longrightarrow> Watching u c \<in># T"
  shows "ctx_inv cancels monitors ctxs T P"
  unfolding ctx_inv_def using assms by blast

lemma ctx_invD:
  assumes "ctx_inv cancels monitors ctxs T P"
  shows "\<And>u c. cancels u = Some c \<Longrightarrow> c < length ctxs \<and> \<not> ctxs ! c \<and> c \<notin> P"
    "\<And>u c. monitors u = Some c \<Longrightarrow> c < length ctxs \<and> \<not> ctxs ! c \<and> c \<notin> P"
    "\<And>u v c. cancels u = Some c \<Longrightarrow> cancels v = Some c \<Longrightarrow> u = v"
    "\<And>u v c. monitors u = Some c \<Longrightarrow> monitors v = Some c \<Longrightarrow> u = v"
    "\<And>u v c. cancels u = Some c \<Longrightarrow> monitors v \<noteq> Some c"
    "\<And>t. t \<in># T \<Longrightarrow> task_ctx t < length ctxs"
    "\<And>t. t \<in># T \<Longrightarrow> \<not> ctxs ! task_ctx t \<Longrightarrow> task_ctx t \<notin> P \<Longrightarrow> owned cancels monitors t"
    "\<And>b c. task_count b c T \<le> 1"
    "\<And>u c. cancels u = Some c \<Longrightarrow> Watching u c \<in># T"
  using assms unfolding ctx_inv_def by blast+

lemma task_count_simps [simp]:
  "task_count b c {#} = 0"
  "task_count b c (add_mset t T) = (if is_watch t = b \<and> task_ctx t = c then 1 else 0) + task_count b c T"
  "task_count b c (T + T') = task_count b c T + task_count b c T'"
  by (simp_all add: task_count_def)

lemma task_count_fresh:
  assumes "\<And>t. t \<in># T \<Longrightarrow> task_ctx t < n"
  shows "task_count b n T = 0"
proof -
  have "filter_mset (\<lambda>t. is_watch t = b \<and> task_ctx t = n) T = {#}"
    using assms by (induction T) auto
  then show ?thesis by (simp add: task_count_def)
qed

lemma mark_nth: "k < length xs \<Longrightarrow> xs[c := True] ! k \<longleftrightarrow> k = c \<or> xs ! k"
  by (cases "k = c") auto

text \<open>Registering: a fresh context, its watch and at most one checker.\<close>

lemma ctx_inv_register:
  assumes inv: "ctx_inv cancels monitors ctxs T P" and new: "cancels u = None" and P: "\<And>c. c \<in> P \<Longrightarrow> c < length ctxs"
    and C: "C = {#} \<or> (\<exists>checks grace. C = {#Checking u checks grace (length ctxs)#})"
  shows "ctx_inv (cancels(u \<mapsto> length ctxs)) monitors (ctxs @ [False]) (T + ({#Watching u (length ctxs)#} + C)) P"
proof (rule ctx_invI)
  note d = ctx_invD [OF inv]
  have bound: "c < length ctxs" if "cancels v = Some c \<or> monitors v = Some c" for v c
    using that d(1,2) by blast
  have notP: "length ctxs \<notin> P" using P by blast
  show "c < length (ctxs @ [False]) \<and> \<not> (ctxs @ [False]) ! c \<and> c \<notin> P" if "(cancels(u \<mapsto> length ctxs)) v = Some c" for v c
    using that d(1) [of v c] notP by (auto simp: nth_append split: if_splits)
  show "c < length (ctxs @ [False]) \<and> \<not> (ctxs @ [False]) ! c \<and> c \<notin> P" if "monitors v = Some c" for v c
    using d(2) [OF that] by (auto simp: nth_append)
  show "v = w" if "(cancels(u \<mapsto> length ctxs)) v = Some c" "(cancels(u \<mapsto> length ctxs)) w = Some c" for v w c
    using that d(3) [of v c w] bound [of v c] bound [of w c] by (auto split: if_splits)
  show "v = w" if "monitors v = Some c" "monitors w = Some c" for v w c
    using that d(4) by blast
  show "monitors w \<noteq> Some c" if "(cancels(u \<mapsto> length ctxs)) v = Some c" for v w c
    using that d(5) [of v c w] bound [of w c] by (auto split: if_splits)
  show "task_ctx t < length (ctxs @ [False])" if "t \<in># T + ({#Watching u (length ctxs)#} + C)" for t
    using that C d(6) [of t] by auto
  show "owned (cancels(u \<mapsto> length ctxs)) monitors t"
    if "t \<in># T + ({#Watching u (length ctxs)#} + C)" "\<not> (ctxs @ [False]) ! task_ctx t" "task_ctx t \<notin> P" for t
  proof (cases "t \<in># T")
    case True
    then have "owned cancels monitors t"
      using d(6) [OF True] d(7) [OF True] that by (simp add: nth_append)
    then show ?thesis using new by (auto simp: owned_def)
  next
    case False
    then show ?thesis using that(1) C by (cases t) (auto simp: owned_def)
  qed
  show "task_count b c (T + ({#Watching u (length ctxs)#} + C)) \<le> 1" for b c
    using d(8) [of b c] task_count_fresh [of T "length ctxs" b] d(6) C by auto
  show "Watching v c \<in># T + ({#Watching u (length ctxs)#} + C)" if "(cancels(u \<mapsto> length ctxs)) v = Some c" for v c
    using that d(9) [of v c] by (auto split: if_splits)
qed

lemma ctx_inv_unregister:
  assumes inv: "ctx_inv cancels monitors ctxs T P" and c: "cancels u = Some c"
  shows "ctx_inv (cancels(u := None)) monitors ctxs T (insert c P)"
proof (rule ctx_invI)
  note d = ctx_invD [OF inv]
  show "k < length ctxs \<and> \<not> ctxs ! k \<and> k \<notin> insert c P" if "(cancels(u := None)) v = Some k" for v k
    using that d(1) [of v k] d(3) [of v k u] c by (auto split: if_splits)
  show "k < length ctxs \<and> \<not> ctxs ! k \<and> k \<notin> insert c P" if "monitors v = Some k" for v k
    using that d(2) [of v k] d(5) [of u c v] c by auto
  show "v = w" if "(cancels(u := None)) v = Some k" "(cancels(u := None)) w = Some k" for v w k
    using that d(3) by (auto split: if_splits)
  show "v = w" if "monitors v = Some k" "monitors w = Some k" for v w k
    using that d(4) by blast
  show "monitors w \<noteq> Some k" if "(cancels(u := None)) v = Some k" for v w k
    using that d(5) by (auto split: if_splits)
  show "task_ctx t < length ctxs" if "t \<in># T" for t using d(6) [OF that] .
  show "owned (cancels(u := None)) monitors t"
    if "t \<in># T" "\<not> ctxs ! task_ctx t" "task_ctx t \<notin> insert c P" for t
    using d(7) [OF that(1,2)] that(3) c by (auto simp: owned_def)
  show "task_count b k T \<le> 1" for b k by (rule d(8))
  show "Watching v k \<in># T" if "(cancels(u := None)) v = Some k" for v k
    using that d(9) by (auto split: if_splits)
qed

lemma ctx_inv_watch:
  assumes inv: "ctx_inv cancels monitors ctxs T P" and P: "\<And>c. c \<in> P \<Longrightarrow> c < length ctxs"
    and ctxs': "ctxs' = (case monitors u of None \<Rightarrow> ctxs | Some old \<Rightarrow> ctxs[old := True])"
  shows "ctx_inv cancels (monitors(u \<mapsto> length ctxs)) (ctxs' @ [False])
      (T + {#Checking u checks grace (length ctxs)#}) P"
proof (rule ctx_invI)
  note d = ctx_invD [OF inv]
  have len: "length ctxs' = length ctxs" by (simp add: ctxs' split: option.split)
  have live: "\<not> ctxs' ! k \<longleftrightarrow> \<not> ctxs ! k \<and> monitors u \<noteq> Some k" if "k < length ctxs" for k
    using that by (auto simp: ctxs' mark_nth split: option.splits)
  have notP: "length ctxs \<notin> P" using P by blast
  show "k < length (ctxs' @ [False]) \<and> \<not> (ctxs' @ [False]) ! k \<and> k \<notin> P" if "cancels v = Some k" for v k
    using d(1) [OF that] d(5) [OF that, of u] by (simp add: nth_append len live)
  show "k < length (ctxs' @ [False]) \<and> \<not> (ctxs' @ [False]) ! k \<and> k \<notin> P" if "(monitors(u \<mapsto> length ctxs)) v = Some k" for v k
    using that d(2) [of v k] d(4) [of v k u] notP by (auto simp: nth_append len live split: if_splits)
  show "v = w" if "cancels v = Some k" "cancels w = Some k" for v w k
    using that d(3) by blast
  show "v = w" if "(monitors(u \<mapsto> length ctxs)) v = Some k" "(monitors(u \<mapsto> length ctxs)) w = Some k" for v w k
    using that d(4) [of v k w] d(2) [of v k] d(2) [of w k] by (auto split: if_splits)
  show "(monitors(u \<mapsto> length ctxs)) w \<noteq> Some k" if "cancels v = Some k" for v w k
    using d(5) [OF that, of w] d(1) [OF that] by auto
  show "task_ctx t < length (ctxs' @ [False])" if "t \<in># T + {#Checking u checks grace (length ctxs)#}" for t
    using that d(6) [of t] by (auto simp: len)
  show "owned cancels (monitors(u \<mapsto> length ctxs)) t"
    if "t \<in># T + {#Checking u checks grace (length ctxs)#}" "\<not> (ctxs' @ [False]) ! task_ctx t" "task_ctx t \<notin> P" for t
  proof (cases "t \<in># T")
    case True
    then have "\<not> ctxs ! task_ctx t" "monitors u \<noteq> Some (task_ctx t)"
      using that(2) d(6) [OF True] live by (simp_all add: nth_append len)
    then show ?thesis using d(7) [OF True] that(3) by (auto simp: owned_def)
  next
    case False
    then show ?thesis using that(1) by (auto simp: owned_def)
  qed
  show "task_count b k (T + {#Checking u checks grace (length ctxs)#}) \<le> 1" for b k
    using d(8) [of b k] task_count_fresh [of T "length ctxs" b] d(6) by auto
  show "Watching v k \<in># T + {#Checking u checks grace (length ctxs)#}" if "cancels v = Some k" for v k
    using d(9) [OF that] by simp
qed

lemma ctx_inv_unwatch:
  assumes inv: "ctx_inv cancels monitors ctxs T P" and c: "monitors u = Some c"
  shows "ctx_inv cancels (monitors(u := None)) ctxs T (insert c P)"
proof (rule ctx_invI)
  note d = ctx_invD [OF inv]
  show "k < length ctxs \<and> \<not> ctxs ! k \<and> k \<notin> insert c P" if "cancels v = Some k" for v k
    using d(1) [OF that] d(5) [OF that, of u] c by auto
  show "k < length ctxs \<and> \<not> ctxs ! k \<and> k \<notin> insert c P" if "(monitors(u := None)) v = Some k" for v k
    using that d(2) [of v k] d(4) [of v k u] c by (auto split: if_splits)
  show "v = w" if "cancels v = Some k" "cancels w = Some k" for v w k
    using that d(3) by blast
  show "v = w" if "(monitors(u := None)) v = Some k" "(monitors(u := None)) w = Some k" for v w k
    using that d(4) by (auto split: if_splits)
  show "(monitors(u := None)) w \<noteq> Some k" if "cancels v = Some k" for v w k
    using d(5) [OF that] by simp
  show "task_ctx t < length ctxs" if "t \<in># T" for t using d(6) [OF that] .
  show "owned cancels (monitors(u := None)) t"
    if "t \<in># T" "\<not> ctxs ! task_ctx t" "task_ctx t \<notin> insert c P" for t
    using d(7) [OF that(1,2)] that(3) c by (auto simp: owned_def)
  show "task_count b k T \<le> 1" for b k by (rule d(8))
  show "Watching v k \<in># T" if "cancels v = Some k" for v k by (rule d(9) [OF that])
qed

lemma ctx_inv_cancel:
  assumes inv: "ctx_inv cancels monitors ctxs T P" and c: "c \<in> P" and P': "P' \<subseteq> P" "P \<subseteq> insert c P'"
  shows "ctx_inv cancels monitors (ctxs[c := True]) T P'"
proof (rule ctx_invI)
  note d = ctx_invD [OF inv]
  show "k < length (ctxs[c := True]) \<and> \<not> ctxs[c := True] ! k \<and> k \<notin> P'" if "cancels v = Some k" for v k
    using d(1) [OF that] c P' by (auto simp: mark_nth)
  show "k < length (ctxs[c := True]) \<and> \<not> ctxs[c := True] ! k \<and> k \<notin> P'" if "monitors v = Some k" for v k
    using d(2) [OF that] c P' by (auto simp: mark_nth)
  show "v = w" if "cancels v = Some k" "cancels w = Some k" for v w k using that d(3) by blast
  show "v = w" if "monitors v = Some k" "monitors w = Some k" for v w k using that d(4) by blast
  show "monitors w \<noteq> Some k" if "cancels v = Some k" for v w k by (rule d(5) [OF that])
  show "task_ctx t < length (ctxs[c := True])" if "t \<in># T" for t using d(6) [OF that] by simp
  show "owned cancels monitors t"
    if "t \<in># T" "\<not> ctxs[c := True] ! task_ctx t" "task_ctx t \<notin> P'" for t
  proof -
    have "task_ctx t \<noteq> c" using that d(6) [OF that(1)] by (auto simp: mark_nth)
    then show ?thesis using that d(7) [OF that(1)] P'(2) by (auto simp: mark_nth)
  qed
  show "task_count b k T \<le> 1" for b k by (rule d(8))
  show "Watching v k \<in># T" if "cancels v = Some k" for v k by (rule d(9) [OF that])
qed

section \<open>The restarter inside the daemon\<close>

definition rs_good :: "'w daemon \<Rightarrow> bool" where
  "rs_good d \<longleftrightarrow>
     rs_inv (dm_rs d) \<and> sm_handlers (rs_sm (dm_rs d)) = [NotifierHandler, RestarterHandler]"

lemma reset_handlers [simp]:
  "sm_handlers (reset_restart_count u sm) = sm_handlers sm"
  "sm_handlers (increment_restart_count u sm) = sm_handlers sm"
  by (simp_all add: reset_restart_count_def increment_restart_count_def split: option.split)

lemma handle_event_handlers: "sm_handlers (rs_sm (handle_event ev s)) = sm_handlers (rs_sm s)"
  by (simp add: handle_event_def should_restart_def Let_def split: option.split event_type.split if_splits)

lemma run_job_handlers: "sm_handlers (rs_sm (run_job i ok s)) = sm_handlers (rs_sm s)"
  by (simp add: run_job_def split: job.split option.split list.split prod.split)

lemma rs_step_handlers [simp]: "sm_handlers (rs_sm (rs_step l s)) = sm_handlers (rs_sm s)"
  by (cases l) (simp_all add: handle_event_handlers run_job_handlers)

lemma on_rs_good: "rs_good d \<Longrightarrow> rs_good (on_rs l d)"
  by (simp add: rs_good_def on_rs_def rs_inv_step)

lemma job_step_good: "rs_good d \<Longrightarrow> rs_good (job_step m i d)"
proof (rule job_step_runs [of m i d])
  fix ok w
  assume "rs_good d" "job_step m i d = (on_rs (Run i ok) d)\<lparr>dm_world := w\<rparr>"
  with on_rs_good [of d "Run i ok"] show ?thesis by (simp add: rs_good_def)
qed

lemma with_sm_good: "rs_good d \<Longrightarrow> sm_handlers sm = sm_handlers (rs_sm (dm_rs d)) \<Longrightarrow> rs_good (with_sm sm d)"
  by (auto simp: rs_good_def with_sm_def intro: rs_inv_cong)

lemma dispatch_good: "rs_good d \<Longrightarrow> rs_good (dispatch evs d)"
proof (induction evs d rule: dispatch.induct)
  case (2 ev evs d)
  then show ?case by (simp add: rs_good_def)
next
  case (3 ev evs d)
  then show ?case by (simp add: on_rs_good del: rs_step.simps)
qed simp

lemma update_handlers:
  "update_state now u a b sm = (sm', evs) \<Longrightarrow> sm_handlers sm' = sm_handlers sm"
  "update_health now u h sm = (sm', evs) \<Longrightarrow> sm_handlers sm' = sm_handlers sm"
  by (auto simp: update_state_def update_health_def Let_def split: option.splits if_splits)

lemma changed_good:
  "rs_good d \<Longrightarrow> rs_good (state_changed u a b d)"
  "rs_good d \<Longrightarrow> rs_good (health_changed u h d)"
  by (auto simp: state_changed_def health_changed_def split: prod.split
      intro!: dispatch_good with_sm_good dest: update_handlers)

lemma exec_call_good: "rs_good d \<Longrightarrow> rs_good (exec_call m c d)"
proof (cases c)
  case (InitState u)
  assume "rs_good d"
  then show ?thesis using InitState by (auto simp: changed_good split: sum.split)
qed (auto simp: on_rs_good sm_register_def sm_unregister_def intro!: with_sm_good simp del: rs_step.simps,
     auto simp: rs_good_def)

lemma rs_good_frame:
  "rs_good (snd (register_enter n u d)) = rs_good d" "rs_good (snd (unregister_enter n d)) = rs_good d"
  "rs_good (snd (watch_enter n checks pol d)) = rs_good d" "rs_good (snd (unwatch_enter n d)) = rs_good d"
  by (simp_all add: rs_good_def register_enter_def unregister_enter_def watch_enter_def unwatch_enter_def Let_def
      split: option.split)

section \<open>The invariant of the daemon\<close>

definition ds_tasks :: "'w dsys \<Rightarrow> task multiset" where
  "ds_tasks s = mset (dm_tasks (ds_daemon s)) + calls_tasks (concat (ds_threads s))"

definition ds_cancels :: "'w dsys \<Rightarrow> nat set" where
  "ds_cancels s = calls_cancels (concat (ds_threads s))"

definition d_inv :: "'w dsys \<Rightarrow> bool" where
  "d_inv s \<longleftrightarrow>
     reg_ok (ds_daemon s) \<and> rs_good (ds_daemon s)
     \<and> (\<forall>c \<in> ds_cancels s. c < length (dm_ctxs (ds_daemon s)))
     \<and> ctx_inv (map_of (dm_cancels (ds_daemon s))) (map_of (dm_monitors (ds_daemon s)))
         (dm_ctxs (ds_daemon s)) (ds_tasks s) (ds_cancels s)"

lemma thread_split:
  "i < length ths \<Longrightarrow> ths ! i = c # cs \<Longrightarrow>
     calls_tasks (concat ths) = call_tasks c + calls_tasks (concat (ths[i := cs]))
     \<and> calls_cancels (concat ths) = call_cancels c \<union> calls_cancels (concat (ths[i := cs]))"
proof (induction ths arbitrary: i)
  case Nil
  then show ?case by simp
next
  case (Cons t ths)
  show ?case
  proof (cases i)
    case 0
    with Cons.prems show ?thesis by simp
  next
    case (Suc j)
    with Cons.prems Cons.IH [of j] show ?thesis by auto
  qed
qed

lemma exec_call_core:
  "dm_ctxs (exec_call m c d) = (case c of CancelCtx k \<Rightarrow> (dm_ctxs d)[k := True] | _ \<Rightarrow> dm_ctxs d)"
  "mset (dm_tasks (exec_call m c d)) = mset (dm_tasks d) + call_tasks c"
  by (cases c; simp split: sum.split)+

lemma reg_ok_exec [simp]: "reg_ok (exec_call m c d) = reg_ok d"
  by (simp add: reg_ok_def)

lemma d_inv_call:
  assumes "d_inv s"
  shows "d_inv (ds_call m i s)"
proof (cases "i < length (ds_threads s) \<and> ds_threads s ! i \<noteq> []")
  case False
  then show ?thesis using assms by (auto simp: ds_call_def split: list.split)
next
  case True
  then obtain c cs where th: "ds_threads s ! i = c # cs" and i: "i < length (ds_threads s)"
    by (auto simp: neq_Nil_conv)
  let ?d = "ds_daemon s"
  let ?t = "s\<lparr>ds_daemon := exec_call m c ?d, ds_threads := (ds_threads s)[i := cs]\<rparr>"
  have step: "ds_call m i s = ?t" using th i by (simp add: ds_call_def)
  note split = thread_split [OF i th]
  have tasks: "ds_tasks ?t = ds_tasks s"
    using split by (simp add: ds_tasks_def exec_call_core)
  have cancels: "ds_cancels s = call_cancels c \<union> ds_cancels ?t"
    using split by (simp add: ds_cancels_def)
  have core: "ctx_inv (map_of (dm_cancels ?d)) (map_of (dm_monitors ?d)) (dm_ctxs ?d) (ds_tasks s) (ds_cancels s)"
    and bound: "\<And>k. k \<in> ds_cancels s \<Longrightarrow> k < length (dm_ctxs ?d)"
    using assms by (auto simp: d_inv_def)
  have "ctx_inv (map_of (dm_cancels ?d)) (map_of (dm_monitors ?d)) (dm_ctxs (exec_call m c ?d)) (ds_tasks s) (ds_cancels ?t)"
  proof (cases c)
    case (CancelCtx k)
    have "ctx_inv (map_of (dm_cancels ?d)) (map_of (dm_monitors ?d)) ((dm_ctxs ?d)[k := True]) (ds_tasks s) (ds_cancels ?t)"
      by (rule ctx_inv_cancel [OF core]) (use cancels CancelCtx in auto)
    then show ?thesis by (simp add: CancelCtx exec_call_core)
  qed (use core cancels in \<open>simp_all add: exec_call_core del: exec_call.simps\<close>)
  moreover have "k < length (dm_ctxs (exec_call m c ?d))" if "k \<in> ds_cancels ?t" for k
    using bound [of k] that cancels by (cases c) (simp_all add: exec_call_core del: exec_call.simps)
  ultimately show ?thesis
    unfolding step using assms by (simp add: d_inv_def tasks exec_call_good)
qed

lemma d_inv_spawn:
  assumes "d_inv s"
    and "reg_ok (snd p)" "rs_good (snd p)"
    and "\<And>c. c \<in> calls_cancels (fst p) \<Longrightarrow> c < length (dm_ctxs (snd p))"
    and "length (dm_ctxs (ds_daemon s)) \<le> length (dm_ctxs (snd p))" "dm_tasks (snd p) = dm_tasks (ds_daemon s)"
    and "ctx_inv (map_of (dm_cancels (snd p))) (map_of (dm_monitors (snd p))) (dm_ctxs (snd p))
           (ds_tasks s + calls_tasks (fst p)) (calls_cancels (fst p) \<union> ds_cancels s)"
  shows "d_inv (ds_spawn p s)"
proof -
  have "ds_tasks (ds_spawn p s) = ds_tasks s + calls_tasks (fst p)"
    by (simp add: ds_tasks_def ds_spawn_def assms(6))
  moreover have "ds_cancels (ds_spawn p s) = calls_cancels (fst p) \<union> ds_cancels s"
    by (auto simp: ds_cancels_def ds_spawn_def)
  moreover have "c < length (dm_ctxs (snd p))" if "c \<in> ds_cancels s" for c
    using assms(1,5) that by (auto simp: d_inv_def)
  ultimately show ?thesis using assms by (auto simp: d_inv_def ds_spawn_def)
qed

lemma d_invD:
  assumes "d_inv s"
  shows "reg_ok (ds_daemon s)" "rs_good (ds_daemon s)"
    "\<And>c. c \<in> ds_cancels s \<Longrightarrow> c < length (dm_ctxs (ds_daemon s))"
    "ctx_inv (map_of (dm_cancels (ds_daemon s))) (map_of (dm_monitors (ds_daemon s)))
         (dm_ctxs (ds_daemon s)) (ds_tasks s) (ds_cancels s)"
  using assms by (auto simp: d_inv_def)

lemma map_of_upd: "map_of (AList.update k v m) = (map_of m)(k \<mapsto> v)" "map_of (AList.delete k m) = (map_of m)(k := None)"
  by (auto simp: fun_eq_iff)

lemma d_inv_idle: "d_inv s \<Longrightarrow> d_inv (ds_spawn ([], ds_daemon s) s)"
  by (rule d_inv_spawn) (auto simp: d_inv_def)

lemma register_calls_core:
  "calls_cancels (register_calls n u c) = {}"
  "\<exists>C. calls_tasks (register_calls n u c) = {#Watching n c#} + C
     \<and> (C = {#} \<or> (\<exists>checks grace. C = {#Checking n checks grace c#}))"
  by (auto simp: register_calls_def split: option.split)

lemma d_inv_register:
  assumes "d_inv s"
  shows "d_inv (ds_spawn (register_enter n u (ds_daemon s)) s)"
proof (cases "map_of (dm_registered (ds_daemon s)) n")
  case (Some x)
  then show ?thesis using d_inv_idle [OF assms] by (simp add: register_enter_def)
next
  case None
  let ?d = "ds_daemon s"
  note inv = d_invD [OF assms]
  have new: "map_of (dm_cancels ?d) n = None"
    using inv(1) None by (simp add: reg_ok_def map_of_None_keys)
  obtain C where C: "calls_tasks (register_calls n u (length (dm_ctxs ?d))) = {#Watching n (length (dm_ctxs ?d))#} + C"
    "C = {#} \<or> (\<exists>checks grace. C = {#Checking n checks grace (length (dm_ctxs ?d))#})"
    using register_calls_core(2) by blast
  show ?thesis
  proof (rule d_inv_spawn [OF assms])
    show "reg_ok (snd (register_enter n u ?d))"
      using register_unit_facts(1) [OF inv(1), of _ n u] by (simp add: register_unit_def reg_ok_def)
    show "rs_good (snd (register_enter n u ?d))" using inv(2) by (simp add: rs_good_frame)
    show "ctx_inv (map_of (dm_cancels (snd (register_enter n u ?d)))) (map_of (dm_monitors (snd (register_enter n u ?d))))
        (dm_ctxs (snd (register_enter n u ?d))) (ds_tasks s + calls_tasks (fst (register_enter n u ?d)))
        (calls_cancels (fst (register_enter n u ?d)) \<union> ds_cancels s)"
      using ctx_inv_register [OF inv(4) new inv(3) C(2)] C(1)
      by (simp add: register_enter_def None Let_def map_of_upd register_calls_core(1))
  qed (simp_all add: register_enter_def None Let_def register_calls_core(1))
qed

lemma d_inv_unregister:
  assumes "d_inv s"
  shows "d_inv (ds_spawn (unregister_enter n (ds_daemon s)) s)"
proof (cases "map_of (dm_cancels (ds_daemon s)) n")
  case None
  then show ?thesis using d_inv_idle [OF assms] by (simp add: unregister_enter_def)
next
  case (Some c)
  let ?d = "ds_daemon s"
  note inv = d_invD [OF assms]
  show ?thesis
  proof (rule d_inv_spawn [OF assms])
    show "reg_ok (snd (unregister_enter n ?d))"
      using unregister_unit_facts(1) [OF inv(1), of _ n] by (simp add: unregister_unit_def reg_ok_def)
    show "rs_good (snd (unregister_enter n ?d))" using inv(2) by (simp add: rs_good_frame)
    show "ctx_inv (map_of (dm_cancels (snd (unregister_enter n ?d)))) (map_of (dm_monitors (snd (unregister_enter n ?d))))
        (dm_ctxs (snd (unregister_enter n ?d))) (ds_tasks s + calls_tasks (fst (unregister_enter n ?d)))
        (calls_cancels (fst (unregister_enter n ?d)) \<union> ds_cancels s)"
      using ctx_inv_unregister [OF inv(4) Some] by (simp add: unregister_enter_def Some map_of_upd)
    show "k < length (dm_ctxs (snd (unregister_enter n ?d)))" if "k \<in> calls_cancels (fst (unregister_enter n ?d))" for k
      using that ctx_invD(1) [OF inv(4) Some] by (simp add: unregister_enter_def Some)
  qed (simp_all add: unregister_enter_def Some)
qed

lemma d_inv_watch:
  assumes "d_inv s"
  shows "d_inv (ds_spawn (watch_enter n checks pol (ds_daemon s)) s)"
proof (cases "checks = []")
  case True
  then show ?thesis using d_inv_idle [OF assms] by (simp add: watch_enter_def)
next
  case False
  let ?d = "ds_daemon s"
  note inv = d_invD [OF assms]
  show ?thesis
  proof (rule d_inv_spawn [OF assms])
    show "reg_ok (snd (watch_enter n checks pol ?d))"
      using inv(1) by (simp add: watch_enter_def Let_def reg_ok_def)
    show "rs_good (snd (watch_enter n checks pol ?d))" using inv(2) by (simp add: rs_good_frame)
    show "ctx_inv (map_of (dm_cancels (snd (watch_enter n checks pol ?d)))) (map_of (dm_monitors (snd (watch_enter n checks pol ?d))))
        (dm_ctxs (snd (watch_enter n checks pol ?d))) (ds_tasks s + calls_tasks (fst (watch_enter n checks pol ?d)))
        (calls_cancels (fst (watch_enter n checks pol ?d)) \<union> ds_cancels s)"
      using ctx_inv_watch [OF inv(4,3) refl, where u = n and checks = checks and grace = 0] False
      by (simp add: watch_enter_def Let_def map_of_upd)
  qed (use False in \<open>simp_all add: watch_enter_def Let_def split: option.split\<close>)
qed

lemma d_inv_unwatch:
  assumes "d_inv s"
  shows "d_inv (ds_spawn (unwatch_enter n (ds_daemon s)) s)"
proof (cases "map_of (dm_monitors (ds_daemon s)) n")
  case None
  then show ?thesis using d_inv_idle [OF assms] by (simp add: unwatch_enter_def)
next
  case (Some c)
  let ?d = "ds_daemon s"
  note inv = d_invD [OF assms]
  show ?thesis
  proof (rule d_inv_spawn [OF assms])
    show "reg_ok (snd (unwatch_enter n ?d))" using inv(1) by (simp add: unwatch_enter_def Some reg_ok_def)
    show "rs_good (snd (unwatch_enter n ?d))" using inv(2) by (simp add: rs_good_frame)
    show "ctx_inv (map_of (dm_cancels (snd (unwatch_enter n ?d)))) (map_of (dm_monitors (snd (unwatch_enter n ?d))))
        (dm_ctxs (snd (unwatch_enter n ?d))) (ds_tasks s + calls_tasks (fst (unwatch_enter n ?d)))
        (calls_cancels (fst (unwatch_enter n ?d)) \<union> ds_cancels s)"
      using ctx_inv_unwatch [OF inv(4) Some] by (simp add: unwatch_enter_def Some map_of_upd)
    show "k < length (dm_ctxs (snd (unwatch_enter n ?d)))" if "k \<in> calls_cancels (fst (unwatch_enter n ?d))" for k
      using that ctx_invD(2) [OF inv(4) Some] by (simp add: unwatch_enter_def Some)
  qed (simp_all add: unwatch_enter_def Some)
qed

lemma d_inv_event:
  assumes "d_inv s" and "rs_good d"
    and "dm_registered d = dm_registered (ds_daemon s)" "dm_critical d = dm_critical (ds_daemon s)"
      "dm_cancels d = dm_cancels (ds_daemon s)" "dm_monitors d = dm_monitors (ds_daemon s)"
      "dm_ctxs d = dm_ctxs (ds_daemon s)" "dm_tasks d = dm_tasks (ds_daemon s)"
  shows "d_inv (s\<lparr>ds_daemon := d\<rparr>)"
  using assms by (simp add: d_inv_def ds_tasks_def ds_cancels_def reg_ok_def)

text \<open>Labels that change only what the invariant does not speak of.\<close>

fun is_setting :: "'w d_label \<Rightarrow> bool" where
  "is_setting (LNotify nc) \<longleftrightarrow> True"
| "is_setting (LWorld w) \<longleftrightarrow> True"
| "is_setting (LStored cfg) \<longleftrightarrow> True"
| "is_setting (LLogging lv) \<longleftrightarrow> True"
| "is_setting (LSystemd msg) \<longleftrightarrow> True"
| "is_setting LStartLoops \<longleftrightarrow> True"
| "is_setting LReloadLoops \<longleftrightarrow> True"
| "is_setting LDiscoveryReset \<longleftrightarrow> True"
| "is_setting LTimerReset \<longleftrightarrow> True"
| "is_setting l \<longleftrightarrow> False"

lemmas setting_defs = sd_message_def start_loops_def reload_loops_def discovery_reset_def timer_reset_def

lemma setting_frame:
  assumes "is_setting l"
  shows "dm_registered (ds_daemon (d_step m l s)) = dm_registered (ds_daemon s)"
    "dm_critical (ds_daemon (d_step m l s)) = dm_critical (ds_daemon s)"
    "dm_cancels (ds_daemon (d_step m l s)) = dm_cancels (ds_daemon s)"
    "dm_monitors (ds_daemon (d_step m l s)) = dm_monitors (ds_daemon s)"
    "dm_ctxs (ds_daemon (d_step m l s)) = dm_ctxs (ds_daemon s)"
    "dm_tasks (ds_daemon (d_step m l s)) = dm_tasks (ds_daemon s)"
    "dm_rs (ds_daemon (d_step m l s)) = dm_rs (ds_daemon s)"
    "s\<lparr>ds_daemon := ds_daemon (d_step m l s)\<rparr> = d_step m l s"
  using assms by (cases l; simp add: setting_defs Let_def)+

lemma d_inv_step:
  assumes "d_inv s"
  shows "d_inv (d_step m l s)"
proof -
  have good: "rs_good (ds_daemon s)" using assms by (simp add: d_inv_def)
  show ?thesis
  proof (cases "is_setting l")
    case True
    note f = setting_frame [OF True, of m s]
    have "d_inv (s\<lparr>ds_daemon := ds_daemon (d_step m l s)\<rparr>)"
      by (rule d_inv_event [OF assms]) (use good f in \<open>simp_all add: rs_good_def\<close>)
    then show ?thesis using f(8) by simp
  next
    case False
    then show ?thesis
    proof (cases l)
    qed (simp_all only: is_setting.simps simp_thms, simp_all only: d_step.simps d_inv_register [OF assms]
        d_inv_unregister [OF assms] d_inv_watch [OF assms] d_inv_unwatch [OF assms] d_inv_call [OF assms],
        (rule d_inv_event [OF assms]; simp add: changed_good on_rs_good job_step_good good del: rs_step.simps)+)
  qed
qed

lemma d_inv_init: "d_init s \<Longrightarrow> d_inv s"
proof -
  assume "d_init s"
  then obtain environ now w cfg where s: "s = \<lparr>ds_daemon = daemon_new environ now w cfg, ds_threads = []\<rparr>"
    by (auto simp: d_init_def)
  let ?r = "dm_rs (daemon_new environ now w cfg)"
  have "rs_inv (?r\<lparr>rs_restarter := restarter_new\<rparr>)"
    by (rule rs_inv_init) (simp add: rs_init_def daemon_new_def)
  then have "rs_inv ?r"
    by (rule rs_inv_cong) (simp_all add: daemon_new_def set_dependents_def)
  then have "rs_good (daemon_new environ now w cfg)"
    by (simp add: rs_good_def) (simp add: daemon_new_def on_event_def sm_new_def)
  then show "d_inv s"
    by (simp add: s d_inv_def ds_cancels_def ds_tasks_def)
      (simp add: daemon_new_def reg_ok_def ctx_inv_def)
qed

interpretation daemon_sys: transition_invariant d_init "d_next m" d_inv
  for m :: "('w, 'e) manager"
  by unfold_locales (auto simp: d_inv_init d_inv_step elim!: d_next_cases)

section \<open>Properties\<close>

definition live :: "'w daemon \<Rightarrow> task \<Rightarrow> bool" where
  "live d t \<longleftrightarrow> \<not> dm_ctxs d ! task_ctx t"

definition live_tasks :: "'w daemon \<Rightarrow> bool \<Rightarrow> string \<Rightarrow> task list" where
  "live_tasks d watching u = filter (\<lambda>t. live d t \<and> is_watch t = watching \<and> task_unit t = u) (dm_tasks d)"

definition quiescent :: "'w dsys \<Rightarrow> bool" where
  "quiescent s \<longleftrightarrow> (\<forall>t \<in> set (ds_threads s). t = [])"

lemma quiescent_core: "quiescent s \<Longrightarrow> ds_tasks s = mset (dm_tasks (ds_daemon s)) \<and> ds_cancels s = {}"
proof -
  assume "quiescent s"
  then have none: "concat (ds_threads s) = []" by (simp add: quiescent_def concat_eq_Nil_conv)
  show ?thesis unfolding ds_tasks_def ds_cancels_def none by simp
qed

lemma length_filter_le_count:
  assumes "\<And>t. t \<in> set ts \<Longrightarrow> P t \<Longrightarrow> is_watch t = b \<and> task_ctx t = c"
  shows "length (filter P ts) \<le> task_count b c (mset ts)"
  using assms by (induction ts) auto

lemma length_filter_cover:
  "(\<And>x. x \<in> set xs \<Longrightarrow> P x \<or> Q x) \<Longrightarrow> length xs \<le> length (filter P xs) + length (filter Q xs)"
proof (induction xs)
  case Nil
  then show ?case by simp
next
  case (Cons x xs)
  then have "length xs \<le> length (filter P xs) + length (filter Q xs)" by simp
  moreover have "P x \<or> Q x" using Cons.prems by simp
  ultimately show ?case by auto
qed

lemma owner_live:
  assumes "d_inv s" "quiescent s" "t \<in> set (dm_tasks (ds_daemon s))" "live (ds_daemon s) t"
  shows "owned (map_of (dm_cancels (ds_daemon s))) (map_of (dm_monitors (ds_daemon s))) t"
  using ctx_invD(7) [OF d_invD(4) [OF assms(1)]] assms(3,4) quiescent_core [OF assms(2)] by (simp add: live_def)

lemma supervised_units_watched_once_parts:
  assumes "reach d_init (d_next m) s" and "quiescent s"
  shows "length (live_tasks (ds_daemon s) True u) = (if u \<in> gm_keys (dm_registered (ds_daemon s)) then 1 else 0)"
    and "length (live_tasks (ds_daemon s) False u) \<le>
      (if u \<in> gm_keys (dm_registered (ds_daemon s)) then 1 else 0)
      + (if u \<in> gm_keys (dm_monitors (ds_daemon s)) then 1 else 0)"
proof -
  let ?d = "ds_daemon s"
  have inv: "d_inv s" by (rule daemon_sys.inv_reach [OF assms(1)])
  note core = d_invD(4) [OF inv] and q = quiescent_core [OF assms(2)]
  have count: "task_count b c (mset (dm_tasks ?d)) \<le> 1" for b c using ctx_invD(8) [OF core] q by simp
  have reg: "map_of (dm_cancels ?d) u = None \<longleftrightarrow> u \<notin> gm_keys (dm_registered ?d)"
    using d_invD(1) [OF inv] by (simp add: reg_ok_def map_of_None_keys)
  have own: "owned (map_of (dm_cancels ?d)) (map_of (dm_monitors ?d)) t" if "t \<in> set (live_tasks ?d b u)" for t b
    using owner_live [OF inv assms(2)] that by (simp add: live_tasks_def)
  show "length (live_tasks ?d True u) = (if u \<in> gm_keys (dm_registered ?d) then 1 else 0)"
  proof (cases "map_of (dm_cancels ?d) u")
    case None
    have "t \<notin> set (live_tasks ?d True u)" for t
    proof
      assume t: "t \<in> set (live_tasks ?d True u)"
      then show False using own [OF t] None by (simp add: owned_def live_tasks_def)
    qed
    then have "live_tasks ?d True u = []" by (metis list.set_intros(1) neq_Nil_conv)
    then show ?thesis using None reg by simp
  next
    case (Some c)
    have "task_ctx t = c" if "t \<in> set (live_tasks ?d True u)" for t
      using own [OF that] that Some by (simp add: owned_def live_tasks_def)
    then have "length (live_tasks ?d True u) \<le> task_count True c (mset (dm_tasks ?d))"
      unfolding live_tasks_def by (intro length_filter_le_count) auto
    moreover have "Watching u c \<in> set (live_tasks ?d True u)"
      using ctx_invD(9) [OF core Some] ctx_invD(1) [OF core Some] q by (simp add: live_tasks_def live_def)
    ultimately have "length (live_tasks ?d True u) = 1"
      using count [of True c] length_pos_if_in_set [of "Watching u c" "live_tasks ?d True u"] by linarith
    then show ?thesis using Some reg by simp
  qed
  let ?part = "\<lambda>r. filter (\<lambda>t. r = Some (task_ctx t)) (live_tasks ?d False u)"
  have bound: "length (?part r) \<le> (if r = None then 0 else 1)" for r
  proof (cases r)
    case None
    then show ?thesis by simp
  next
    case (Some c)
    have "length (?part r) \<le> task_count False c (mset (dm_tasks ?d))"
      unfolding live_tasks_def filter_filter by (rule length_filter_le_count) (use Some in auto)
    with count [of False c] Some show ?thesis by simp
  qed
  have cover: "map_of (dm_cancels ?d) u = Some (task_ctx t) \<or> map_of (dm_monitors ?d) u = Some (task_ctx t)"
    if "t \<in> set (live_tasks ?d False u)" for t
    using own [OF that] that by (simp add: owned_def live_tasks_def)
  have "length (live_tasks ?d False u)
      \<le> length (?part (map_of (dm_cancels ?d) u)) + length (?part (map_of (dm_monitors ?d) u))"
    by (rule length_filter_cover) (use cover in simp)
  then show "length (live_tasks ?d False u) \<le>
      (if u \<in> gm_keys (dm_registered ?d) then 1 else 0) + (if u \<in> gm_keys (dm_monitors ?d) then 1 else 0)"
    using bound [of "map_of (dm_cancels ?d) u"] bound [of "map_of (dm_monitors ?d) u"] reg
      map_of_None_keys [of "dm_monitors ?d" u] by (simp split: if_splits)
qed

text \<open>C6. Under every interleaving of registrations, reloads, discovery, socket-activation monitors and
  events: whenever no operation is half done, every registered unit is watched by exactly one live
  goroutine and no other unit by any; a unit has at most one live checker per registry it is in, the
  units and the monitored backends, and none when it is in neither.\<close>

theorem supervised_units_watched_once:
  assumes "reach d_init (d_next m) s" and "quiescent s"
  shows "length (live_tasks (ds_daemon s) True u) = (if u \<in> gm_keys (dm_registered (ds_daemon s)) then 1 else 0)
    \<and> length (live_tasks (ds_daemon s) False u) \<le>
        (if u \<in> gm_keys (dm_registered (ds_daemon s)) then 1 else 0)
        + (if u \<in> gm_keys (dm_monitors (ds_daemon s)) then 1 else 0)"
  using supervised_units_watched_once_parts [OF assms] by blast

definition sample_sys :: "unit dsys" where
  "sample_sys = \<lparr>ds_daemon = daemon_new [] 0 () (config_of []), ds_threads = []\<rparr>"

definition sample_web :: unit_config where
  "sample_web = (plain_unit ''web'' ''service'' [])\<lparr>uc_restart := Some sample_policy\<rparr>"

lemma sample_sys_init: "d_init sample_sys"
  by (auto simp: d_init_def sample_sys_def)

lemmas d_eval =
  d_run_def ds_spawn_def ds_call_def register_enter_def unregister_enter_def watch_enter_def unwatch_enter_def
  register_calls_def checks_for_def sample_sys_def sample_web_def sample_manager_def config_of_def plain_unit_def
  daemon_new_def with_sm_def on_rs_def set_dependents_def restarter_new_def sm_new_def on_event_def
  sm_register_def sm_unregister_def rr_register_def rr_unregister_def is_template_def after_at_def

theorem supervised_units_watched_once_witness:
  "let s = d_run sample_manager
     [LRegister ''web.service'' sample_web, LRegister ''web.service'' sample_web, LCall 0, LCall 0, LCall 0, LCall 0] sample_sys in
   length (live_tasks (ds_daemon s) True ''web.service'') = 1"
proof -
  let ?s = "d_run sample_manager
     [LRegister ''web.service'' sample_web, LRegister ''web.service'' sample_web, LCall 0, LCall 0, LCall 0, LCall 0] sample_sys"
  have "reach d_init (d_next sample_manager) ?s"
    by (intro reach_d_run reach_init sample_sys_init)
  moreover have "quiescent ?s \<and> ''web.service'' \<in> gm_keys (dm_registered (ds_daemon ?s))"
    by (simp add: d_eval quiescent_def gm_keys_def)
  ultimately show ?thesis
    using supervised_units_watched_once [of sample_manager ?s "''web.service''"] by (simp add: Let_def)
qed

text \<open>C8. The restarter keeps its contract inside the daemon: whatever the daemon does, in every
  interleaving, each restart it decides is for a unit registered with an enabled policy and out of its
  cooldown, and each attempt and each cascade is justified as the restarter promises.\<close>

theorem daemon_restarts_by_contract:
  assumes "reach d_init (d_next m) s"
  shows "log_ok (rs_log (dm_rs (ds_daemon s)))"
  using daemon_sys.inv_reach [OF assms] by (simp add: d_inv_def rs_good_def rs_inv_def)

theorem daemon_restarts_by_contract_witness:
  "log_ok (rs_log (dm_rs (ds_daemon (d_run sample_manager
     [LRegister ''web.service'' sample_web, LCall 0, LCall 0, LState ''web.service'' ''failed'' ''failed''] sample_sys))))"
  by (intro daemon_restarts_by_contract [where m = sample_manager] reach_d_run reach_init sample_sys_init)

lemma health_failure_acts_once_parts:
  assumes "sm_handlers (rs_sm (dm_rs d)) = [NotifierHandler, RestarterHandler]"
    and "get_status (rs_sm (dm_rs d)) u = Some st" "us_healthy st \<noteq> Some False"
    and "tracker_of (rs_restarter (dm_rs d)) u = Some tr" "rp_enabled (ut_policy tr)"
      "ut_cooldown_until tr \<le> rs_now (dm_rs d)"
  shows "get_status (rs_sm (dm_rs (health_changed u False d))) u = Some (st\<lparr>us_healthy := Some False\<rparr>)"
    and "rs_jobs (dm_rs (health_changed u False d)) = rs_jobs (dm_rs d) @ [JSpawned u]"
    and "dm_deliveries (health_changed u False d) = dm_deliveries d @ notify_event (dm_environ d) (dm_notifier d)
           \<lparr>ev_type = EventHealthChanged, ev_unit_name = u, ev_active_state = [], ev_sub_state = [],
            ev_healthy = Some False, ev_timestamp = rs_now (dm_rs d)\<rparr>"
    and "health_changed u False (health_changed u False d) = health_changed u False d"
proof -
  from assms(4) obtain p where p: "map_of (rr_trackers (rs_restarter (dm_rs d))) u = Some p"
    "rr_heap (rs_restarter (dm_rs d)) ! p = tr"
    by (auto simp: tracker_of_def)
  note eval = health_changed_def update_health_def emit_def with_sm_def on_rs_def handle_event_def should_restart_def
    get_status_def time_before_def
  note facts = assms(1-3,5,6) p
  show st: "get_status (rs_sm (dm_rs (health_changed u False d))) u = Some (st\<lparr>us_healthy := Some False\<rparr>)"
    using facts by (simp add: eval Let_def)
  show "rs_jobs (dm_rs (health_changed u False d)) = rs_jobs (dm_rs d) @ [JSpawned u]"
    using facts by (simp add: eval Let_def)
  show "dm_deliveries (health_changed u False d) = dm_deliveries d @ notify_event (dm_environ d) (dm_notifier d)
         \<lparr>ev_type = EventHealthChanged, ev_unit_name = u, ev_active_state = [], ev_sub_state = [],
          ev_healthy = Some False, ev_timestamp = rs_now (dm_rs d)\<rparr>"
    using facts by (simp add: eval Let_def)
  show "health_changed u False (health_changed u False d) = health_changed u False d"
    using st by (simp add: health_changed_def [of u False "health_changed u False d"] update_health_def get_status_def
        with_sm_def)
qed

text \<open>C23. A failed health check acts end to end, once: for a registered unit not yet known unhealthy,
  whose policy is enabled and whose cooldown is over, the result marks the unit unhealthy, delivers
  the health event to the notification targets, and starts one restart; the same result again does
  nothing.\<close>

theorem health_failure_acts_once:
  assumes "sm_handlers (rs_sm (dm_rs d)) = [NotifierHandler, RestarterHandler]"
    and "get_status (rs_sm (dm_rs d)) u = Some st" "us_healthy st \<noteq> Some False"
    and "tracker_of (rs_restarter (dm_rs d)) u = Some tr" "rp_enabled (ut_policy tr)"
      "ut_cooldown_until tr \<le> rs_now (dm_rs d)"
  shows "get_status (rs_sm (dm_rs (health_changed u False d))) u = Some (st\<lparr>us_healthy := Some False\<rparr>)
    \<and> rs_jobs (dm_rs (health_changed u False d)) = rs_jobs (dm_rs d) @ [JSpawned u]
    \<and> dm_deliveries (health_changed u False d) = dm_deliveries d @ notify_event (dm_environ d) (dm_notifier d)
           \<lparr>ev_type = EventHealthChanged, ev_unit_name = u, ev_active_state = [], ev_sub_state = [],
            ev_healthy = Some False, ev_timestamp = rs_now (dm_rs d)\<rparr>
    \<and> health_changed u False (health_changed u False d) = health_changed u False d"
  by (intro conjI health_failure_acts_once_parts [OF assms])

definition watched_web :: "unit dsys" where
  "watched_web = d_run sample_manager [LRegister ''web.service'' sample_web, LCall 0, LCall 0, LCall 0, LCall 0] sample_sys"

theorem health_failure_acts_once_witness:
  "rs_jobs (dm_rs (health_changed ''web.service'' False (ds_daemon watched_web))) = [JSpawned ''web.service'']"
  by (subst health_failure_acts_once [where st = "fresh_status ''web.service''" and tr = "new_tracker sample_policy",
      THEN conjunct2, THEN conjunct1])
    (simp_all add: watched_web_def d_eval get_status_def fresh_status_def tracker_of_def new_tracker_def
      sample_policy_def zero_time_def)

text \<open>
  Two operations on one unit at a time: the discovery loop is past its critical section when a reload
  takes the unit out again. The unit is not registered any more, its tracker and its status are, and
  nothing removes them: it is reported and restarted as if it were supervised.
\<close>

lemma late_registration_leaves_tracker:
  "let s = d_run sample_manager
     [LRegister ''web.service'' sample_web, LUnregister ''web.service'',
      LCall 1, LCall 1, LCall 1, LCall 0, LCall 0, LCall 0, LCall 0] sample_sys in
   quiescent s \<and> supervised (ds_daemon s) ''web.service'' = None
   \<and> tracker_of (rs_restarter (dm_rs (ds_daemon s))) ''web.service'' \<noteq> None
   \<and> get_status (rs_sm (dm_rs (ds_daemon s))) ''web.service'' \<noteq> None"
  by (simp add: d_eval quiescent_def supervised_def gm_keys_def tracker_of_def get_status_def)

text \<open>
  A unit that is both supervised and a socket-activation backend: the idle stop's \<^verbatim>\<open>Unwatch\<close> removes
  the status and the tracker the unit was registered with.
\<close>

lemma unwatch_forgets_supervised_unit:
  assumes "map_of (dm_monitors d) u = Some c"
  shows "supervised (unwatch m u d) = supervised d"
    and "get_status (rs_sm (dm_rs (unwatch m u d))) u = None"
    and "tracker_of (rs_restarter (dm_rs (unwatch m u d))) u = None"
  using assms
  by (simp_all add: unwatch_def run_calls_def unwatch_enter_def supervised_def fun_eq_iff with_sm_def on_rs_def
      get_status_def sm_unregister_def tracker_of_unregister)

end
