(* ===== verification/DaemonSocket.thy ===== *)
theory DaemonSocket
  imports Daemon Activator Json
begin

text \<open>
  \<^verbatim>\<open>internal/daemon/socket.go\<close>: the control socket. A connection carries one JSON request and gets
  one JSON response; the payload of a response is one of four shapes. An instant is written by
  \<^verbatim>\<open>encoding/json\<close> as its text, which reads back as the same instant; it is the number of its
  nanoseconds here, as a duration is. The file system and the listeners are an environment.
\<close>

section \<open>Messages\<close>

record request =
  rq_command :: string
  rq_unit_name :: string

datatype payload =
  NoData
| UnitNames "string list"
| OneStatus unit_status
| Statuses "unit_status list"
| Sockets "status list"

record response =
  rs_success :: bool
  rs_error :: string
  rs_data :: payload

definition json_of_request :: "request \<Rightarrow> json" where
  "json_of_request r =
     JObj (str_field ''command'' (rq_command r) @ omit_empty_str ''unit_name'' (rq_unit_name r))"

text \<open>Decoding into the struct: a field of another type is an error, a missing one the empty string.\<close>

definition request_of_json :: "json \<Rightarrow> request option" where
  "request_of_json j =
     (case j of
        JObj fs \<Rightarrow>
          (case (read_str j ''command'', read_str j ''unit_name'') of
             (Some c, Some u) \<Rightarrow> Some \<lparr>rq_command = c, rq_unit_name = u\<rparr>
           | _ \<Rightarrow> None)
      | JNull \<Rightarrow> Some \<lparr>rq_command = [], rq_unit_name = []\<rparr>
      | _ \<Rightarrow> None)"

definition json_of_bool_ptr :: "bool option \<Rightarrow> json" where
  "json_of_bool_ptr b = (case b of None \<Rightarrow> JNull | Some v \<Rightarrow> JBool v)"

definition json_of_unit_status :: "unit_status \<Rightarrow> json" where
  "json_of_unit_status s =
     JObj [(''UnitName'', JStr (us_unit_name s)), (''ActiveState'', JStr (us_active_state s)),
       (''SubState'', JStr (us_sub_state s)), (''Healthy'', json_of_bool_ptr (us_healthy s)),
       (''RestartCount'', JNum (us_restart_count s)), (''LastTransition'', JNum (us_last_transition s))]"

definition json_of_socket_status :: "status \<Rightarrow> json" where
  "json_of_socket_status s =
     JObj [(''name'', JStr (st_name s)), (''unit'', JStr (st_unit s)), (''listen'', JStr (st_listen s)),
       (''protocol'', JArr (map JStr (st_protocol s))), (''backend'', JStr (st_backend s)),
       (''running'', JBool (st_running s)), (''active_connections'', JNum (st_active_connections s)),
       (''idle_seconds'', JNum (st_idle s))]"

fun json_of_payload_data :: "payload \<Rightarrow> json" where
  "json_of_payload_data NoData = JNull"
| "json_of_payload_data (UnitNames ns) = JArr (map JStr ns)"
| "json_of_payload_data (OneStatus s) = json_of_unit_status s"
| "json_of_payload_data (Statuses ss) = JArr (map json_of_unit_status ss)"
| "json_of_payload_data (Sockets ss) = JArr (map json_of_socket_status ss)"

definition json_of_response :: "response \<Rightarrow> json" where
  "json_of_response r =
     JObj ([(''success'', JBool (rs_success r))] @ omit_empty_str ''error'' (rs_error r) @
       (if rs_data r = NoData then [] else [(''data'', json_of_payload_data (rs_data r))]))"

section \<open>Requests\<close>

definition ok_response :: "payload \<Rightarrow> response" where
  "ok_response p = \<lparr>rs_success = True, rs_error = [], rs_data = p\<rparr>"

definition error_response :: "string \<Rightarrow> response" where
  "error_response e = \<lparr>rs_success = False, rs_error = e, rs_data = NoData\<rparr>"

text \<open>\<open>err_text\<close> is \<^verbatim>\<open>Error()\<close> of the manager's errors; \<open>sockets\<close> are the activators, when there are any.\<close>

definition unit_action ::
  "('e \<Rightarrow> string) \<Rightarrow> (string \<Rightarrow> 'w \<Rightarrow> 'e option \<times> 'w) \<Rightarrow> string \<Rightarrow> 'w daemon \<Rightarrow> response \<times> 'w daemon" where
  "unit_action err_text act unit d =
     (if unit = [] then (error_response ''unit name required'', d)
      else
        (case act unit (dm_world d) of
           (Some e, w) \<Rightarrow> (error_response (err_text e), d\<lparr>dm_world := w\<rparr>)
         | (None, w) \<Rightarrow> (ok_response NoData, d\<lparr>dm_world := w\<rparr>)))"

definition process_request ::
  "('w, 'e) manager \<Rightarrow> ('e \<Rightarrow> string) \<Rightarrow> 'x activator list option \<Rightarrow> request \<Rightarrow> 'w daemon
   \<Rightarrow> response \<times> 'w daemon" where
  "process_request m err_text sockets r d =
     (let c = rq_command r; unit = rq_unit_name r in
      if c = ''list'' then (ok_response (UnitNames (map fst (dm_registered d))), d)
      else if c = ''status'' then
        (if unit \<noteq> [] then
           (case get_status (rs_sm (dm_rs d)) unit of
              None \<Rightarrow> (error_response (''unit '' @ unit @ '' not found''), d)
            | Some s \<Rightarrow> (ok_response (OneStatus s), d))
         else (ok_response (Statuses (all_statuses (rs_sm (dm_rs d)))), d))
      else if c = ''sockets'' then
        (case sockets of
           None \<Rightarrow> (ok_response (Sockets []), d)
         | Some as \<Rightarrow> (ok_response (Sockets (statuses (rs_now (dm_rs d)) as)), d))
      else if c = ''start'' then unit_action err_text (mg_start m) unit d
      else if c = ''stop'' then unit_action err_text (mg_stop m) unit d
      else if c = ''restart'' then unit_action err_text (mg_restart m) unit d
      else (error_response (''unknown command: '' @ c), d))"

text \<open>One connection: \<open>None\<close> is input that is not JSON.\<close>

definition handle_connection ::
  "('w, 'e) manager \<Rightarrow> ('e \<Rightarrow> string) \<Rightarrow> 'x activator list option \<Rightarrow> json option \<Rightarrow> 'w daemon \<Rightarrow> json \<times> 'w daemon" where
  "handle_connection m err_text sockets input d =
     (case Option.bind input request_of_json of
        None \<Rightarrow> (json_of_response (error_response ''invalid request''), d)
      | Some r \<Rightarrow>
          (case process_request m err_text sockets r d of (resp, d') \<Rightarrow> (json_of_response resp, d')))"

section \<open>The listener\<close>

datatype file_kind = RegularFile | Directory | SocketFile | OtherFile

datatype 'x socket_error =
  LstatFailed 'x
| IsDirectory string
| NotASocket string
| RemoveFailed 'x
| ListenFailed string 'x
| ChmodFailed 'x
| ActivationFailed 'x

text \<open>
  A file system is the kind of each path that exists; removing, listening and changing the mode may
  fail, and so may \<^verbatim>\<open>Lstat\<close>, for reasons other than absence.
\<close>

record 'x fs_env =
  fe_lstat_error :: "string \<Rightarrow> 'x option"
  fe_remove_error :: "string \<Rightarrow> 'x option"
  fe_listen_error :: "string \<Rightarrow> 'x option"
  fe_chmod_error :: "string \<Rightarrow> 'x option"
  fe_activation :: "'x + nat"

type_synonym files = "string \<Rightarrow> file_kind option"

definition remove_stale_socket :: "'x fs_env \<Rightarrow> string \<Rightarrow> files \<Rightarrow> 'x socket_error option \<times> files" where
  "remove_stale_socket env path fs =
     (case fe_lstat_error env path of
        Some e \<Rightarrow> (Some (LstatFailed e), fs)
      | None \<Rightarrow>
          (case fs path of
             None \<Rightarrow> (None, fs)
           | Some kind \<Rightarrow>
               if kind = Directory then (Some (IsDirectory path), fs)
               else if kind \<noteq> SocketFile then (Some (NotASocket path), fs)
               else
                 (case fe_remove_error env path of
                    Some e \<Rightarrow> (Some (RemoveFailed e), fs)
                  | None \<Rightarrow> (None, fs(path := None)))))"

text \<open>A listener on a path creates its socket; closing it after a failed \<^verbatim>\<open>Chmod\<close> unlinks it.\<close>

definition create_listener :: "'x fs_env \<Rightarrow> string \<Rightarrow> files \<Rightarrow> ('x socket_error + string) \<times> files" where
  "create_listener env path fs =
     (case remove_stale_socket env path fs of
        (Some e, fs1) \<Rightarrow> (Inl e, fs1)
      | (None, fs1) \<Rightarrow>
          (case fe_listen_error env path of
             Some e \<Rightarrow> (Inl (ListenFailed path e), fs1)
           | None \<Rightarrow>
               (case fe_chmod_error env path of
                  Some e \<Rightarrow> (Inl (ChmodFailed e), fs1(path := None))
                | None \<Rightarrow> (Inr path, fs1(path := Some SocketFile)))))"

datatype listener = Inherited | Created string

definition acquire_listener :: "'x fs_env \<Rightarrow> string \<Rightarrow> files \<Rightarrow> ('x socket_error + listener) \<times> files" where
  "acquire_listener env path fs =
     (case fe_activation env of
        Inl e \<Rightarrow> (Inl (ActivationFailed e), fs)
      | Inr n \<Rightarrow>
          if n > 0 then (Inr Inherited, fs)
          else (case create_listener env path fs of
                  (Inl e, fs1) \<Rightarrow> (Inl e, fs1)
                | (Inr p, fs1) \<Rightarrow> (Inr (Created p), fs1)))"

section \<open>Lemmas\<close>

lemma remove_stale_socket_only_sockets:
  assumes "remove_stale_socket env path fs = (r, fs')" and "fs' q \<noteq> fs q"
  shows "q = path \<and> fs q = Some SocketFile \<and> r = None"
  using assms by (auto simp: remove_stale_socket_def split: option.splits if_splits)

lemma create_listener_frame:
  assumes "create_listener env path fs = (r, fs')"
  shows "q \<noteq> path \<Longrightarrow> fs' q = fs q" and "fs path \<noteq> None \<Longrightarrow> fs path \<noteq> Some SocketFile \<Longrightarrow> fs' = fs \<and> (\<exists>e. r = Inl e)"
  using assms by (auto simp: create_listener_def remove_stale_socket_def split: option.splits if_splits)

lemma create_listener_refused:
  assumes "fs path \<noteq> None" "fs path \<noteq> Some SocketFile"
  shows "create_listener env path fs =
    (Inl (case fe_lstat_error env path of Some e \<Rightarrow> LstatFailed e
          | None \<Rightarrow> if fs path = Some Directory then IsDirectory path else NotASocket path), fs)"
  using assms by (auto simp: create_listener_def remove_stale_socket_def split: option.splits if_splits)

lemma create_listener_Inr:
  "create_listener env path fs = (Inr p, fs') \<Longrightarrow> p = path \<and> fs' = fs(path := Some SocketFile)"
  by (auto simp: create_listener_def remove_stale_socket_def split: option.splits if_splits)

text \<open>C34. Taking the control socket touches nothing but a socket at its own path. No other path
  changes, and the path itself only when it was free or held a socket (live or not: whether
  someone still listens on it is not asked). With a socket from systemd, or an error asking for one,
  the file system stays as it is. Otherwise a directory, a file or anything else that is not a
  socket stays and is reported, and the daemon has no listener; and a listener of its own is on
  that path, which then holds its socket.\<close>

theorem control_socket_destroys_only_sockets:
  assumes "acquire_listener env path fs = (r, fs')"
  shows "(\<forall>q. q \<noteq> path \<longrightarrow> fs' q = fs q)
    \<and> (fs' path \<noteq> fs path \<longrightarrow> fs path = None \<or> fs path = Some SocketFile)
    \<and> (case fe_activation env of
         Inl e \<Rightarrow> r = Inl (ActivationFailed e) \<and> fs' = fs
       | Inr n \<Rightarrow>
           (n > 0 \<longrightarrow> r = Inr Inherited \<and> fs' = fs)
           \<and> (n = 0 \<longrightarrow> fs path \<noteq> None \<longrightarrow> fs path \<noteq> Some SocketFile \<longrightarrow>
                fs' = fs \<and> r = Inl (case fe_lstat_error env path of Some e \<Rightarrow> LstatFailed e
                  | None \<Rightarrow> if fs path = Some Directory then IsDirectory path else NotASocket path))
           \<and> (n = 0 \<longrightarrow> (\<forall>l. r = Inr l \<longrightarrow> l = Created path \<and> fs' path = Some SocketFile)))"
proof (cases "fe_activation env")
  case (Inl e)
  with assms show ?thesis by (simp add: acquire_listener_def)
next
  case (Inr n)
  show ?thesis
  proof (cases "n > 0")
    case True
    with assms Inr show ?thesis by (simp add: acquire_listener_def)
  next
    case False
    obtain c fs1 where c: "create_listener env path fs = (c, fs1)" by fastforce
    with assms Inr False have r: "fs' = fs1" "r = (case c of Inl e \<Rightarrow> Inl e | Inr p \<Rightarrow> Inr (Created p))"
      by (auto simp: acquire_listener_def split: sum.splits)
    have frame: "\<forall>q. q \<noteq> path \<longrightarrow> fs' q = fs q" using create_listener_frame(1) [OF c] r(1) by blast
    have refused: "fs' = fs \<and> r = Inl (case fe_lstat_error env path of Some e \<Rightarrow> LstatFailed e
        | None \<Rightarrow> if fs path = Some Directory then IsDirectory path else NotASocket path)"
      if "fs path \<noteq> None" "fs path \<noteq> Some SocketFile"
    proof -
      have "fs1 = fs" and "c = Inl (case fe_lstat_error env path of Some e \<Rightarrow> LstatFailed e
        | None \<Rightarrow> if fs path = Some Directory then IsDirectory path else NotASocket path)"
        using c create_listener_refused [of fs path env] that by simp_all
      then show ?thesis using r by (simp only: sum.case)
    qed
    have kept: "fs path = None \<or> fs path = Some SocketFile" if "fs' path \<noteq> fs path"
      using that refused by metis
    have own: "l = Created path \<and> fs' path = Some SocketFile" if "r = Inr l" for l
    proof (cases c)
      case (Inr p)
      with c create_listener_Inr [of env path fs p fs1] r that show ?thesis by simp
    qed (use r that in simp)
    show ?thesis unfolding Inr using False frame refused kept own by simp
  qed
qed

definition plain_fs :: "string fs_env" where
  "plain_fs = \<lparr>fe_lstat_error = (\<lambda>p. None), fe_remove_error = (\<lambda>p. None), fe_listen_error = (\<lambda>p. None),
     fe_chmod_error = (\<lambda>p. None), fe_activation = Inr 0\<rparr>"

theorem control_socket_destroys_only_sockets_witness:
  "snd (acquire_listener plain_fs ''/run/s'' [''/run/s'' \<mapsto> SocketFile, ''/etc/x'' \<mapsto> RegularFile]) ''/etc/x'' = Some RegularFile
   \<and> acquire_listener plain_fs ''/run/s'' [''/run/s'' \<mapsto> RegularFile] = (Inl (NotASocket ''/run/s''), [''/run/s'' \<mapsto> RegularFile])
   \<and> acquire_listener (plain_fs\<lparr>fe_activation := Inr 1\<rparr>) ''/run/s'' [''/run/s'' \<mapsto> RegularFile] = (Inr Inherited, [''/run/s'' \<mapsto> RegularFile])"
  using control_socket_destroys_only_sockets
      [where env = plain_fs and path = "''/run/s''" and fs = "[''/run/s'' \<mapsto> SocketFile, ''/etc/x'' \<mapsto> RegularFile]", OF surjective_pairing]
    control_socket_destroys_only_sockets
      [where env = plain_fs and path = "''/run/s''" and fs = "[''/run/s'' \<mapsto> RegularFile]", OF surjective_pairing]
    control_socket_destroys_only_sockets
      [where env = "plain_fs\<lparr>fe_activation := Inr 1\<rparr>" and path = "''/run/s''" and fs = "[''/run/s'' \<mapsto> RegularFile]", OF surjective_pairing]
  by (simp add: plain_fs_def prod_eq_iff)

end
