(* ===== verification/DaemonRun.thy ===== *)
theory DaemonRun
  imports DaemonSystem DaemonSocket
begin

text \<open>
  The daemon as \<^verbatim>\<open>Run\<close> drives it: start-up, then the event loop, the two timed loops, the
  activators' calls, the requests on the control socket, the restart goroutines, the clock and the
  outside world changing on its own, one after the other. Each part calls the manager it was given. \<open>Daemon\<close> defines what
  each does as a function; here each is shown to be an execution of \<open>DaemonSystem\<close> in which one
  thread runs undisturbed, so every property of the interleaved daemon holds of the functions.
\<close>

section \<open>Running daemon\<close>

datatype ('w, 'x) main_event =
  MainLoop loop_input
| MainDiscovery bool
| MainTimers bool
| MainWatch string "health_check list" restart_policy
| MainUnwatch string
| MainStart string
| MainStop string
| MainRequest "'x activator list option" request
| MainJob nat
| MainTick nat
| MainWorld 'w

definition main_step ::
  "('w, 'e) wiring \<Rightarrow> ('e \<Rightarrow> string) \<Rightarrow> (string \<Rightarrow> string \<Rightarrow> bool)
   \<Rightarrow> (unit_config gomap \<Rightarrow> unit_config gomap) \<Rightarrow> ('w, 'x) main_event \<Rightarrow> 'w daemon \<Rightarrow> 'w daemon" where
  "main_step wi err_text re ord_new e d =
     (case e of
        MainLoop i \<Rightarrow> snd (event_step (wi_daemon wi) re ord_new i d)
      | MainDiscovery tick \<Rightarrow> discovery_loop_turn (wi_daemon wi) re tick d
      | MainTimers tick \<Rightarrow> timer_loop_turn (wi_daemon wi) tick d
      | MainWatch u checks pol \<Rightarrow> watch (wi_daemon wi) u checks pol d
      | MainUnwatch u \<Rightarrow> unwatch (wi_daemon wi) u d
      | MainStart u \<Rightarrow> snd (controller_start (wi_activators wi) u d)
      | MainStop u \<Rightarrow> snd (controller_stop (wi_activators wi) u d)
      | MainRequest sockets r \<Rightarrow> snd (process_request (wi_daemon wi) err_text sockets r d)
      | MainJob i \<Rightarrow> job_step (wi_restarter wi) i d
      | MainTick n \<Rightarrow> on_rs (Advance n) d
      | MainWorld w \<Rightarrow> d\<lparr>dm_world := w\<rparr>)"

definition main_run ::
  "('w, 'e) wiring \<Rightarrow> ('e \<Rightarrow> string) \<Rightarrow> (string \<Rightarrow> string \<Rightarrow> bool)
   \<Rightarrow> (unit_config gomap \<Rightarrow> unit_config gomap) \<Rightarrow> ('w, 'x) main_event list \<Rightarrow> 'w daemon \<Rightarrow> 'w daemon" where
  "main_run wi err_text re ord_new = fold (main_step wi err_text re ord_new)"

text \<open>A termination signal cancels every context; what follows is the end of the process.\<close>

definition keeps_running :: "('w, 'x) main_event \<Rightarrow> bool" where
  "keeps_running e \<longleftrightarrow> e \<noteq> MainLoop Terminated"

section \<open>Reachable, with nothing half done\<close>

definition attained :: "('w, 'e) manager \<Rightarrow> 'w daemon \<Rightarrow> bool" where
  "attained m d \<longleftrightarrow> (\<exists>s. reach d_init (d_next m) s \<and> quiescent s \<and> ds_daemon s = d)"

lemma attained_new: "attained m (daemon_new environ now w cfg)"
proof -
  have "d_init \<lparr>ds_daemon = daemon_new environ now w cfg, ds_threads = []\<rparr>"
    unfolding d_init_def by blast
  then show ?thesis
    unfolding attained_def
    by (intro exI [of _ "\<lparr>ds_daemon = daemon_new environ now w cfg, ds_threads = []\<rparr>"])
      (simp add: reach_init quiescent_def)
qed

lemma attained_label:
  assumes "attained m d" "\<And>s. ds_daemon s = d \<Longrightarrow> d_step m l s = s\<lparr>ds_daemon := e\<rparr>"
  shows "attained m e"
proof -
  obtain s where s: "reach d_init (d_next m) s" "quiescent s" "ds_daemon s = d"
    using assms(1) by (auto simp: attained_def)
  have "reach d_init (d_next m) (d_step m l s)" by (rule reach_step [OF s(1) d_next.intros])
  then have "reach d_init (d_next m) (s\<lparr>ds_daemon := e\<rparr>)" using assms(2) [OF s(3)] by simp
  then show ?thesis using s(2) by (auto simp: attained_def quiescent_def intro!: exI [of _ "s\<lparr>ds_daemon := e\<rparr>"])
qed

lemma attained_rs:
  assumes "attained m d"
  shows "attained m (job_step m i d)"
    "attained m (on_rs (Advance n) d)"
    "attained m (on_rs (DoSetDependents ds) d)"
proof -
  show "attained m (job_step m i d)"
    by (rule attained_label [OF assms, where l = "LJob i"]) simp
  show "attained m (on_rs (Advance n) d)"
    by (rule attained_label [OF assms, where l = "LTick n"]) simp
  show "attained m (on_rs (DoSetDependents ds) d)"
    by (rule attained_label [OF assms, where l = "LDependents ds"]) simp
qed

lemma attained_changes:
  assumes "attained m d"
  shows "attained m (state_changed u a b d)"
    "attained m (health_changed u h d)"
proof -
  show "attained m (state_changed u a b d)"
    by (rule attained_label [OF assms, where l = "LState u a b"]) simp
  show "attained m (health_changed u h d)"
    by (rule attained_label [OF assms, where l = "LHealth u h"]) simp
qed

lemma attained_settings:
  assumes "attained m d"
  shows "attained m (d\<lparr>dm_world := w\<rparr>)"
    "attained m (d\<lparr>dm_cfg := cfg\<rparr>)"
    "attained m (sd_message msg d)"
    "attained m (start_loops d)"
    "attained m (reload_loops d)"
    "attained m (discovery_reset d)"
    "attained m (timer_reset d)"
proof -
  show "attained m (d\<lparr>dm_world := w\<rparr>)"
    by (rule attained_label [OF assms, where l = "LWorld w"]) simp
  show "attained m (d\<lparr>dm_cfg := cfg\<rparr>)"
    by (rule attained_label [OF assms, where l = "LStored cfg"]) simp
  show "attained m (sd_message msg d)"
    by (rule attained_label [OF assms, where l = "LSystemd msg"]) simp
  show "attained m (start_loops d)"
    by (rule attained_label [OF assms, where l = "LStartLoops"]) simp
  show "attained m (reload_loops d)"
    by (rule attained_label [OF assms, where l = "LReloadLoops"]) simp
  show "attained m (discovery_reset d)"
    by (rule attained_label [OF assms, where l = "LDiscoveryReset"]) simp
  show "attained m (timer_reset d)"
    by (rule attained_label [OF assms, where l = "LTimerReset"]) simp
qed

lemma attained_logging:
  assumes "attained m d"
  shows "attained m (d\<lparr>dm_log_level := lv, dm_notifier := update_config nc (dm_notifier d)\<rparr>)"
proof -
  have "attained m (d\<lparr>dm_log_level := lv\<rparr>)"
    by (rule attained_label [OF assms, where l = "LLogging lv"]) simp
  then have "attained m ((d\<lparr>dm_log_level := lv\<rparr>)\<lparr>dm_notifier := update_config nc (dm_notifier d)\<rparr>)"
    by (rule attained_label [where l = "LNotify nc"]) simp
  then show ?thesis by simp
qed

text \<open>A thread that runs undisturbed.\<close>

lemma thread_runs:
  "d_run m (replicate (length cs) (LCall (length ths))) \<lparr>ds_daemon = d, ds_threads = ths @ [cs]\<rparr>
     = \<lparr>ds_daemon = fold (exec_call m) cs d, ds_threads = ths @ [[]]\<rparr>"
proof (induction cs arbitrary: d)
  case Nil
  then show ?case by (simp add: d_run_def)
next
  case (Cons c cs)
  then show ?case by (simp add: d_run_def ds_call_def del: exec_call.simps)
qed

lemma attained_operation:
  assumes "attained m d" "\<And>s. ds_daemon s = d \<Longrightarrow> d_step m l s = ds_spawn p s"
  shows "attained m (run_calls m p)"
proof -
  obtain s where s: "reach d_init (d_next m) s" "quiescent s" "ds_daemon s = d"
    using assms(1) by (auto simp: attained_def)
  let ?run = "d_run m (replicate (length (fst p)) (LCall (length (ds_threads s))))"
  have "reach d_init (d_next m) (?run (ds_spawn p s))"
    using reach_d_run [OF reach_step [OF s(1) d_next.intros]] assms(2) [OF s(3)] by metis
  moreover have "ds_spawn p s = \<lparr>ds_daemon = snd p, ds_threads = ds_threads s @ [fst p]\<rparr>"
    by (cases s) (simp add: ds_spawn_def)
  ultimately have "reach d_init (d_next m) \<lparr>ds_daemon = run_calls m p, ds_threads = ds_threads s @ [[]]\<rparr>"
    by (simp add: thread_runs run_calls_def)
  moreover have "quiescent \<lparr>ds_daemon = run_calls m p, ds_threads = ds_threads s @ [[]]\<rparr>"
    using s(2) by (simp add: quiescent_def)
  ultimately show ?thesis
    unfolding attained_def by (intro exI [of _ "\<lparr>ds_daemon = run_calls m p, ds_threads = ds_threads s @ [[]]\<rparr>"]) simp
qed

lemma attained_ops:
  assumes "attained m d"
  shows "attained m (register_unit m n u d)"
    "attained m (unregister_unit m n d)"
    "attained m (watch m v checks pol d)"
    "attained m (unwatch m v d)"
proof -
  show "attained m (register_unit m n u d)"
    unfolding register_unit_def unregister_unit_def watch_def unwatch_def
    by (rule attained_operation [OF assms, where l = "LRegister n u"]) simp
  show "attained m (unregister_unit m n d)"
    unfolding register_unit_def unregister_unit_def watch_def unwatch_def
    by (rule attained_operation [OF assms, where l = "LUnregister n"]) simp
  show "attained m (watch m v checks pol d)"
    unfolding register_unit_def unregister_unit_def watch_def unwatch_def
    by (rule attained_operation [OF assms, where l = "LWatch v checks pol"]) simp
  show "attained m (unwatch m v d)"
    unfolding register_unit_def unregister_unit_def watch_def unwatch_def
    by (rule attained_operation [OF assms, where l = "LUnwatch v"]) simp
qed

lemma attained_fold: "attained m d \<Longrightarrow> (\<And>x e. attained m e \<Longrightarrow> attained m (f x e)) \<Longrightarrow> attained m (fold f xs d)"
  by (induction xs arbitrary: d) simp_all

lemma attained_discover: "attained m d \<Longrightarrow> attained m (discover_instances m re u d)"
  by (simp add: discover_instances_def attained_fold attained_ops split: sum.split)

lemma attained_discovery_tick: "attained m d \<Longrightarrow> attained m (discovery_tick m re d)"
  by (simp add: discovery_tick_def attained_fold attained_discover)

lemma attained_timers: "attained m d \<Longrightarrow> attained m (check_timers m d)"
  by (simp add: check_timers_def attained_settings)

lemma attained_reload_units: "attained m d \<Longrightarrow> attained m (reload_units m re ord_new cfg d)"
  unfolding reload_units_def Let_def
  by (intro attained_fold attained_rs attained_discover)
    (auto simp: reload_old_def reload_new_def update_unit_def intro!: attained_ops split: option.split prod.split)

lemma attained_reload: "attained m d \<Longrightarrow> attained m (reload m re ord_new loaded d)"
  by (cases loaded) (simp_all add: reload_def Let_def attained_settings attained_reload_units attained_logging)

lemma attained_start_unit: "attained m d \<Longrightarrow> attained m (start_unit m re u d)"
  by (simp add: start_unit_def attained_discover attained_ops)

lemma attained_start:
  assumes "daemon_start real dry_run re env environ now loaded w = Inr d"
  shows "attained (wi_daemon (wire dry_run real)) d"
proof -
  obtain cfg where cfg: "loaded = Inr cfg"
    using assms by (cases loaded) (auto simp: daemon_start_def)
  let ?m = "wi_daemon (wire dry_run real)"
  have "attained ?m (start_loops (fold (start_unit ?m re) (cfg_units cfg) (daemon_new environ now w cfg)))"
    by (intro attained_settings attained_fold attained_new attained_start_unit)
  then show ?thesis
    using assms by (auto simp: cfg daemon_start_def Let_def go_error intro: attained_settings)
qed

lemma attained_request:
  assumes "attained m d"
  shows "attained m (snd (process_request m' err_text sockets r d))"
proof -
  have "attained m (snd (unit_action err_text act u d))" for act u
    using assms by (auto simp: unit_action_def attained_settings split: prod.split option.split)
  then show ?thesis using assms by (simp add: process_request_def Let_def split: option.split)
qed

definition one_manager :: "('w, 'e) manager \<Rightarrow> ('w, 'e) wiring \<Rightarrow> bool" where
  "one_manager m wi \<longleftrightarrow> wi_daemon wi = m \<and> wi_restarter wi = m \<and> wi_activators wi = m"

lemma one_manager_wire: "one_manager (wi_daemon (wire dry_run real)) (wire dry_run real)"
  by (simp add: one_manager_def wire_manager)

lemma attained_step:
  assumes "attained m d" "keeps_running e" "one_manager m wi"
  shows "attained m (main_step wi err_text re ord_new e d)"
proof (cases e)
  case (MainLoop i)
  then show ?thesis using assms
    by (cases i) (simp_all add: main_step_def event_step_def keeps_running_def one_manager_def attained_settings
        attained_reload attained_changes)
qed (use assms in \<open>simp_all add: main_step_def one_manager_def discovery_loop_turn_def timer_loop_turn_def
    attained_discovery_tick attained_timers attained_settings attained_ops attained_rs attained_request
    controller_start_def controller_stop_def case_prod_unfold\<close>)

lemma attained_run:
  "attained m d \<Longrightarrow> list_all keeps_running es \<Longrightarrow> one_manager m wi \<Longrightarrow>
     attained m (main_run wi err_text re ord_new es d)"
  unfolding main_run_def by (induction es arbitrary: d) (simp_all add: attained_step)

text \<open>C13. The daemon that \<^verbatim>\<open>Run\<close> drives is an execution of the interleaved one: after a start-up that
  succeeds, and any sequence of reloads, discoveries, timer checks, activators' calls, requests, state
  changes, health results, restart steps, time and changes of the outside world, it is in a state the
  interleaved daemon reaches with nothing half done. So every registered unit is watched by exactly one
  live goroutine, no other unit by any; and the restarter's history satisfies its contract: every
  restart one of its goroutines made was decided for that goroutine and came no earlier than its own
  attempt's backoff. (The restarts of overdue timers and of requests are not the restarter's, and not
  in its history.)\<close>

theorem running_daemon_is_an_interleaving:
  assumes "daemon_start real dry_run re env environ now loaded w = Inr d" "list_all keeps_running es"
  shows "(\<exists>s. reach d_init (d_next (wi_daemon (wire dry_run real))) s \<and> quiescent s
          \<and> ds_daemon s = main_run (wire dry_run real) err_text re ord_new es d)
    \<and> (\<forall>u. length (live_tasks (main_run (wire dry_run real) err_text re ord_new es d) True u)
          = (if u \<in> gm_keys (dm_registered (main_run (wire dry_run real) err_text re ord_new es d)) then 1 else 0))
    \<and> log_ok (rs_log (dm_rs (main_run (wire dry_run real) err_text re ord_new es d)))"
proof -
  obtain s where s: "reach d_init (d_next (wi_daemon (wire dry_run real))) s" "quiescent s"
    "ds_daemon s = main_run (wire dry_run real) err_text re ord_new es d"
    using attained_run [OF attained_start [OF assms(1)] assms(2) one_manager_wire, of err_text re ord_new]
    unfolding attained_def by blast
  have inv: "d_inv s" by (rule daemon_sys.inv_reach [OF s(1)])
  have "log_ok (rs_log (dm_rs (ds_daemon s)))" using inv by (simp add: d_inv_def rs_good_def rs_inv_def)
  then show ?thesis using s supervised_units_watched_once_parts(1) [OF s(1,2)] by metis
qed

theorem running_daemon_is_an_interleaving_witness:
  "\<forall>u. length (live_tasks (main_run (wire False sample_manager) id (\<lambda>re s. True) id
       ([MainDiscovery True, MainLoop (Hangup (Inr (config_of []))), MainTimers True] :: (unit, string) main_event list)
       started_daemon) True u)
     = (if u \<in> gm_keys (dm_registered (main_run (wire False sample_manager) id (\<lambda>re s. True) id
       ([MainDiscovery True, MainLoop (Hangup (Inr (config_of []))), MainTimers True] :: (unit, string) main_event list)
       started_daemon)) then 1 else 0)"
  using running_daemon_is_an_interleaving [OF sample_start, where ord_new = id and err_text = id
      and es = "[MainDiscovery True, MainLoop (Hangup (Inr (config_of []))), MainTimers True] :: (unit, string) main_event list"]
  by (simp add: keeps_running_def wire_manager)

end
