(* ===== verification/DaemonUnit.thy ===== *)
theory DaemonUnit
  imports DaemonSystem
begin

text \<open>
  What the daemon knows of one unit: the health in its status, the policy of its tracker, its monitor; and
  that every step of \<open>DaemonSystem\<close> that does not concern the unit leaves them alone. The theories that
  put the daemon together with a checker or an activator follow one unit with these lemmas.
\<close>

section \<open>What a unit's status says, step by step\<close>

definition unit_health :: "string \<Rightarrow> 'w daemon \<Rightarrow> bool option option" where
  "unit_health u d = map_option us_healthy (get_status (rs_sm (dm_rs d)) u)"

fun call_unit :: "call \<Rightarrow> string option" where
  "call_unit (SmRegister u) = Some u"
| "call_unit (RrRegister u pol) = Some u"
| "call_unit (InitState u) = Some u"
| "call_unit (WatchUnit u c) = Some u"
| "call_unit (StartChecks u checks grace c) = Some u"
| "call_unit (CancelCtx c) = None"
| "call_unit (RrUnregister u) = Some u"
| "call_unit (SmUnregister u) = Some u"

fun label_unit :: "'w d_label \<Rightarrow> string option" where
  "label_unit (LRegister n u) = Some n"
| "label_unit (LUnregister n) = Some n"
| "label_unit (LWatch n checks pol) = Some n"
| "label_unit (LUnwatch n) = Some n"
| "label_unit _ = None"

lemma reset_healthy: "map_option us_healthy (get_status (reset_restart_count v sm) u) = map_option us_healthy (get_status sm u)"
  by (auto simp: get_status_def reset_restart_count_def split: option.split)

lemma increment_healthy: "map_option us_healthy (get_status (increment_restart_count v sm) u) = map_option us_healthy (get_status sm u)"
  by (auto simp: get_status_def increment_restart_count_def split: option.split)

lemma handle_event_healthy:
  "map_option us_healthy (get_status (rs_sm (handle_event ev s)) u) = map_option us_healthy (get_status (rs_sm s) u)"
  by (simp add: handle_event_def should_restart_def Let_def reset_healthy split: option.split event_type.split)

lemma run_job_healthy:
  "map_option us_healthy (get_status (rs_sm (run_job i ok s)) u) = map_option us_healthy (get_status (rs_sm s) u)"
  by (auto simp: run_job_def increment_healthy split: job.split option.split list.split prod.split)

lemma unit_health_with [simp]: "unit_health u (with_sm sm d) = map_option us_healthy (get_status sm u)"
  by (simp add: unit_health_def with_sm_def)

lemma unit_health_rs [simp]: "unit_health u (on_rs l d) = unit_health u d"
  by (cases l) (simp_all add: unit_health_def on_rs_def handle_event_healthy run_job_healthy)

lemma unit_health_job [simp]: "unit_health u (job_step m i d) = unit_health u d"
proof (rule job_step_runs [of m i d])
  fix ok w
  assume "job_step m i d = (on_rs (Run i ok) d)\<lparr>dm_world := w\<rparr>"
  with unit_health_rs [of u "Run i ok" d] show ?thesis by (simp add: unit_health_def)
qed

lemma unit_health_dispatch [simp]: "unit_health u (dispatch evs d) = unit_health u d"
proof (induction evs d rule: dispatch.induct)
  case (2 ev evs d)
  have "unit_health u (d\<lparr>dm_deliveries := ds\<rparr>) = unit_health u d" for ds by (simp add: unit_health_def)
  then show ?case using 2 by simp
qed simp_all

lemma unit_health_state [simp]: "unit_health u (state_changed v a b d) = unit_health u d"
proof -
  have "unit_health u (state_changed v a b d)
      = map_option us_healthy (get_status (fst (update_state (rs_now (dm_rs d)) v a b (rs_sm (dm_rs d)))) u)"
    by (simp add: state_changed_def case_prod_unfold)
  then show ?thesis
    by (cases "get_status (rs_sm (dm_rs d)) v") (simp_all add: unit_health_def get_status_update_state)
qed

lemma unit_health_result:
  "unit_health u (health_changed v h d) =
     (if v = u then map_option (\<lambda>_. Some h) (unit_health u d) else unit_health u d)"
proof -
  have "unit_health u (health_changed v h d)
      = map_option us_healthy (get_status (fst (update_health (rs_now (dm_rs d)) v h (rs_sm (dm_rs d)))) u)"
    by (simp add: health_changed_def case_prod_unfold)
  then show ?thesis by (auto simp: unit_health_def get_status_update_health option.map_comp comp_def)
qed

lemma unit_health_cong: "dm_rs d = dm_rs e \<Longrightarrow> unit_health u d = unit_health u e"
  by (simp add: unit_health_def)

lemma unit_health_call:
  assumes "call_unit c \<noteq> Some u"
  shows "unit_health u (exec_call m c d) = unit_health u d"
proof (cases c)
  case (InitState v)
  then show ?thesis by (simp split: sum.split)
qed (use assms in \<open>simp_all add: unit_health_def with_sm_def on_rs_def\<close>)

lemma enter_frames [simp]:
  "dm_rs (snd (register_enter n c d)) = dm_rs d" "dm_tasks (snd (register_enter n c d)) = dm_tasks d"
  "dm_rs (snd (unregister_enter n d)) = dm_rs d" "dm_tasks (snd (unregister_enter n d)) = dm_tasks d"
  "dm_rs (snd (watch_enter n checks pol d)) = dm_rs d" "dm_tasks (snd (watch_enter n checks pol d)) = dm_tasks d"
  "dm_rs (snd (unwatch_enter n d)) = dm_rs d" "dm_tasks (snd (unwatch_enter n d)) = dm_tasks d"
  by (auto simp: register_enter_def unregister_enter_def watch_enter_def unwatch_enter_def Let_def split: option.split)

lemma enter_units:
  "c \<in> set (fst (register_enter n cf d)) \<Longrightarrow> call_unit c \<in> {None, Some n}"
  "c \<in> set (fst (unregister_enter n d)) \<Longrightarrow> call_unit c \<in> {None, Some n}"
  "c \<in> set (fst (watch_enter n checks pol d)) \<Longrightarrow> call_unit c \<in> {None, Some n}"
  "c \<in> set (fst (unwatch_enter n d)) \<Longrightarrow> call_unit c \<in> {None, Some n}"
  by (auto simp: register_enter_def unregister_enter_def watch_enter_def unwatch_enter_def register_calls_def Let_def
      split: option.splits if_splits)

fun is_result :: "'w d_label \<Rightarrow> bool" where
  "is_result (LHealth u h) \<longleftrightarrow> True"
| "is_result _ \<longleftrightarrow> False"

text \<open>A step that does not concern a unit leaves its status, its goroutines and its pending calls.\<close>

definition call_pending :: "string \<Rightarrow> 'w dsys \<Rightarrow> bool" where
  "call_pending u s \<longleftrightarrow> (\<exists>cs \<in> set (ds_threads s). \<exists>c \<in> set cs. call_unit c = Some u)"

definition untouched :: "string \<Rightarrow> 'w dsys \<Rightarrow> 'w dsys \<Rightarrow> bool" where
  "untouched u s t \<longleftrightarrow>
     unit_health u (ds_daemon t) = unit_health u (ds_daemon s) \<and> \<not> call_pending u t
     \<and> (\<exists>new. dm_tasks (ds_daemon t) = dm_tasks (ds_daemon s) @ new \<and> (\<forall>k \<in> set new. task_unit k \<noteq> u))"

lemma untouched_spawn:
  assumes "dm_rs (snd p) = dm_rs (ds_daemon s)" "dm_tasks (snd p) = dm_tasks (ds_daemon s)" "\<not> call_pending u s"
    "\<And>c. c \<in> set (fst p) \<Longrightarrow> call_unit c \<in> {None, Some n}" "n \<noteq> u"
  shows "untouched u s (ds_spawn p s)"
  using assms(2,3,5) assms(4) unit_health_cong [OF assms(1), of u]
  by (fastforce simp: untouched_def ds_spawn_def call_pending_def)

lemma tasks_dispatch: "dm_tasks (dispatch evs d) = dm_tasks d"
  by (induction evs d rule: dispatch.induct) (simp_all add: on_rs_def)

lemma tasks_frames [simp]:
  "dm_tasks (on_rs l d) = dm_tasks d" "dm_tasks (state_changed v a b d) = dm_tasks d"
  "dm_tasks (health_changed v h d) = dm_tasks d" "dm_tasks (with_sm sm d) = dm_tasks d"
  by (simp_all add: on_rs_def state_changed_def health_changed_def with_sm_def tasks_dispatch split: prod.split)

lemma call_tasks_frame:
  assumes "call_unit c \<noteq> Some u"
  shows "\<exists>new. dm_tasks (exec_call m c d) = dm_tasks d @ new \<and> (\<forall>k \<in> set new. task_unit k \<noteq> u)"
proof (cases c)
  case (InitState v)
  then show ?thesis by (simp split: sum.split)
qed (use assms in simp_all)

lemma untouched_call:
  assumes "\<not> call_pending u s"
  shows "untouched u s (ds_call m i s)"
proof (cases "i < length (ds_threads s) \<and> ds_threads s ! i \<noteq> []")
  case True
  then obtain c cs where th: "ds_threads s ! i = c # cs" "i < length (ds_threads s)" by (metis list.exhaust)
  then have "c # cs \<in> set (ds_threads s)" by (metis nth_mem)
  then have other: "call_unit c \<noteq> Some u" "\<forall>c \<in> set cs. call_unit c \<noteq> Some u"
    using assms by (fastforce simp: call_pending_def)+
  let ?t = "s\<lparr>ds_daemon := exec_call m c (ds_daemon s), ds_threads := (ds_threads s)[i := cs]\<rparr>"
  have "\<not> call_pending u ?t"
    using assms other(2) by (auto simp: call_pending_def dest!: subsetD [OF set_update_subset_insert])
  then have "untouched u s ?t"
    using unit_health_call [OF other(1), of m "ds_daemon s"] call_tasks_frame [OF other(1), of m "ds_daemon s"] by (simp add: untouched_def)
  then show ?thesis using th by (simp add: ds_call_def)
next
  case False
  then have "ds_call m i s = s" by (auto simp: ds_call_def split: list.split)
  then show ?thesis using assms by (simp add: untouched_def)
qed

lemma untouched_step:
  assumes "label_unit l \<noteq> Some u" "\<not> is_result l" "\<not> call_pending u s"
  shows "untouched u s (d_step m l s)"
proof (cases "is_setting l")
  case True
  have "ds_threads (d_step m l s) = ds_threads s" using True by (cases l) simp_all
  then show ?thesis
    using unit_health_cong [OF setting_frame(7) [OF True, of m s], of u] setting_frame(6) [OF True, of m s] assms(3)
    by (simp add: untouched_def call_pending_def)
next
  case False
  note spawn = untouched_spawn [OF _ _ assms(3)]
  show ?thesis
  proof (cases l)
    case (LRegister n c)
    then show ?thesis using assms(1) by (auto intro!: spawn [where n = n] dest: enter_units(1))
  next
    case (LUnregister n)
    then show ?thesis using assms(1) by (auto intro!: spawn [where n = n] dest: enter_units(2))
  next
    case (LWatch n checks pol)
    then show ?thesis using assms(1) by (auto intro!: spawn [where n = n] dest: enter_units(3))
  next
    case (LUnwatch n)
    then show ?thesis using assms(1) by (auto intro!: spawn [where n = n] dest: enter_units(4))
  next
    case (LCall i)
    then show ?thesis using untouched_call [OF assms(3)] by simp
  qed (use assms False in \<open>simp_all add: untouched_def call_pending_def\<close>)
qed

section \<open>The tracker of a unit, its monitor and its registration\<close>

definition policy_of :: "string \<Rightarrow> 'w daemon \<Rightarrow> restart_policy option" where
  "policy_of u d = map_option ut_policy (tracker_of (rs_restarter (dm_rs d)) u)"

text \<open>The restarter writes to a tracker's attempts and its cooldown, never to its policy.\<close>

lemma policy_write:
  assumes "ut_policy x = ut_policy (rr_heap r ! p)"
  shows "map_option ut_policy (tracker_of (r\<lparr>rr_heap := (rr_heap r)[p := x]\<rparr>) u) = map_option ut_policy (tracker_of r u)"
proof -
  have "ut_policy ((rr_heap r)[p := x] ! q) = ut_policy (rr_heap r ! q)" for q
    using assms by (cases "p < length (rr_heap r)") (auto simp: nth_list_update list_update_beyond)
  then show ?thesis by (simp add: tracker_of_def option.map_comp comp_def)
qed

lemma policy_restarter [simp]:
  "map_option ut_policy (tracker_of (reset_tracker p r) u) = map_option ut_policy (tracker_of r u)"
  "map_option ut_policy (tracker_of (snd (attempt_begin v r)) u) = map_option ut_policy (tracker_of r u)"
  "map_option ut_policy (tracker_of (enter_cooldown now p r) u) = map_option ut_policy (tracker_of r u)"
  "tracker_of (r\<lparr>rr_dependents := ds\<rparr>) u = tracker_of r u"
  by (simp_all add: reset_tracker_def attempt_begin_def enter_cooldown_def Let_def policy_write tracker_of_def [of "rr_dependents_update _ _"]
      tracker_of_def [of r u] split: option.split)

lemma policy_handle_event:
  "map_option ut_policy (tracker_of (rs_restarter (handle_event ev s)) u) = map_option ut_policy (tracker_of (rs_restarter s) u)"
  by (simp add: handle_event_def should_restart_def Let_def split: option.split event_type.split)

lemma policy_run_job:
  "map_option ut_policy (tracker_of (rs_restarter (run_job i ok s)) u) = map_option ut_policy (tracker_of (rs_restarter s) u)"
proof -
  have "map_option ut_policy (tracker_of r' u) = map_option ut_policy (tracker_of (rs_restarter s) u)"
    if "attempt_begin v (rs_restarter s) = (x, r')" for v x r'
    using policy_restarter(2) [of v "rs_restarter s" u] that by simp
  then show ?thesis
    by (auto simp: run_job_def split: job.split option.split list.split prod.split)
qed

fun rs_label_unit :: "r_label \<Rightarrow> string option" where
  "rs_label_unit (DoRegister u pol) = Some u"
| "rs_label_unit (DoUnregister u) = Some u"
| "rs_label_unit _ = None"

lemma policy_rs:
  assumes "rs_label_unit l \<noteq> Some u" "rs_good d"
  shows "policy_of u (on_rs l d) = policy_of u d"
proof -
  have "rr_ok (rs_restarter (dm_rs d))" using assms(2) by (simp add: rs_good_def rs_inv_def tr_inv_def)
  then show ?thesis
    using assms(1) by (cases l) (simp_all add: policy_of_def on_rs_def policy_handle_event policy_run_job
        tracker_of_register tracker_of_unregister set_dependents_def)
qed

lemma policy_state [simp]:
  "policy_of u (state_changed v a b d) = policy_of u d" "policy_of u (health_changed v h d) = policy_of u d"
  "policy_of u (with_sm sm d) = policy_of u d"
proof -
  have rs: "policy_of u (on_rs (Deliver ev) d) = policy_of u d" for ev and d :: "'a daemon"
    by (simp add: policy_of_def on_rs_def policy_handle_event)
  have dispatch: "policy_of u (dispatch evs d) = policy_of u d" for evs and d :: "'a daemon"
  proof (induction evs d rule: dispatch.induct)
    case (2 ev evs d)
    have "policy_of u (d\<lparr>dm_deliveries := ds\<rparr>) = policy_of u d" for ds by (simp add: policy_of_def)
    then show ?case using 2 by simp
  qed (simp_all add: rs)
  show sm: "policy_of u (with_sm sm d) = policy_of u d" for sm and d :: "'a daemon"
    by (simp add: policy_of_def with_sm_def)
  show "policy_of u (state_changed v a b d) = policy_of u d" "policy_of u (health_changed v h d) = policy_of u d"
    by (simp_all add: state_changed_def health_changed_def dispatch sm split: prod.split)
qed

lemma policy_call:
  assumes "call_unit c \<noteq> Some u" "rs_good d"
  shows "policy_of u (exec_call m c d) = policy_of u d"
proof -
  have frames: "policy_of u (d\<lparr>dm_tasks := ts\<rparr>) = policy_of u d" "policy_of u (d\<lparr>dm_ctxs := cs\<rparr>) = policy_of u d" for ts cs
    by (simp_all add: policy_of_def)
  show ?thesis
  proof (cases c)
    case (InitState v)
    then show ?thesis by (simp split: sum.split)
  qed (use assms in \<open>simp_all add: policy_rs frames\<close>)
qed

text \<open>What is kept of a unit by the steps that do not concern it.\<close>

definition same_unit :: "string \<Rightarrow> 'w daemon \<Rightarrow> 'w daemon \<Rightarrow> bool" where
  "same_unit u d e \<longleftrightarrow>
     (unit_health u e = None \<longleftrightarrow> unit_health u d = None) \<and> policy_of u e = policy_of u d
     \<and> map_of (dm_monitors e) u = map_of (dm_monitors d) u \<and> map_of (dm_registered e) u = map_of (dm_registered d) u
     \<and> set (dm_tasks d) \<subseteq> set (dm_tasks e)"

lemma same_unit_cong:
  assumes "dm_rs e = dm_rs d" "map_of (dm_monitors e) u = map_of (dm_monitors d) u"
    "map_of (dm_registered e) u = map_of (dm_registered d) u" "dm_tasks e = dm_tasks d"
  shows "same_unit u d e"
  using assms unit_health_cong [OF assms(1), of u] by (simp add: same_unit_def policy_of_def)

lemma registries_frames [simp]:
  "dm_monitors (on_rs l d) = dm_monitors d" "dm_registered (on_rs l d) = dm_registered d"
  "dm_monitors (with_sm sm d) = dm_monitors d" "dm_registered (with_sm sm d) = dm_registered d"
  "dm_monitors (dispatch evs d) = dm_monitors d" "dm_registered (dispatch evs d) = dm_registered d"
  "dm_monitors (state_changed v a b d) = dm_monitors d" "dm_registered (state_changed v a b d) = dm_registered d"
  "dm_monitors (health_changed v h d) = dm_monitors d" "dm_registered (health_changed v h d) = dm_registered d"
proof -
  have reg: "dm_monitors (on_rs l d) = dm_monitors d \<and> dm_registered (on_rs l d) = dm_registered d"
    for l and d :: "'a daemon" by (simp add: on_rs_def)
  have sm: "dm_monitors (with_sm sm d) = dm_monitors d \<and> dm_registered (with_sm sm d) = dm_registered d"
    for sm and d :: "'a daemon" by (simp add: with_sm_def)
  have disp: "dm_monitors (dispatch evs d) = dm_monitors d \<and> dm_registered (dispatch evs d) = dm_registered d"
    for evs and d :: "'a daemon" by (induction evs d rule: dispatch.induct) (simp_all add: reg)
  show "dm_monitors (on_rs l d) = dm_monitors d" "dm_registered (on_rs l d) = dm_registered d"
    "dm_monitors (with_sm sm d) = dm_monitors d" "dm_registered (with_sm sm d) = dm_registered d"
    "dm_monitors (dispatch evs d) = dm_monitors d" "dm_registered (dispatch evs d) = dm_registered d"
    by (simp_all add: reg sm disp)
  show "dm_monitors (state_changed v a b d) = dm_monitors d" "dm_registered (state_changed v a b d) = dm_registered d"
    "dm_monitors (health_changed v h d) = dm_monitors d" "dm_registered (health_changed v h d) = dm_registered d"
    by (simp_all add: state_changed_def health_changed_def sm disp split: prod.split)
qed

lemma registries_call [simp]:
  "dm_monitors (exec_call m c d) = dm_monitors d" "dm_registered (exec_call m c d) = dm_registered d"
  by (cases c; simp split: sum.split)+

lemma same_call:
  assumes "call_unit c \<noteq> Some u" "rs_good d"
  shows "same_unit u d (exec_call m c d)"
  using unit_health_call [OF assms(1), of m d] policy_call [OF assms, of m] call_tasks_frame [OF assms(1), of m d]
  by (auto simp: same_unit_def)

lemma registries_enter:
  assumes "n \<noteq> u"
  shows "same_unit u d (snd (register_enter n c d))" "same_unit u d (snd (unregister_enter n d))"
    "same_unit u d (snd (watch_enter n checks pol d))" "same_unit u d (snd (unwatch_enter n d))"
proof -
  show "same_unit u d (snd (register_enter n c d))"
    by (rule same_unit_cong) (use assms in \<open>simp_all add: register_enter_def Let_def\<close>)
  show "same_unit u d (snd (unregister_enter n d))"
    by (rule same_unit_cong) (use assms in \<open>simp_all add: unregister_enter_def split: option.split\<close>)
  show "same_unit u d (snd (watch_enter n checks pol d))"
    by (rule same_unit_cong) (use assms in \<open>simp_all add: watch_enter_def map_of_upd Let_def\<close>)
  show "same_unit u d (snd (unwatch_enter n d))"
    by (rule same_unit_cong) (use assms in \<open>simp_all add: unwatch_enter_def split: option.split\<close>)
qed

lemma same_events:
  "rs_label_unit l = None \<Longrightarrow> rs_good d \<Longrightarrow> same_unit u d (on_rs l d)"
  "same_unit u d (state_changed v a b d)" "same_unit u d (health_changed v h d)" "same_unit u d d"
  by (simp_all add: same_unit_def policy_rs unit_health_result)

lemma same_job: "rs_good d \<Longrightarrow> same_unit u d (job_step m i d)"
proof (rule job_step_runs [of m i d])
  fix ok w
  assume good: "rs_good d" and step: "job_step m i d = (on_rs (Run i ok) d)\<lparr>dm_world := w\<rparr>"
  have "same_unit u d (on_rs (Run i ok) d)" by (rule same_events) (simp_all add: good)
  then show ?thesis by (simp add: step same_unit_def unit_health_def policy_of_def)
qed

lemma same_step:
  assumes "label_unit l \<noteq> Some u" "rs_good (ds_daemon s)"
    and "\<And>i c cs. l = LCall i \<Longrightarrow> i < length (ds_threads s) \<Longrightarrow> ds_threads s ! i = c # cs \<Longrightarrow> call_unit c \<noteq> Some u"
  shows "same_unit u (ds_daemon s) (ds_daemon (d_step m l s))"
proof (cases "is_setting l")
  case True
  then show ?thesis by (intro same_unit_cong) (simp_all add: setting_frame)
next
  case False
  show ?thesis
  proof (cases l)
    case (LCall i)
    then show ?thesis using assms(2,3) by (auto simp: ds_call_def same_call same_events split: list.split)
  next
    case (LRegister n c)
    then show ?thesis using assms(1) by (simp add: ds_spawn_def registries_enter)
  next
    case (LUnregister n)
    then show ?thesis using assms(1) by (simp add: ds_spawn_def registries_enter)
  next
    case (LWatch n checks pol)
    then show ?thesis using assms(1) by (simp add: ds_spawn_def registries_enter)
  next
    case (LUnwatch n)
    then show ?thesis using assms(1) by (simp add: ds_spawn_def registries_enter)
  qed (use assms(2) False in \<open>simp_all add: same_events same_job\<close>)
qed

end
