(* ===== verification/HealthPipeline.thy ===== *)
theory HealthPipeline
  imports DaemonUnit HealthChecker
begin

text \<open>
  From a probe to a restart: the checkers the daemon starts, the channel \<^verbatim>\<open>healthCh\<close> they report
  into, and the event loop that receives from it, put together. The daemon is \<open>DaemonSystem\<close>, each
  \<open>Checking\<close> task of it runs a checker of \<open>HealthChecker\<close>, and the channel is a queue of at most
  100 results. A checker whose context has ended may still finish the probe it is in; it ends when its
  goroutines are back in their \<^verbatim>\<open>select\<close>.
\<close>

section \<open>The pipeline\<close>

record ('w, 'e) hp_sys =
  hp_ds :: "'w dsys"
  hp_checkers :: "'e hc_sys list"
  hp_ended :: "bool list"
  hp_queue :: "'e hc_result list"

datatype ('w, 'e) hp_label =
  PDaemon "'w d_label"
| PCheck nat "'e hc_label"
| PEnd nat
| PReceive

text \<open>The capacity of the channel.\<close>

definition health_ch_cap :: nat where
  "health_ch_cap = 100"

text \<open>The checker of a task; a watching goroutine has no check and so never probes.\<close>

fun task_checks :: "task \<Rightarrow> health_check list" where
  "task_checks (Checking u checks grace c) = checks"
| "task_checks (Watching u c) = []"

definition task_checker :: "task \<Rightarrow> 'e hc_sys" where
  "task_checker t = hs_start (task_unit t) (task_checks t)"

definition start_checkers :: "('w, 'e) hp_sys \<Rightarrow> ('w, 'e) hp_sys" where
  "start_checkers s =
     (let new = drop (length (hp_checkers s)) (dm_tasks (ds_daemon (hp_ds s))) in
      s\<lparr>hp_checkers := hp_checkers s @ map task_checker new, hp_ended := hp_ended s @ replicate (length new) False\<rparr>)"

text \<open>What a checker's step sends, and whether the channel lets it.\<close>

fun hs_sends :: "'e hc_label \<Rightarrow> 'e hc_sys \<Rightarrow> 'e hc_result list" where
  "hs_sends (Tick i err) h = []"
| "hs_sends (Report i) h =
     (if i < length (ck_checks (hs_checker h)) \<and> hs_reporting h ! i
      then (case fst (report_status (hs_checker h)) of None \<Rightarrow> [] | Some r \<Rightarrow> [r])
      else [])"

definition hp_check :: "nat \<Rightarrow> 'e hc_label \<Rightarrow> ('w, 'e) hp_sys \<Rightarrow> ('w, 'e) hp_sys" where
  "hp_check k hl s =
     (if k < length (hp_checkers s) \<and> \<not> hp_ended s ! k then
        (let h = hp_checkers s ! k; sent = hs_sends hl h in
         if length (hp_queue s) + length sent \<le> health_ch_cap
         then s\<lparr>hp_checkers := (hp_checkers s)[k := hs_step hl h], hp_queue := hp_queue s @ sent\<rparr>
         else s)
      else s)"

definition ctx_ended :: "nat \<Rightarrow> ('w, 'e) hp_sys \<Rightarrow> bool" where
  "ctx_ended k s =
     (let d = ds_daemon (hp_ds s) in k < length (dm_tasks d) \<and> dm_ctxs d ! task_ctx (dm_tasks d ! k))"

definition hp_end :: "nat \<Rightarrow> ('w, 'e) hp_sys \<Rightarrow> ('w, 'e) hp_sys" where
  "hp_end k s =
     (if k < length (hp_checkers s) \<and> ctx_ended k s \<and> True \<notin> set (hs_reporting (hp_checkers s ! k))
      then s\<lparr>hp_ended := (hp_ended s)[k := True]\<rparr> else s)"

definition hp_receive :: "('w, 'e) hp_sys \<Rightarrow> ('w, 'e) hp_sys" where
  "hp_receive s =
     (case hp_queue s of
        [] \<Rightarrow> s
      | r # q \<Rightarrow>
          s\<lparr>hp_queue := q,
            hp_ds := (hp_ds s)\<lparr>ds_daemon := health_changed (res_unit_name r) (res_healthy r) (ds_daemon (hp_ds s))\<rparr>\<rparr>)"

fun hp_step :: "('w, 'x) manager \<Rightarrow> ('w, 'e) hp_label \<Rightarrow> ('w, 'e) hp_sys \<Rightarrow> ('w, 'e) hp_sys" where
  "hp_step m (PDaemon l) s =
     (if is_result l then s else start_checkers (s\<lparr>hp_ds := d_step m l (hp_ds s)\<rparr>))"
| "hp_step m (PCheck k hl) s = hp_check k hl s"
| "hp_step m (PEnd k) s = hp_end k s"
| "hp_step m PReceive s = hp_receive s"

definition hp_run :: "('w, 'x) manager \<Rightarrow> ('w, 'e) hp_label list \<Rightarrow> ('w, 'e) hp_sys \<Rightarrow> ('w, 'e) hp_sys" where
  "hp_run m = fold (hp_step m)"

inductive hp_next :: "('w, 'x) manager \<Rightarrow> ('w, 'e) hp_sys \<Rightarrow> ('w, 'e) hp_sys \<Rightarrow> bool" for m where
  "hp_next m s (hp_step m l s)"

inductive_cases hp_next_cases: "hp_next m s t"

definition hp_start :: "'w dsys \<Rightarrow> ('w, 'e) hp_sys" where
  "hp_start ds = \<lparr>hp_ds = ds, hp_checkers = [], hp_ended = [], hp_queue = []\<rparr>"

definition hp_init :: "('w, 'e) hp_sys \<Rightarrow> bool" where
  "hp_init s \<longleftrightarrow> (\<exists>ds. d_init ds \<and> s = hp_start ds)"

section \<open>Every goroutine runs its checker\<close>

definition hp_tasks :: "('w, 'e) hp_sys \<Rightarrow> task list" where
  "hp_tasks s = dm_tasks (ds_daemon (hp_ds s))"

definition hp_base :: "('w, 'e) hp_sys \<Rightarrow> bool" where
  "hp_base s \<longleftrightarrow>
     length (hp_ended s) = length (hp_checkers s)
     \<and> list_all2 (\<lambda>t h. h_inv (task_unit t) (task_checks t) h) (hp_tasks s) (hp_checkers s)"

lemma hp_base_start: "d_init ds \<Longrightarrow> hp_base (hp_start ds)"
  by (auto simp: hp_base_def hp_start_def hp_tasks_def d_init_def daemon_new_def)

lemma h_inv_task: "h_inv (task_unit t) (task_checks t) (task_checker t)"
  by (simp add: task_checker_def h_inv_start)

text \<open>The daemon only ever starts goroutines.\<close>

lemma tasks_call: "\<exists>new. dm_tasks (exec_call m c d) = dm_tasks d @ new"
  by (cases c) (auto split: sum.split)

lemma tasks_step: "\<exists>new. dm_tasks (ds_daemon (d_step m l s)) = dm_tasks (ds_daemon s) @ new"
proof (cases "is_setting l")
  case True
  then show ?thesis by (simp add: setting_frame(6))
next
  case False
  then show ?thesis
    by (cases l) (auto simp: ds_spawn_def ds_call_def tasks_call split: list.split)
qed

lemma start_checkers_tasks:
  assumes "dm_tasks (ds_daemon ds) = hp_tasks s @ new" "length (hp_checkers s) = length (hp_tasks s)"
  shows "start_checkers (s\<lparr>hp_ds := ds\<rparr>)
    = s\<lparr>hp_ds := ds, hp_checkers := hp_checkers s @ map task_checker new, hp_ended := hp_ended s @ replicate (length new) False\<rparr>"
  using assms by (simp add: start_checkers_def)

lemma hp_base_daemon:
  fixes s :: "('w, 'e) hp_sys"
  assumes "hp_base s"
  shows "hp_base (start_checkers (s\<lparr>hp_ds := d_step m l (hp_ds s)\<rparr>))"
proof -
  obtain new where new: "dm_tasks (ds_daemon (d_step m l (hp_ds s))) = hp_tasks s @ new"
    using tasks_step [of m l "hp_ds s"] by (auto simp: hp_tasks_def)
  have "length (hp_checkers s) = length (hp_tasks s)"
    using assms by (auto simp: hp_base_def dest: list_all2_lengthD)
  moreover have "list_all2 (\<lambda>t h. h_inv (task_unit t) (task_checks t) h) new (map task_checker new :: 'e hc_sys list)"
    by (simp add: list_all2_conv_all_nth h_inv_task)
  ultimately show ?thesis
    using assms new by (simp add: start_checkers_tasks [OF new] hp_base_def hp_tasks_def list_all2_appendI)
qed

lemma hp_base_check: "hp_base s \<Longrightarrow> hp_base (hp_check k hl s)"
  by (auto simp: hp_base_def hp_check_def hp_tasks_def Let_def list_all2_conv_all_nth nth_list_update h_inv_step)

lemma hp_base_step:
  assumes "hp_base s"
  shows "hp_base (hp_step m l s)"
proof (cases l)
  case (PDaemon dl)
  then show ?thesis using assms hp_base_daemon [OF assms, of m dl] by simp
next
  case (PCheck k hl)
  then show ?thesis using assms by (simp add: hp_base_check)
next
  case (PEnd k)
  then show ?thesis using assms by (simp add: hp_end_def hp_base_def hp_tasks_def)
next
  case PReceive
  then show ?thesis using assms by (simp add: hp_receive_def hp_base_def hp_tasks_def split: list.split)
qed

interpretation hp_pipeline: transition_invariant hp_init "hp_next m" hp_base for m
  by unfold_locales (auto simp: hp_init_def hp_base_start hp_base_step elim!: hp_next_cases)

lemma reach_hp_run: "reach hp_init (hp_next m) s \<Longrightarrow> reach hp_init (hp_next m) (hp_run m ls s)"
  unfolding hp_run_def by (induction ls arbitrary: s) (auto intro: reach_step hp_next.intros)

section \<open>One checker, its channel, its status\<close>

text \<open>The results about a unit that are still in the channel, oldest first.\<close>

definition results_of :: "string \<Rightarrow> 'e hc_result list \<Rightarrow> bool list" where
  "results_of u q = map res_healthy (filter (\<lambda>r. res_unit_name r = u) q)"

lemma results_of_simps [simp]:
  "results_of u [] = []" "results_of u (p @ q) = results_of u p @ results_of u q"
  "results_of u (r # q) = (if res_unit_name r = u then [res_healthy r] else []) @ results_of u q"
  by (simp_all add: results_of_def)

text \<open>Nobody but the goroutine \<open>k\<close> can report on the unit any more.\<close>

definition sole_checker :: "nat \<Rightarrow> string \<Rightarrow> ('w, 'e) hp_sys \<Rightarrow> bool" where
  "sole_checker k u s \<longleftrightarrow>
     k < length (hp_tasks s) \<and> task_unit (hp_tasks s ! k) = u \<and> \<not> call_pending u (hp_ds s)
     \<and> (\<forall>j < length (hp_tasks s). j \<noteq> k \<and> task_unit (hp_tasks s ! j) = u
          \<longrightarrow> hp_ended s ! j \<or> task_checks (hp_tasks s ! j) = [])"

text \<open>
  The status, followed by the results on their way to it, never repeats a value and ends with the
  last report of the checker.
\<close>

definition in_step :: "nat \<Rightarrow> string \<Rightarrow> ('w, 'e) hp_sys \<Rightarrow> bool" where
  "in_step k u s \<longleftrightarrow>
     (\<exists>h. unit_health u (ds_daemon (hp_ds s)) = Some h
        \<and> distinct_adj (h # map Some (results_of u (hp_queue s)))
        \<and> last (h # map Some (results_of u (hp_queue s))) = last_report (hs_log (hp_checkers s ! k)))"

fun concerns :: "string \<Rightarrow> ('w, 'e) hp_label \<Rightarrow> bool" where
  "concerns u (PDaemon l) \<longleftrightarrow> label_unit l = Some u"
| "concerns u _ \<longleftrightarrow> False"

lemma followed_daemon:
  assumes "hp_base s" "sole_checker k u s" "in_step k u s" "label_unit l \<noteq> Some u" "\<not> is_result l"
  shows "sole_checker k u (start_checkers (s\<lparr>hp_ds := d_step m l (hp_ds s)\<rparr>))
    \<and> in_step k u (start_checkers (s\<lparr>hp_ds := d_step m l (hp_ds s)\<rparr>))"
proof -
  have len: "length (hp_checkers s) = length (hp_tasks s)" "length (hp_ended s) = length (hp_tasks s)"
    using assms(1) by (auto simp: hp_base_def dest: list_all2_lengthD)
  have sole: "k < length (hp_tasks s)" "\<not> call_pending u (hp_ds s)" using assms(2) by (simp_all add: sole_checker_def)
  have "untouched u (hp_ds s) (d_step m l (hp_ds s))" by (rule untouched_step [OF assms(4,5) sole(2)])
  then obtain new where new: "dm_tasks (ds_daemon (d_step m l (hp_ds s))) = hp_tasks s @ new"
    "\<forall>t \<in> set new. task_unit t \<noteq> u"
    "unit_health u (ds_daemon (d_step m l (hp_ds s))) = unit_health u (ds_daemon (hp_ds s))"
    "\<not> call_pending u (d_step m l (hp_ds s))"
    by (auto simp: untouched_def hp_tasks_def)
  have "(hp_tasks s @ new) ! j = hp_tasks s ! j \<and> (hp_ended s @ e) ! j = hp_ended s ! j"
    if "j < length (hp_tasks s)" for j e using that len by (simp add: nth_append)
  moreover have "task_unit ((hp_tasks s @ new) ! j) \<noteq> u"
    if "j < length (hp_tasks s @ new)" "\<not> j < length (hp_tasks s)" for j
    using that new(2) by (simp add: nth_append)
  ultimately show ?thesis
    using assms(2,3) new(1,3,4) sole(1) len(1)
    by (simp add: start_checkers_tasks [OF new(1) len(1)] sole_checker_def in_step_def hp_tasks_def nth_append)
      (metis le_add_diff_inverse linorder_not_le add_less_cancel_left)
qed

text \<open>What a checker sends is its newest report, and news.\<close>

lemma sends_nothing: "hs_sends hl h = [] \<Longrightarrow> last_report (hs_log (hs_step hl h)) = last_report (hs_log h)"
  by (cases hl) (auto split: if_splits option.splits prod.splits)

lemma sends_report:
  assumes "mirrors u checks h" "hs_sends hl h = r # rs"
  shows "rs = [] \<and> res_unit_name r = u \<and> last_report (hs_log (hs_step hl h)) = Some (res_healthy r)
    \<and> last_report (hs_log h) \<noteq> Some (res_healthy r)"
proof (cases hl)
  case (Report i)
  then obtain c where r: "report_status (hs_checker h) = (Some r, c)" "rs = []"
    "i < length (ck_checks (hs_checker h))" "hs_reporting h ! i"
    using assms(2) by (cases "report_status (hs_checker h)") (auto split: if_splits option.splits)
  then have "res_unit_name r = ck_unit_name (hs_checker h)" "ck_last_healthy (hs_checker h) \<noteq> Some (res_healthy r)"
    by (auto simp: report_status_def Let_def split: if_splits)
  then show ?thesis using assms(1) r Report by (simp add: mirrors_def Let_def)
qed (use assms(2) in simp)

lemma no_checks_no_sends: "mirrors u [] h \<Longrightarrow> hs_sends hl h = []"
  by (cases hl) (simp_all add: mirrors_def Let_def)

lemma distinct_adj_snoc: "distinct_adj (xs @ [y]) \<longleftrightarrow> distinct_adj xs \<and> (xs = [] \<or> last xs \<noteq> y)"
  by (induction xs rule: induct_list012) auto

lemma followed_check:
  assumes "hp_base s" "sole_checker k u s" "in_step k u s"
  shows "sole_checker k u (hp_check j hl s) \<and> in_step k u (hp_check j hl s)"
proof (cases "j < length (hp_checkers s) \<and> \<not> hp_ended s ! j
    \<and> length (hp_queue s) + length (hs_sends hl (hp_checkers s ! j)) \<le> health_ch_cap")
  case True
  let ?h = "hp_checkers s ! j" and ?t = "hp_tasks s ! j"
  let ?s = "s\<lparr>hp_checkers := (hp_checkers s)[j := hs_step hl ?h], hp_queue := hp_queue s @ hs_sends hl ?h\<rparr>"
  have step: "hp_check j hl s = ?s" using True by (simp add: hp_check_def Let_def)
  have len: "length (hp_checkers s) = length (hp_tasks s)"
    using assms(1) by (auto simp: hp_base_def dest: list_all2_lengthD)
  have m: "mirrors (task_unit ?t) (task_checks ?t) ?h"
    using assms(1) True len by (auto simp: hp_base_def list_all2_conv_all_nth h_inv_def)
  have sole: "sole_checker k u ?s" using assms(2) by (simp add: sole_checker_def hp_tasks_def)
  obtain h where h: "unit_health u (ds_daemon (hp_ds s)) = Some h"
    "distinct_adj (h # map Some (results_of u (hp_queue s)))"
    "last (h # map Some (results_of u (hp_queue s))) = last_report (hs_log (hp_checkers s ! k))"
    using assms(3) by (auto simp: in_step_def)
  have k: "k < length (hp_checkers s)" "task_unit (hp_tasks s ! k) = u"
    using assms(2) len by (simp_all add: sole_checker_def)
  have "in_step k u ?s"
  proof (cases "j = k")
    case same: True
    show ?thesis
    proof (cases "hs_sends hl ?h")
      case Nil
      then show ?thesis using h k sends_nothing [OF Nil] same by (simp add: in_step_def)
    next
      case (Cons r rs)
      let ?q = "h # map Some (results_of u (hp_queue s))"
      note r = sends_report [OF m Cons]
      have "distinct_adj (?q @ [Some (res_healthy r)])"
        unfolding distinct_adj_snoc using h r same by simp
      then show ?thesis using h(1) k r Cons same by (simp add: in_step_def)
    qed
  next
    case other: False
    have "results_of u (hs_sends hl ?h) = []"
    proof (cases "hs_sends hl ?h")
      case (Cons r rs)
      note r = sends_report [OF m Cons]
      have "task_checks ?t \<noteq> []" using no_checks_no_sends m Cons by (metis list.distinct(1))
      then have "task_unit ?t \<noteq> u" using assms(2) True other len by (auto simp: sole_checker_def)
      then show ?thesis using Cons r by simp
    qed simp
    then show ?thesis using h other by (simp add: in_step_def)
  qed
  then show ?thesis using step sole by simp
next
  case False
  then have "hp_check j hl s = s" by (auto simp: hp_check_def Let_def)
  then show ?thesis using assms by simp
qed

lemma followed_end:
  assumes "sole_checker k u s" "in_step k u s"
  shows "sole_checker k u (hp_end j s) \<and> in_step k u (hp_end j s)"
proof -
  have "(hp_ended s)[j := True] ! i" if "hp_ended s ! i" for i
    using that by (cases "j < length (hp_ended s)") (auto simp: nth_list_update list_update_beyond)
  then show ?thesis
    using assms unfolding hp_end_def sole_checker_def in_step_def hp_tasks_def
    by (cases "j < length (hp_checkers s) \<and> ctx_ended j s \<and> True \<notin> set (hs_reporting (hp_checkers s ! j))") auto
qed

lemma followed_receive:
  assumes "sole_checker k u s" "in_step k u s"
  shows "sole_checker k u (hp_receive s) \<and> in_step k u (hp_receive s)"
proof (cases "hp_queue s")
  case Nil
  then show ?thesis using assms by (simp add: hp_receive_def)
next
  case (Cons r q)
  have "sole_checker k u (hp_receive s)"
    using assms(1) Cons by (simp add: hp_receive_def sole_checker_def hp_tasks_def call_pending_def)
  moreover have "in_step k u (hp_receive s)"
    using assms(2) Cons by (auto simp: hp_receive_def in_step_def unit_health_result)
  ultimately show ?thesis ..
qed

lemma followed_step:
  assumes "hp_base s" "sole_checker k u s" "in_step k u s" "\<not> concerns u l"
  shows "sole_checker k u (hp_step m l s) \<and> in_step k u (hp_step m l s)"
proof (cases l)
  case (PDaemon dl)
  then show ?thesis using assms followed_daemon [OF assms(1-3), of dl m] by simp
next
  case (PCheck j hl)
  then show ?thesis using followed_check [OF assms(1-3)] by simp
next
  case (PEnd j)
  then show ?thesis using followed_end [OF assms(2,3)] by simp
next
  case PReceive
  then show ?thesis using followed_receive [OF assms(2,3)] by simp
qed

lemma followed_run:
  assumes "hp_base s" "sole_checker k u s" "in_step k u s" "list_all (\<lambda>l. \<not> concerns u l) ls"
  shows "hp_base (hp_run m ls s) \<and> sole_checker k u (hp_run m ls s) \<and> in_step k u (hp_run m ls s)"
  using assms unfolding hp_run_def
proof (induction ls arbitrary: s)
  case (Cons l ls)
  then show ?case using followed_step [of s k u l m] hp_base_step [of s m l] by simp
qed simp

section \<open>Properties\<close>

lemma followed_checker:
  assumes "hp_base s" "sole_checker k u s"
  shows "h_inv u (task_checks (hp_tasks s ! k)) (hp_checkers s ! k)"
  using assms by (auto simp: hp_base_def sole_checker_def list_all2_conv_all_nth)

text \<open>C14. Health monitoring from end to end: take a unit one live checker reports on, its status in step
  with that checker. Whatever the daemon, the other checkers and the event loop do in any interleaving that
  does not register or remove the unit itself, no result about it is swallowed (the next one in the
  channel differs from the status, so it is an event), and once the channel holds none and no probe is half
  recorded, the status is the verdict of the probes: unhealthy exactly when some check has failed its number of
  retries in a row, unknown only while nothing has been decided.\<close>

theorem health_status_follows_probes:
  assumes "reach hp_init (hp_next m) s" "sole_checker k u s" "results_of u (hp_queue s) = []"
    and "unit_health u (ds_daemon (hp_ds s)) = Some (last_report (hs_log (hp_checkers s ! k)))"
    and "list_all (\<lambda>l. \<not> concerns u l) ls" "t = hp_run m ls s"
    and "task_checks (hp_tasks t ! k) = checks" "\<forall>hc \<in> set checks. 1 \<le> hc_retries hc"
    and "log = hs_log (hp_checkers t ! k)" "int (length log) \<le> int64_max"
  shows "case results_of u (hp_queue t) of
      b # bs \<Rightarrow> unit_health u (ds_daemon (hp_ds t)) \<noteq> Some (Some b)
    | [] \<Rightarrow> True \<in> set (hs_reporting (hp_checkers t ! k))
        \<or> (case unit_health u (ds_daemon (hp_ds t)) of
             Some (Some b) \<Rightarrow> b = (failing checks log = [])
           | Some None \<Rightarrow> \<not> some_pass log \<and> failing checks log = []
           | None \<Rightarrow> False)"
proof -
  have "in_step k u s" using assms(3,4) by (simp add: in_step_def)
  then have t: "hp_base t" "sole_checker k u t" "in_step k u t"
    using followed_run [OF hp_pipeline.inv_reach [OF assms(1)] assms(2) _ assms(5), of m] assms(6) by simp_all
  then obtain h where h: "unit_health u (ds_daemon (hp_ds t)) = Some h"
    "distinct_adj (h # map Some (results_of u (hp_queue t)))"
    "last (h # map Some (results_of u (hp_queue t))) = last_report log"
    using assms(9) by (auto simp: in_step_def)
  show ?thesis
  proof (cases "results_of u (hp_queue t)")
    case Nil
    have "h_inv u checks (hp_checkers t ! k)" using followed_checker [OF t(1,2)] assms(7) by simp
    then have "True \<in> set (hs_reporting (hp_checkers t ! k)) \<or> settled checks log"
      using assms(9,10) by (simp add: h_inv_def)
    then show ?thesis
      using h Nil settled_verdict [OF _ assms(8), of log] by (auto split: option.splits)
  next
    case (Cons b bs)
    then show ?thesis using h by simp
  qed
qed

definition checked_web :: "nat \<Rightarrow> unit_config" where
  "checked_web retries = sample_web\<lparr>uc_health_checks := [sample_check\<lparr>hc_retries := int retries\<rparr>]\<rparr>"

definition registered_web :: "nat \<Rightarrow> (unit, string) hp_sys" where
  "registered_web retries = hp_run sample_manager
     (PDaemon (LRegister ''web.service'' (checked_web retries)) # replicate 5 (PDaemon (LCall 0))) (hp_start sample_sys)"

lemma hp_reach_sample: "reach hp_init (hp_next m) (hp_run m ls (hp_start sample_sys))"
  by (intro reach_hp_run reach_init) (use sample_sys_init in \<open>auto simp: hp_init_def\<close>)

lemmas hp_eval =
  hp_run_def hp_start_def start_checkers_def hp_check_def hp_receive_def hp_tasks_def task_checker_def
  health_ch_cap_def hs_start_def checker_new_def record_probe_def report_status_def collected_def join_errors_def
  Let_def d_eval checked_web_def sample_check_def wrap64_def sm_defs get_status_def numeral_eq_Suc

lemmas hp_receives =
  unit_health_def fresh_status_def health_changed_def notify_event_def handle_event_def should_restart_def
  new_tracker_def sample_policy_def time_before_def zero_time_def after_at_def notifier_new_def payload_of_def
  matches_filter_def emit_def set_dependents_def rs_start_def

lemma registered_web_state:
  "hp_checkers (registered_web r) = [hs_start ''web.service'' [], hs_start ''web.service'' (uc_health_checks (checked_web r))]
   \<and> hp_tasks (registered_web r)
       = [Watching ''web.service'' 0, Checking ''web.service'' (uc_health_checks (checked_web r)) 0 0]
   \<and> hp_queue (registered_web r) = [] \<and> ds_threads (hp_ds (registered_web r)) = [[]]
   \<and> unit_health ''web.service'' (ds_daemon (hp_ds (registered_web r))) = Some None"
  by (simp add: registered_web_def hp_eval unit_health_def fresh_status_def)

theorem health_status_follows_probes_witness:
  "let t = hp_run sample_manager [PCheck 1 (Tick 0 (Some ''refused'')), PDaemon (LTick 5), PCheck 1 (Tick 0 (Some ''timeout'')),
      PCheck 1 (Report 0), PReceive] (registered_web 2) in
   unit_health ''web.service'' (ds_daemon (hp_ds t)) = Some (Some False)
   \<and> failing (uc_health_checks (checked_web 2)) (hs_log (hp_checkers t ! 1)) \<noteq> []"
proof -
  let ?ls = "[PCheck 1 (Tick 0 (Some ''refused'')), PDaemon (LTick 5), PCheck 1 (Tick 0 (Some ''timeout'')),
      PCheck 1 (Report 0), PReceive] :: (unit, string) hp_label list"
  let ?t = "hp_run sample_manager ?ls (registered_web 2)"
  have "reach hp_init (hp_next sample_manager) (registered_web 2)"
    unfolding registered_web_def by (rule hp_reach_sample)
  moreover have "sole_checker 1 ''web.service'' (registered_web 2)"
    using registered_web_state [of 2] by (auto simp: sole_checker_def call_pending_def less_Suc_eq)
  moreover have "results_of ''web.service'' (hp_queue (registered_web 2)) = []"
    "unit_health ''web.service'' (ds_daemon (hp_ds (registered_web 2)))
       = Some (last_report (hs_log (hp_checkers (registered_web 2) ! 1)))"
    using registered_web_state [of 2] by (simp_all add: hs_start_def)
  moreover have t: "unit_health ''web.service'' (ds_daemon (hp_ds ?t)) = Some (Some False)" "hp_queue ?t = []"
    "True \<notin> set (hs_reporting (hp_checkers ?t ! 1))" "length (hs_log (hp_checkers ?t ! 1)) = 3"
    "task_checks (hp_tasks ?t ! 1) = uc_health_checks (checked_web 2)"
    by (simp_all add: registered_web_def hp_eval hp_receives)
  moreover have "\<forall>hc \<in> set (uc_health_checks (checked_web 2)). 1 \<le> hc_retries hc" by (simp add: checked_web_def)
  moreover have "list_all (\<lambda>l. \<not> concerns ''web.service'' l) ?ls" by simp
  ultimately show ?thesis
    using health_status_follows_probes [of sample_manager "registered_web 2" 1 "''web.service''" ?ls ?t
      "uc_health_checks (checked_web 2)" "hs_log (hp_checkers ?t ! 1)"]
    by (simp add: Let_def int64_max_def)
qed

text \<open>
  A reload takes every unit out and registers it again, and the cancelled context makes the probe in flight
  fail. The checker cannot tell that from a failed probe: with one retry it reports the unit unhealthy,
  and the event loop, which takes the result after the reload, applies it to the fresh registration. The unit
  never failed a probe of its own accord and is restarted.
\<close>

definition reload_of_web :: "(unit, string) hp_label list" where
  "reload_of_web =
     [PCheck 1 (Tick 0 None), PCheck 1 (Report 0), PReceive,
      PDaemon (LUnregister ''web.service''), PDaemon (LCall 1), PDaemon (LCall 1), PDaemon (LCall 1),
      PDaemon (LRegister ''web.service'' (checked_web 1)),
      PDaemon (LCall 2), PDaemon (LCall 2), PDaemon (LCall 2), PDaemon (LCall 2), PDaemon (LCall 2),
      PCheck 1 (Tick 0 (Some ''context canceled'')), PCheck 1 (Report 0), PReceive]"

lemma cancelled_probe_restarts_unit:
  "let t = hp_run sample_manager reload_of_web (registered_web 1) in
   unit_health ''web.service'' (ds_daemon (hp_ds t)) = Some (Some False)
   \<and> rs_jobs (dm_rs (ds_daemon (hp_ds t))) = [JSpawned ''web.service'']
   \<and> ctx_ended 1 t \<and> hs_log (hp_checkers t ! 3) = []"
  by (simp add: registered_web_def reload_of_web_def hp_eval hp_receives ctx_ended_def)

end
