(* ===== verification/SocketSupervision.thy ===== *)
theory SocketSupervision
  imports DaemonUnit ActivatorSystem
begin

text \<open>
  An activator and the daemon that supervises its backend, put together: \<open>ActivatorSystem\<close> asks for
  monitoring through \<^verbatim>\<open>HealthSupervisor\<close>, \<open>DaemonSystem\<close> provides it with \<^verbatim>\<open>Watch\<close> and
  \<^verbatim>\<open>Unwatch\<close>. The activator makes its calls one after the other, under its own lock; here they are
  queued, and one thread of the daemon makes them in order while everything else goes on, which allows
  every interleaving the lock does. Ending the monitor's context is left to the \<^verbatim>\<open>Unwatch\<close> that always
  follows it: a goroutine may notice the end of its context at any later time.
\<close>

section \<open>The composed system\<close>

record ('w, 'e) sv_sys =
  sv_act :: "'e act_sys"
  sv_ds :: "'w dsys"
  sv_queue :: "sup_call list"
  sv_thread :: "nat option"

datatype ('w, 'e) sv_label = SvAct "'e act_label" | SvDaemon "'w d_label" | SvCall

definition made_calls :: "'e act_sys \<Rightarrow> 'e act_sys \<Rightarrow> sup_call list" where
  "made_calls s t = rev (take (length (as_calls t) - length (as_calls s)) (as_calls t))"

text \<open>The calls the supervising thread still has to make.\<close>

definition thread_left :: "nat option \<Rightarrow> 'w dsys \<Rightarrow> call list" where
  "thread_left th s = (case th of None \<Rightarrow> [] | Some i \<Rightarrow> if i < length (ds_threads s) then ds_threads s ! i else [])"

definition sv_call :: "('w, 'x) manager \<Rightarrow> ('w, 'e) sv_sys \<Rightarrow> ('w, 'e) sv_sys" where
  "sv_call m s =
     (if thread_left (sv_thread s) (sv_ds s) \<noteq> [] then s
      else
        (case sv_queue s of
           [] \<Rightarrow> s
         | Watch u checks pol # q \<Rightarrow>
             s\<lparr>sv_queue := q, sv_ds := d_step m (LWatch u checks pol) (sv_ds s), sv_thread := Some (length (ds_threads (sv_ds s)))\<rparr>
         | CancelWatch u # q \<Rightarrow> s\<lparr>sv_queue := q\<rparr>
         | Unwatch u # q \<Rightarrow>
             s\<lparr>sv_queue := q, sv_ds := d_step m (LUnwatch u) (sv_ds s), sv_thread := Some (length (ds_threads (sv_ds s)))\<rparr>))"

fun sv_step :: "('w, 'x) manager \<Rightarrow> ('w, 'e) sv_label \<Rightarrow> ('w, 'e) sv_sys \<Rightarrow> ('w, 'e) sv_sys" where
  "sv_step m (SvAct l) s =
     (case act_exec l (sv_act s) of
        None \<Rightarrow> s
      | Some t \<Rightarrow> s\<lparr>sv_act := t, sv_queue := sv_queue s @ made_calls (sv_act s) t\<rparr>)"
| "sv_step m (SvDaemon l) s = s\<lparr>sv_ds := d_step m l (sv_ds s)\<rparr>"
| "sv_step m SvCall s = sv_call m s"

definition sv_run :: "('w, 'x) manager \<Rightarrow> ('w, 'e) sv_label list \<Rightarrow> ('w, 'e) sv_sys \<Rightarrow> ('w, 'e) sv_sys" where
  "sv_run m = fold (sv_step m)"

text \<open>The backend is not also a configured unit, and no other activator starts it.\<close>

fun elsewhere :: "string \<Rightarrow> ('w, 'e) sv_label \<Rightarrow> bool" where
  "elsewhere u (SvDaemon l) \<longleftrightarrow> label_unit l \<noteq> Some u"
| "elsewhere u _ \<longleftrightarrow> True"

inductive sv_next :: "('w, 'x) manager \<Rightarrow> string \<Rightarrow> ('w, 'e) sv_sys \<Rightarrow> ('w, 'e) sv_sys \<Rightarrow> bool" for m u where
  "elsewhere u l \<Longrightarrow> sv_next m u s (sv_step m l s)"

inductive_cases sv_next_cases: "sv_next m u s t"

definition sv_start :: "socket_activation_config \<Rightarrow> 'w dsys \<Rightarrow> ('w, 'e) sv_sys" where
  "sv_start cfg ds = \<lparr>sv_act = act_start cfg True, sv_ds = ds, sv_queue = [], sv_thread = None\<rparr>"

definition sv_init :: "socket_activation_config \<Rightarrow> ('w, 'e) sv_sys \<Rightarrow> bool" where
  "sv_init cfg s \<longleftrightarrow> (\<exists>ds. d_init ds \<and> s = sv_start cfg ds)"

section \<open>What the activator asks for\<close>

fun sup_effect :: "sup_call \<Rightarrow> bool \<Rightarrow> bool" where
  "sup_effect (Watch u checks pol) b \<longleftrightarrow> True"
| "sup_effect (CancelWatch u) b \<longleftrightarrow> b"
| "sup_effect (Unwatch u) b \<longleftrightarrow> False"

definition calls_of :: "unit_monitor \<Rightarrow> sup_call set" where
  "calls_of m = {Watch (um_unit m) (um_checks m) (um_policy m), CancelWatch (um_unit m), Unwatch (um_unit m)}"

definition monitor_moves :: "'e activator \<Rightarrow> sup_call list \<Rightarrow> 'e activator \<Rightarrow> bool" where
  "monitor_moves a calls a' \<longleftrightarrow>
     (case ac_monitor a of
        None \<Rightarrow> ac_monitor a' = None \<and> calls = []
      | Some m \<Rightarrow> ac_monitor a' = Some (m\<lparr>um_cancel := fold sup_effect calls (um_cancel m)\<rparr>) \<and> set calls \<subseteq> calls_of m)"

lemma monitor_same: "ac_monitor a' = ac_monitor a \<Longrightarrow> monitor_moves a [] a'"
  by (simp add: monitor_moves_def split: option.split)

lemma monitor_close: "ac_monitor (close_chan c a) = ac_monitor a"
  by (simp add: close_chan_def split: option.split)

lemma monitor_start: "monitor_moves a (snd (start_monitor a)) (fst (start_monitor a))"
  by (simp add: monitor_moves_def start_monitor_def um_start_def calls_of_def split: option.split)

lemma monitor_stop: "monitor_moves a (snd (stop_monitor a)) (fst (stop_monitor a))"
  by (auto simp: monitor_moves_def stop_monitor_def um_stop_def calls_of_def split: option.split)

lemma monitor_moves_cong:
  "ac_monitor a = ac_monitor b \<Longrightarrow> ac_monitor a' = ac_monitor b' \<Longrightarrow> monitor_moves a calls a' = monitor_moves b calls b'"
  by (simp add: monitor_moves_def split: option.split)

lemma monitor_finish:
  assumes "ensure_finish c err a = (a', calls)"
  shows "monitor_moves a calls a'"
proof (cases "err = None")
  case True
  let ?a = "a\<lparr>ac_starting := False, ac_start_err := None, ac_running := True\<rparr>"
  have "a' = close_chan c (fst (start_monitor ?a))" "calls = snd (start_monitor ?a)"
    using assms True by (auto simp: ensure_finish_def Let_def split: prod.splits)
  then show ?thesis using monitor_start [of ?a] by (simp add: monitor_moves_def monitor_close split: option.splits)
next
  case False
  then show ?thesis using assms
    by (auto simp: ensure_finish_def Let_def monitor_close intro!: monitor_same)
qed

lemma monitor_handler:
  assumes "handler_step now inp pc a = Some (pc', a', calls)"
  shows "monitor_moves a calls a'"
proof (cases pc)
  case (HFinish c err)
  then show ?thesis using assms monitor_finish
    by (auto simp: handler_step_def split: if_splits prod.splits)
qed (use assms in \<open>auto simp: handler_step_def ensure_enter_def Let_def mark_traffic_def conn_closed_def
    split: if_splits input.splits option.splits poll_next.splits prod.splits intro!: monitor_same\<close>)

lemma monitor_idle_enter: "monitor_moves a (snd (snd (idle_enter now a))) (fst (snd (idle_enter now a)))"
proof -
  let ?a = "a\<lparr>ac_stopping := True, ac_stop_wait := Some (length (ac_chans a)), ac_chans := ac_chans a @ [False]\<rparr>"
  have "monitor_moves a (snd (stop_monitor ?a)) (fst (stop_monitor ?a))"
    using monitor_stop [of ?a] by (simp add: monitor_moves_def split: option.splits)
  then show ?thesis by (simp add: idle_enter_def Let_def case_prod_unfold monitor_same)
qed

lemma monitor_idle:
  assumes "idle_step now inp pc a = Some (pc', a', calls)"
  shows "monitor_moves a calls a'"
proof (cases pc)
  case IIdle
  then show ?thesis using assms monitor_idle_enter [of a now]
    by (auto simp: idle_step_def split: if_splits prod.splits option.splits)
qed (use assms in \<open>auto simp: idle_step_def idle_stopped_def idle_release_def monitor_close
    split: if_splits input.splits option.splits intro!: monitor_same\<close>)

lemma monitor_exec:
  assumes "act_exec l s = Some t"
  shows "monitor_moves (as_act s) (made_calls s t) (as_act t)"
proof -
  have made: "made_calls s (s\<lparr>as_act := a, as_handlers := hs, as_idle := i, as_calls := rev calls @ as_calls s\<rparr>) = calls"
    for a hs i calls by (simp add: made_calls_def)
  show ?thesis
  proof (cases l)
    case (OpenAt now)
    then show ?thesis using assms by (auto simp: made_calls_def conn_opened_def intro!: monitor_same)
  next
    case (HandlerAt i now inp)
    then show ?thesis using assms by (auto simp: made_calls_def split: if_splits option.splits dest: monitor_handler)
  next
    case (IdleAt now inp)
    then show ?thesis using assms by (auto simp: made_calls_def split: option.splits dest: monitor_idle)
  qed
qed

section \<open>The protocol, for one backend\<close>

definition watch_calls :: "string \<Rightarrow> health_check list \<Rightarrow> restart_policy \<Rightarrow> nat \<Rightarrow> call list" where
  "watch_calls u checks pol c = [SmRegister u, RrRegister u pol, StartChecks u checks 0 c]"

definition unwatch_calls :: "string \<Rightarrow> nat \<Rightarrow> call list" where
  "unwatch_calls u c = [CancelCtx c, RrUnregister u, SmUnregister u]"

lemma watch_enter_calls:
  assumes "checks \<noteq> []"
  shows "fst (watch_enter u checks pol d) = watch_calls u checks pol (length (dm_ctxs d))"
    "map_of (dm_monitors (snd (watch_enter u checks pol d))) u = Some (length (dm_ctxs d))"
    "dm_registered (snd (watch_enter u checks pol d)) = dm_registered d"
  using assms by (simp_all add: watch_enter_def watch_calls_def Let_def)

lemma unwatch_enter_calls:
  "map_of (dm_monitors d) u = Some c \<Longrightarrow> fst (unwatch_enter u d) = unwatch_calls u c"
  "map_of (dm_monitors d) u = None \<Longrightarrow> unwatch_enter u d = ([], d)"
  "map_of (dm_monitors (snd (unwatch_enter u d))) u = None"
  "dm_registered (snd (unwatch_enter u d)) = dm_registered d"
  by (auto simp: unwatch_enter_def unwatch_calls_def split: option.split)

text \<open>What the calls made so far have achieved.\<close>

definition thread_ok :: "string \<Rightarrow> health_check list \<Rightarrow> restart_policy \<Rightarrow> call list \<Rightarrow> 'w daemon \<Rightarrow> bool" where
  "thread_ok u checks pol rest d \<longleftrightarrow>
     (case map_of (dm_monitors d) u of
        Some c \<Rightarrow> \<exists>k. rest = drop k (watch_calls u checks pol c) \<and> (1 \<le> k \<longrightarrow> unit_health u d \<noteq> None)
          \<and> (2 \<le> k \<longrightarrow> policy_of u d = Some pol) \<and> (3 \<le> k \<longrightarrow> Checking u checks 0 c \<in> set (dm_tasks d))
      | None \<Rightarrow> \<exists>k c. rest = drop k (unwatch_calls u c)
          \<and> (2 \<le> k \<longrightarrow> policy_of u d = None) \<and> (3 \<le> k \<longrightarrow> unit_health u d = None))"

lemma thread_ok_gone:
  assumes "map_of (dm_monitors d) u = None" "rest = drop k (unwatch_calls u c)"
    "2 \<le> k \<Longrightarrow> policy_of u d = None" "3 \<le> k \<Longrightarrow> unit_health u d = None"
  shows "thread_ok u checks pol rest d"
  using assms by (auto simp: thread_ok_def)

lemma thread_ok_there:
  assumes "map_of (dm_monitors d) u = Some c" "rest = drop k (watch_calls u checks pol c)"
    "1 \<le> k \<Longrightarrow> unit_health u d \<noteq> None" "2 \<le> k \<Longrightarrow> policy_of u d = Some pol"
    "3 \<le> k \<Longrightarrow> Checking u checks 0 c \<in> set (dm_tasks d)"
  shows "thread_ok u checks pol rest d"
  using assms by (auto simp: thread_ok_def)

lemma thread_ok_done:
  assumes "thread_ok u checks pol [] d"
  shows "case map_of (dm_monitors d) u of
      Some c \<Rightarrow> unit_health u d \<noteq> None \<and> policy_of u d = Some pol \<and> Checking u checks 0 c \<in> set (dm_tasks d)
    | None \<Rightarrow> policy_of u d = None \<and> unit_health u d = None"
  using assms by (auto simp: thread_ok_def watch_calls_def unwatch_calls_def split: option.splits)

lemma thread_ok_same:
  assumes "thread_ok u checks pol rest d" "same_unit u d e"
  shows "thread_ok u checks pol rest e"
proof (cases "map_of (dm_monitors d) u")
  case None
  then show ?thesis using assms by (auto simp: thread_ok_def same_unit_def)
next
  case (Some c)
  then show ?thesis using assms unfolding thread_ok_def same_unit_def by (simp, blast)
qed

lemma drop_Cons_cases: "c # rest = drop k [x, y, z] \<Longrightarrow>
    k = 0 \<and> c = x \<and> rest = [y, z] \<or> k = 1 \<and> c = y \<and> rest = [z] \<or> k = 2 \<and> c = z \<and> rest = []"
  by (cases k; cases "k - 1"; cases "k - 2") auto

lemma policy_own:
  assumes "rs_good d"
  shows "policy_of u (on_rs (DoRegister u pol) d) = Some pol" "policy_of u (on_rs (DoUnregister u) d) = None"
proof -
  have "rr_ok (rs_restarter (dm_rs d))" using assms by (simp add: rs_good_def rs_inv_def tr_inv_def)
  then show "policy_of u (on_rs (DoRegister u pol) d) = Some pol" "policy_of u (on_rs (DoUnregister u) d) = None"
    by (simp_all add: policy_of_def on_rs_def tracker_of_register tracker_of_unregister new_tracker_def)
qed

lemma thread_ok_call:
  assumes "thread_ok u checks pol (c # rest) d" "rs_good d"
  shows "thread_ok u checks pol rest (exec_call m c d)"
proof (cases "map_of (dm_monitors d) u")
  case None
  then obtain k c' where k: "c # rest = drop k (unwatch_calls u c')" "2 \<le> k \<longrightarrow> policy_of u d = None"
    using assms(1) by (auto simp: thread_ok_def)
  have "(c = CancelCtx c' \<and> rest = drop 1 (unwatch_calls u c')) \<or> (c = RrUnregister u \<and> rest = drop 2 (unwatch_calls u c'))
      \<or> (2 \<le> k \<and> c = SmUnregister u \<and> rest = drop 3 (unwatch_calls u c'))"
    using drop_Cons_cases [OF k(1) [unfolded unwatch_calls_def]] by (auto simp: unwatch_calls_def)
  then show ?thesis
  proof (elim disjE)
    assume "c = CancelCtx c' \<and> rest = drop 1 (unwatch_calls u c')"
    then show ?thesis using None by (intro thread_ok_gone [where k = 1 and c = c']) simp_all
  next
    assume "c = RrUnregister u \<and> rest = drop 2 (unwatch_calls u c')"
    then show ?thesis using None policy_own(2) [OF assms(2), of u]
      by (intro thread_ok_gone [where k = 2 and c = c']) simp_all
  next
    assume "2 \<le> k \<and> c = SmUnregister u \<and> rest = drop 3 (unwatch_calls u c')"
    then show ?thesis using None k(2) by (intro thread_ok_gone [where k = 3 and c = c']) simp_all
  qed
next
  case (Some c')
  then obtain k where k: "c # rest = drop k (watch_calls u checks pol c')" "1 \<le> k \<longrightarrow> unit_health u d \<noteq> None"
    "2 \<le> k \<longrightarrow> policy_of u d = Some pol"
    using assms(1) by (auto simp: thread_ok_def)
  have "(c = SmRegister u \<and> rest = drop 1 (watch_calls u checks pol c'))
      \<or> (1 \<le> k \<and> c = RrRegister u pol \<and> rest = drop 2 (watch_calls u checks pol c'))
      \<or> (2 \<le> k \<and> c = StartChecks u checks 0 c' \<and> rest = drop 3 (watch_calls u checks pol c'))"
    using drop_Cons_cases [OF k(1) [unfolded watch_calls_def]] by (auto simp: watch_calls_def)
  then show ?thesis
  proof (elim disjE)
    assume "c = SmRegister u \<and> rest = drop 1 (watch_calls u checks pol c')"
    then show ?thesis using Some by (intro thread_ok_there [where k = 1 and c = c']) simp_all
  next
    assume "1 \<le> k \<and> c = RrRegister u pol \<and> rest = drop 2 (watch_calls u checks pol c')"
    then show ?thesis using Some policy_own(1) [OF assms(2), of u pol] k(2)
      by (intro thread_ok_there [where k = 2 and c = c']) simp_all
  next
    assume "2 \<le> k \<and> c = StartChecks u checks 0 c' \<and> rest = drop 3 (watch_calls u checks pol c')"
    then show ?thesis using Some k(2,3)
      by (intro thread_ok_there [where k = 3 and c = c']) (simp_all add: unit_health_def policy_of_def)
  qed
qed

section \<open>The invariant\<close>

definition other_threads :: "string \<Rightarrow> nat option \<Rightarrow> 'w dsys \<Rightarrow> bool" where
  "other_threads u th s \<longleftrightarrow>
     (\<forall>i < length (ds_threads s). th \<noteq> Some i \<longrightarrow> (\<forall>c \<in> set (ds_threads s ! i). call_unit c \<noteq> Some u))"

definition thread_exists :: "nat option \<Rightarrow> 'w dsys \<Rightarrow> bool" where
  "thread_exists th s \<longleftrightarrow> (\<forall>i. th = Some i \<longrightarrow> i < length (ds_threads s))"

definition backend_ok :: "string \<Rightarrow> health_check list \<Rightarrow> restart_policy \<Rightarrow> nat option \<Rightarrow> 'w dsys \<Rightarrow> bool" where
  "backend_ok u checks pol th s \<longleftrightarrow>
     map_of (dm_registered (ds_daemon s)) u = None \<and> thread_exists th s \<and> other_threads u th s
     \<and> thread_ok u checks pol (thread_left th s) (ds_daemon s)"

lemma backend_ok_frame:
  assumes "backend_ok u checks pol th s" "same_unit u (ds_daemon s) (ds_daemon t)"
    "thread_exists th t" "other_threads u th t" "thread_left th t = thread_left th s"
  shows "backend_ok u checks pol th t"
  using assms thread_ok_same [OF _ assms(2)] by (auto simp: backend_ok_def same_unit_def)

lemma threads_spawn:
  assumes "thread_exists th s" "other_threads u th s" "\<And>c. c \<in> set calls \<Longrightarrow> call_unit c \<noteq> Some u"
    "ds_threads t = ds_threads s @ [calls]"
  shows "thread_exists th t" "other_threads u th t" "thread_left th t = thread_left th s"
  using assms by (auto simp: thread_exists_def other_threads_def thread_left_def nth_append less_Suc_eq split: option.split)

lemma threads_same:
  assumes "ds_threads t = ds_threads s"
  shows "thread_exists th t = thread_exists th s" "other_threads u th t = other_threads u th s"
    "thread_left th t = thread_left th s"
  using assms by (simp_all add: thread_exists_def other_threads_def thread_left_def split: option.split)

lemma backend_ok_spawn:
  assumes "backend_ok u checks pol th s" "n \<noteq> u" "same_unit u (ds_daemon s) (snd p)"
    "\<And>c. c \<in> set (fst p) \<Longrightarrow> call_unit c \<in> {None, Some n}"
  shows "backend_ok u checks pol th (ds_spawn p s)"
proof -
  have ok: "thread_exists th s" "other_threads u th s" using assms(1) by (simp_all add: backend_ok_def)
  have "\<And>c. c \<in> set (fst p) \<Longrightarrow> call_unit c \<noteq> Some u" using assms(2,4) by fastforce
  from threads_spawn [OF ok this, where t = "ds_spawn p s"] show ?thesis
    using assms(1,3) by (intro backend_ok_frame [OF assms(1)]) (simp_all add: ds_spawn_def)
qed

lemma backend_ok_call:
  assumes "backend_ok u checks pol th s" "rs_good (ds_daemon s)"
  shows "backend_ok u checks pol th (ds_call m i s)"
proof (cases "i < length (ds_threads s) \<and> ds_threads s ! i \<noteq> []")
  case True
  then obtain c cs where th: "ds_threads s ! i = c # cs" "i < length (ds_threads s)" by (metis list.exhaust)
  let ?t = "s\<lparr>ds_daemon := exec_call m c (ds_daemon s), ds_threads := (ds_threads s)[i := cs]\<rparr>"
  have step: "ds_call m i s = ?t" using th by (simp add: ds_call_def)
  have exists: "thread_exists th ?t" and other: "other_threads u th ?t"
    using assms(1) th by (auto simp: backend_ok_def thread_exists_def other_threads_def nth_list_update)
  show ?thesis
  proof (cases "th = Some i")
    case own: True
    then have "thread_left th s = c # cs" "thread_left th ?t = cs" using th by (simp_all add: thread_left_def)
    then show ?thesis using assms(1) exists other thread_ok_call [OF _ assms(2), of u checks pol c cs m]
      by (simp add: step backend_ok_def)
  next
    case False
    then have "call_unit c \<noteq> Some u" using assms(1) th by (fastforce simp: backend_ok_def other_threads_def)
    moreover have "thread_left th ?t = thread_left th s"
      using False by (cases th) (auto simp: thread_left_def nth_list_update)
    ultimately show ?thesis unfolding step
      using same_call [OF _ assms(2), of c u m] by (intro backend_ok_frame [OF assms(1) _ exists other]) simp_all
  qed
next
  case False
  then have "ds_call m i s = s" by (auto simp: ds_call_def split: list.split)
  then show ?thesis using assms(1) by simp
qed

lemma backend_ok_daemon:
  assumes "backend_ok u checks pol th s" "rs_good (ds_daemon s)" "label_unit l \<noteq> Some u"
  shows "backend_ok u checks pol th (d_step m l s)"
proof -
  note spawn = backend_ok_spawn [OF assms(1)]
  have rest: ?thesis if "ds_threads (d_step m l s) = ds_threads s" "\<And>i. l \<noteq> LCall i"
  proof -
    have "same_unit u (ds_daemon s) (ds_daemon (d_step m l s))" by (rule same_step [OF assms(3,2)]) (simp add: that(2))
    then show ?thesis
      by (rule backend_ok_frame [OF assms(1)]) (use assms(1) in \<open>simp_all add: threads_same [OF that(1)] backend_ok_def\<close>)
  qed
  show ?thesis
  proof (cases l)
    case (LCall i)
    then show ?thesis using backend_ok_call [OF assms(1,2)] by simp
  next
    case (LRegister n c)
    then show ?thesis using assms(3) spawn [OF _ registries_enter(1) enter_units(1)] by simp
  next
    case (LUnregister n)
    then show ?thesis using assms(3) spawn [OF _ registries_enter(2) enter_units(2)] by simp
  next
    case (LWatch n cs p)
    then show ?thesis using assms(3) spawn [OF _ registries_enter(3) enter_units(3)] by simp
  next
    case (LUnwatch n)
    then show ?thesis using assms(3) spawn [OF _ registries_enter(4) enter_units(4)] by simp
  qed (rule rest; simp)+
qed

text \<open>A new call of the activator: nothing of the old thread is left.\<close>

lemma other_threads_next:
  assumes "other_threads u th s" "thread_left th s = []" "ds_threads t = ds_threads s @ [calls]"
  shows "other_threads u (Some (length (ds_threads s))) t" "thread_exists (Some (length (ds_threads s))) t"
    "thread_left (Some (length (ds_threads s))) t = calls"
proof -
  have "call_unit c \<noteq> Some u" if "i < length (ds_threads s)" "c \<in> set (ds_threads s ! i)" for i c
    using that assms(1,2) by (cases "th = Some i") (auto simp: other_threads_def thread_left_def)
  then show "other_threads u (Some (length (ds_threads s))) t"
    using assms(3) by (auto simp: other_threads_def nth_append less_Suc_eq)
qed (use assms(3) in \<open>simp_all add: thread_exists_def thread_left_def\<close>)

lemma backend_ok_watch:
  assumes "backend_ok u checks pol th s" "thread_left th s = []" "checks \<noteq> []"
  shows "backend_ok u checks pol (Some (length (ds_threads s))) (d_step m (LWatch u checks pol) s)"
    "map_of (dm_monitors (ds_daemon (d_step m (LWatch u checks pol) s))) u \<noteq> None"
proof -
  let ?d = "ds_daemon s" and ?t = "d_step m (LWatch u checks pol) s"
  have t: "ds_threads ?t = ds_threads s @ [watch_calls u checks pol (length (dm_ctxs ?d))]"
    "ds_daemon ?t = snd (watch_enter u checks pol ?d)"
    using watch_enter_calls(1) [OF assms(3)] by (simp_all add: ds_spawn_def)
  have ok: "other_threads u th s" "map_of (dm_registered ?d) u = None" using assms(1) by (simp_all add: backend_ok_def)
  note fresh = other_threads_next [OF ok(1) assms(2) t(1)]
  show "backend_ok u checks pol (Some (length (ds_threads s))) ?t"
    unfolding backend_ok_def fresh(3)
    using fresh(1,2) ok(2) watch_enter_calls(2,3) [OF assms(3), of u pol ?d]
    by (simp add: t(2) thread_ok_there [where k = 0] del: d_step.simps)
  show "map_of (dm_monitors (ds_daemon ?t)) u \<noteq> None"
    using watch_enter_calls(2) [OF assms(3), of u pol ?d] by (simp add: ds_spawn_def)
qed

lemma backend_ok_unwatch:
  assumes "backend_ok u checks pol th s" "thread_left th s = []"
  shows "backend_ok u checks pol (Some (length (ds_threads s))) (d_step m (LUnwatch u) s)"
    "map_of (dm_monitors (ds_daemon (d_step m (LUnwatch u) s))) u = None"
proof -
  let ?d = "ds_daemon s" and ?t = "d_step m (LUnwatch u) s"
  have t: "ds_threads ?t = ds_threads s @ [fst (unwatch_enter u ?d)]" "ds_daemon ?t = snd (unwatch_enter u ?d)"
    by (simp_all add: ds_spawn_def)
  have ok: "other_threads u th s" "map_of (dm_registered ?d) u = None" "thread_ok u checks pol [] ?d"
    using assms by (simp_all add: backend_ok_def)
  note fresh = other_threads_next [OF ok(1) assms(2) t(1)]
  have "thread_ok u checks pol (fst (unwatch_enter u ?d)) (snd (unwatch_enter u ?d))"
  proof (cases "map_of (dm_monitors ?d) u")
    case None
    then show ?thesis using ok(3) by (simp add: unwatch_enter_calls(2))
  next
    case (Some c)
    then show ?thesis
      using unwatch_enter_calls(1) [OF Some] by (intro thread_ok_gone [where k = 0 and c = c]) (simp_all add: unwatch_enter_calls(3))
  qed
  then show "backend_ok u checks pol (Some (length (ds_threads s))) ?t"
    unfolding backend_ok_def fresh(3) using fresh(1,2) ok(2) by (simp add: t(2) unwatch_enter_calls(4) del: d_step.simps)
  show "map_of (dm_monitors (ds_daemon ?t)) u = None" by (simp add: ds_spawn_def unwatch_enter_calls(3))
qed

definition backend_policy :: "socket_activation_config \<Rightarrow> restart_policy" where
  "backend_policy cfg = (case sa_restart cfg of None \<Rightarrow> \<lparr>rp_enabled = False, rp_backoff = 0, rp_cooldown = 0\<rparr> | Some p \<Rightarrow> p)"

definition backend_monitor :: "socket_activation_config \<Rightarrow> bool \<Rightarrow> unit_monitor" where
  "backend_monitor cfg b =
     \<lparr>um_unit = sa_unit cfg, um_checks = sa_health_checks cfg, um_policy = backend_policy cfg, um_cancel = b\<rparr>"

text \<open>
  The activator's monitor is on exactly when the daemon's is, once the calls under way have been made;
  and those are the calls of this backend.
\<close>

definition in_agreement :: "socket_activation_config \<Rightarrow> sup_call list \<Rightarrow> 'e activator \<Rightarrow> 'w daemon \<Rightarrow> bool" where
  "in_agreement cfg q a d \<longleftrightarrow>
     ac_monitor a = Some (backend_monitor cfg (fold sup_effect q (map_of (dm_monitors d) (sa_unit cfg) \<noteq> None)))
     \<and> set q \<subseteq> calls_of (backend_monitor cfg True)"

definition sv_inv :: "('w, 'x) manager \<Rightarrow> socket_activation_config \<Rightarrow> ('w, 'e) sv_sys \<Rightarrow> bool" where
  "sv_inv m cfg s \<longleftrightarrow>
     reach d_init (d_next m) (sv_ds s)
     \<and> backend_ok (sa_unit cfg) (sa_health_checks cfg) (backend_policy cfg) (sv_thread s) (sv_ds s)
     \<and> in_agreement cfg (sv_queue s) (as_act (sv_act s)) (ds_daemon (sv_ds s))"

lemma sv_inv_start:
  assumes "sa_health_checks cfg \<noteq> []" "d_init ds"
  shows "sv_inv m cfg (sv_start cfg ds)"
proof -
  have d: "map_of (dm_monitors (ds_daemon ds)) u = None \<and> map_of (dm_registered (ds_daemon ds)) u = None
      \<and> unit_health u (ds_daemon ds) = None \<and> policy_of u (ds_daemon ds) = None \<and> ds_threads ds = []" for u
    using assms(2) by (auto simp: d_init_def daemon_new_def unit_health_def policy_of_def get_status_def sm_new_def
        tracker_of_def restarter_new_def set_dependents_def on_event_def)
  have "thread_ok u checks pol [] (ds_daemon ds)" for u checks pol
    using d [of u] by (intro thread_ok_gone [where k = 3 and c = 0]) (simp_all add: unwatch_calls_def)
  then have "backend_ok u checks pol None ds" for u checks pol
    using d by (simp add: backend_ok_def thread_exists_def other_threads_def thread_left_def)
  moreover have "in_agreement cfg [] (activator_new cfg True) (ds_daemon ds)"
    using assms(1) d by (simp add: in_agreement_def activator_new_def new_unit_monitor_def backend_monitor_def
        backend_policy_def)
  ultimately show ?thesis using reach_init [of d_init ds, OF assms(2)] by (simp add: sv_inv_def sv_start_def act_start_def)
qed

lemma sv_inv_call:
  assumes "sv_inv m cfg s" "sa_health_checks cfg \<noteq> []"
  shows "sv_inv m cfg (sv_call m s)"
proof (cases "thread_left (sv_thread s) (sv_ds s) = []")
  case idle: True
  let ?u = "sa_unit cfg" and ?b = "\<lambda>t. map_of (dm_monitors (ds_daemon t)) (sa_unit cfg) \<noteq> None"
  have inv: "reach d_init (d_next m) (sv_ds s)"
    "backend_ok ?u (sa_health_checks cfg) (backend_policy cfg) (sv_thread s) (sv_ds s)"
    "ac_monitor (as_act (sv_act s)) = Some (backend_monitor cfg (fold sup_effect (sv_queue s) (?b (sv_ds s))))"
    "set (sv_queue s) \<subseteq> calls_of (backend_monitor cfg True)"
    using assms(1) by (simp_all add: sv_inv_def in_agreement_def)
  show ?thesis
  proof (cases "sv_queue s")
    case Nil
    then show ?thesis using assms(1) idle by (simp add: sv_call_def)
  next
    case (Cons c q)
    have q: "set q \<subseteq> calls_of (backend_monitor cfg True)" using inv(4) Cons by simp
    have "c \<in> calls_of (backend_monitor cfg True)" using inv(4) Cons by simp
    then consider (watch) "c = Watch ?u (sa_health_checks cfg) (backend_policy cfg)"
      | (cancel) "c = CancelWatch ?u" | (unwatch) "c = Unwatch ?u"
      by (auto simp: calls_of_def backend_monitor_def)
    then show ?thesis
    proof cases
      case watch
      let ?l = "LWatch ?u (sa_health_checks cfg) (backend_policy cfg)"
      note ok = backend_ok_watch [OF inv(2) idle assms(2), of m]
      have "sv_call m s = s\<lparr>sv_queue := q, sv_ds := d_step m ?l (sv_ds s), sv_thread := Some (length (ds_threads (sv_ds s)))\<rparr>"
        using idle Cons watch by (simp add: sv_call_def)
      then show ?thesis
        using inv(3) q ok reach_step [OF inv(1) d_next.intros [of m _ ?l]] Cons watch
        by (simp add: sv_inv_def in_agreement_def del: d_step.simps)
    next
      case cancel
      then show ?thesis using idle Cons inv(1-3) q
        by (simp add: sv_call_def sv_inv_def in_agreement_def)
    next
      case unwatch
      note ok = backend_ok_unwatch [OF inv(2) idle, of m]
      have "sv_call m s = s\<lparr>sv_queue := q, sv_ds := d_step m (LUnwatch ?u) (sv_ds s), sv_thread := Some (length (ds_threads (sv_ds s)))\<rparr>"
        using idle Cons unwatch by (simp add: sv_call_def)
      then show ?thesis
        using inv(3) q ok reach_step [OF inv(1) d_next.intros [of m _ "LUnwatch ?u"]] Cons unwatch
        by (simp add: sv_inv_def in_agreement_def del: d_step.simps)
    qed
  qed
qed (use assms(1) in \<open>simp add: sv_call_def\<close>)

lemma monitor_update: "(backend_monitor cfg b)\<lparr>um_cancel := c\<rparr> = backend_monitor cfg c" "um_cancel (backend_monitor cfg b) = b"
  "calls_of (backend_monitor cfg b) =
     {Watch (sa_unit cfg) (sa_health_checks cfg) (backend_policy cfg), CancelWatch (sa_unit cfg), Unwatch (sa_unit cfg)}"
  by (simp_all add: backend_monitor_def calls_of_def)

lemma sv_inv_act:
  assumes "sv_inv m cfg s" "act_exec l (sv_act s) = Some t"
  shows "sv_inv m cfg (s\<lparr>sv_act := t, sv_queue := sv_queue s @ made_calls (sv_act s) t\<rparr>)"
  using assms(1) monitor_exec [OF assms(2)]
  by (simp add: sv_inv_def in_agreement_def monitor_moves_def monitor_update)

lemma sv_inv_daemon:
  assumes "sv_inv m cfg s" "label_unit l \<noteq> Some (sa_unit cfg)"
  shows "sv_inv m cfg (s\<lparr>sv_ds := d_step m l (sv_ds s)\<rparr>)"
proof -
  have r: "reach d_init (d_next m) (sv_ds s)" using assms(1) by (simp add: sv_inv_def)
  have good: "rs_good (ds_daemon (sv_ds s))" using daemon_sys.inv_reach [OF r] by (simp add: d_inv_def)
  have b: "backend_ok (sa_unit cfg) (sa_health_checks cfg) (backend_policy cfg) (sv_thread s) (sv_ds s)"
    using assms(1) by (simp add: sv_inv_def)
  have "map_of (dm_monitors (ds_daemon (d_step m l (sv_ds s)))) (sa_unit cfg)
      = map_of (dm_monitors (ds_daemon (sv_ds s))) (sa_unit cfg)"
  proof (cases "\<exists>i. l = LCall i")
    case True
    then show ?thesis by (auto simp: ds_call_def split: list.split)
  next
    case False
    then show ?thesis using same_step [OF assms(2) good, of m] by (auto simp: same_unit_def)
  qed
  then show ?thesis
    using assms(1) reach_step [OF r d_next.intros] backend_ok_daemon [OF b good assms(2), of m]
    by (simp add: sv_inv_def in_agreement_def)
qed

lemma sv_inv_step:
  assumes "sv_inv m cfg s" "sa_health_checks cfg \<noteq> []" "elsewhere (sa_unit cfg) l"
  shows "sv_inv m cfg (sv_step m l s)"
proof (cases l)
  case (SvAct al)
  then show ?thesis using assms(1) sv_inv_act [OF assms(1)] by (simp split: option.split)
next
  case (SvDaemon dl)
  then show ?thesis using assms(3) sv_inv_daemon [OF assms(1)] by simp
next
  case SvCall
  then show ?thesis using sv_inv_call [OF assms(1,2)] by simp
qed

interpretation supervision: transition_invariant "sv_init cfg" "sv_next m (sa_unit cfg)"
    "\<lambda>s. sa_health_checks cfg \<noteq> [] \<longrightarrow> sv_inv m cfg s" for m :: "('w, 'x) manager" and cfg
  by unfold_locales (auto simp: sv_init_def sv_inv_start sv_inv_step elim!: sv_next_cases)

lemma reach_sv_run:
  "reach init (sv_next m u) s \<Longrightarrow> list_all (elsewhere u) ls \<Longrightarrow> reach init (sv_next m u) (sv_run m ls s)"
  unfolding sv_run_def by (induction ls arbitrary: s) (auto intro: reach_step sv_next.intros)

lemma reach_act_of: "reach (sv_init cfg) (sv_next m u) s \<Longrightarrow> reach (act_init cfg True) act_next (sv_act s)"
proof (induction rule: reach.induct)
  case (reach_init s)
  then show ?case by (auto simp: sv_init_def sv_start_def act_init_def intro: reach.reach_init)
next
  case (reach_step s t)
  from reach_step.hyps(2) obtain l where "t = sv_step m l s" by (auto elim: sv_next_cases)
  moreover have "sv_act (sv_step m l s) = sv_act s \<or> act_next (sv_act s) (sv_act (sv_step m l s))"
    by (cases l) (auto simp: sv_call_def split: option.split list.split sup_call.split dest: act_exec_next)
  ultimately show ?case using reach_step.IH by (auto intro: reach.reach_step)
qed

section \<open>Properties\<close>

lemma sole_live_task:
  assumes "reach d_init (d_next m) s" "quiescent s" "map_of (dm_registered (ds_daemon s)) u = None"
  shows "map_of (dm_monitors (ds_daemon s)) u = None \<Longrightarrow> live_tasks (ds_daemon s) False u = []"
    and "map_of (dm_monitors (ds_daemon s)) u = Some c \<Longrightarrow> Checking u checks 0 c \<in> set (dm_tasks (ds_daemon s))
      \<Longrightarrow> live_tasks (ds_daemon s) False u = [Checking u checks 0 c]"
proof -
  let ?d = "ds_daemon s"
  have bound: "length (live_tasks ?d False u) \<le> (if u \<in> gm_keys (dm_monitors ?d) then 1 else 0)"
    using supervised_units_watched_once_parts(2) [OF assms(1,2), of u] assms(3) by (simp add: map_of_None_keys)
  show "live_tasks ?d False u = []" if "map_of (dm_monitors ?d) u = None"
    using bound that by (simp add: map_of_None_keys)
  show "live_tasks ?d False u = [Checking u checks 0 c]"
    if "map_of (dm_monitors ?d) u = Some c" "Checking u checks 0 c \<in> set (dm_tasks ?d)"
  proof -
    have "\<not> dm_ctxs ?d ! c"
      using ctx_invD(2) [OF d_invD(4) [OF daemon_sys.inv_reach [OF assms(1)]] that(1)] by simp
    then have "Checking u checks 0 c \<in> set (live_tasks ?d False u)" using that(2) by (simp add: live_tasks_def live_def)
    moreover have "length (live_tasks ?d False u) \<le> 1" using bound by (simp split: if_splits)
    ultimately show ?thesis by (cases "live_tasks ?d False u") auto
  qed
qed

text \<open>C15. A socket-activated backend is supervised exactly while its activator has it running and watched:
  in every interleaving of connections, idle stops, the daemon's other work and the supervisor calls,
  once the calls asked for have been made, the daemon has one live checker for the backend, with the
  entry's checks, its status, and a tracker with the entry's restart policy; and when the activator is
  not watching, none of these.\<close>

theorem backend_supervised_while_watched:
  assumes "reach (sv_init cfg) (sv_next m (sa_unit cfg)) s" "sa_health_checks cfg \<noteq> []"
    and "sv_queue s = []" "quiescent (sv_ds s)"
  shows "if watched (as_act (sv_act s))
    then ac_running (as_act (sv_act s))
      \<and> (\<exists>c. live_tasks (ds_daemon (sv_ds s)) False (sa_unit cfg) = [Checking (sa_unit cfg) (sa_health_checks cfg) 0 c])
      \<and> unit_health (sa_unit cfg) (ds_daemon (sv_ds s)) \<noteq> None
      \<and> policy_of (sa_unit cfg) (ds_daemon (sv_ds s)) = Some (backend_policy cfg)
    else live_tasks (ds_daemon (sv_ds s)) False (sa_unit cfg) = []
      \<and> unit_health (sa_unit cfg) (ds_daemon (sv_ds s)) = None
      \<and> policy_of (sa_unit cfg) (ds_daemon (sv_ds s)) = None"
proof -
  let ?u = "sa_unit cfg" and ?d = "ds_daemon (sv_ds s)"
  have inv: "sv_inv m cfg s" using supervision.inv_reach [OF assms(1)] assms(2) by blast
  have ds: "reach d_init (d_next m) (sv_ds s)" using inv by (simp add: sv_inv_def)
  have ok: "backend_ok ?u (sa_health_checks cfg) (backend_policy cfg) (sv_thread s) (sv_ds s)"
    using inv by (simp add: sv_inv_def)
  then have "thread_left (sv_thread s) (sv_ds s) = []"
    using assms(4) by (auto simp: thread_left_def quiescent_def split: option.split)
  then have "thread_ok ?u (sa_health_checks cfg) (backend_policy cfg) [] ?d" using ok by (simp add: backend_ok_def)
  note thread = thread_ok_done [OF this]
  have watched: "watched (as_act (sv_act s)) \<longleftrightarrow> map_of (dm_monitors ?d) ?u \<noteq> None"
    using inv assms(3) by (simp add: sv_inv_def in_agreement_def watched_def backend_monitor_def)
  have reg: "map_of (dm_registered ?d) ?u = None" using ok by (simp add: backend_ok_def)
  note tasks = sole_live_task [OF ds assms(4) reg]
  have running: "watched (as_act (sv_act s)) \<Longrightarrow> ac_running (as_act (sv_act s))"
    using act_invD(9) [OF act_system.inv_reach [OF reach_act_of [OF assms(1)]]] by blast
  show ?thesis
  proof (cases "map_of (dm_monitors ?d) ?u")
    case None
    then show ?thesis using watched thread tasks(1) by simp
  next
    case (Some c)
    then show ?thesis using watched thread tasks(2) [OF Some, of "sa_health_checks cfg"] running by auto
  qed
qed

definition first_supervision :: "(unit, string) sv_label list" where
  "first_supervision = map SvAct first_connection @ SvCall # replicate 3 (SvDaemon (LCall 0))"

theorem backend_supervised_while_watched_witness:
  "let s = sv_run sample_manager first_supervision (sv_start sample_listener sample_sys) in
   live_tasks (ds_daemon (sv_ds s)) False ''api.service'' \<noteq> []
   \<and> policy_of ''api.service'' (ds_daemon (sv_ds s)) = Some (backend_policy sample_listener)"
proof -
  let ?s = "sv_run sample_manager first_supervision (sv_start sample_listener sample_sys)"
  have "list_all (elsewhere ''api.service'') first_supervision"
    by (simp add: first_supervision_def first_connection_def numeral_eq_Suc)
  then have "reach (sv_init sample_listener) (sv_next sample_manager ''api.service'') ?s"
    by (intro reach_sv_run reach_init) (use sample_sys_init in \<open>auto simp: sv_init_def\<close>)
  moreover have "sv_queue ?s = [] \<and> quiescent (sv_ds ?s) \<and> watched (as_act (sv_act ?s))"
    by (simp add: sv_run_def first_supervision_def first_connection_def sv_start_def sv_call_def made_calls_def
        thread_left_def act_eval d_eval quiescent_def watched_def numeral_eq_Suc)
  moreover have "sa_unit sample_listener = ''api.service''" "sa_health_checks sample_listener \<noteq> []"
    by (simp_all add: sample_listener_def)
  ultimately show ?thesis
    using backend_supervised_while_watched [of sample_listener sample_manager ?s] by (auto simp: Let_def)
qed

end
