(* ===== verification/Cli.thy ===== *)
theory Cli
  imports DaemonSocket DaemonReload ConfigLoad
begin

text \<open>
  \<^verbatim>\<open>internal/cli\<close>: the commands that talk to the daemon, \<^verbatim>\<open>client.go\<close> and \<^verbatim>\<open>commands.go\<close>. A connection is
  a function from the request to the response, or the error of one of its steps; each command decodes
  the response's data into the type it prints. \<^verbatim>\<open>sort.Slice\<close> leaves the order of equal keys open; the
  model keeps the order they arrive in. \<^verbatim>\<open>cobra\<close> splits the command line into flags and words.
\<close>

section \<open>Decoding\<close>

text \<open>\<^verbatim>\<open>null\<close> decodes into the zero value.\<close>

fun string_of_json :: "json \<Rightarrow> string option" where
  "string_of_json (JStr s) = Some s"
| "string_of_json JNull = Some []"
| "string_of_json _ = None"

fun all_some :: "'a option list \<Rightarrow> 'a list option" where
  "all_some [] = Some []"
| "all_some (x # xs) = (case x of None \<Rightarrow> None | Some y \<Rightarrow> map_option (\<lambda>ys. y # ys) (all_some xs))"

definition list_of_json :: "(json \<Rightarrow> 'a option) \<Rightarrow> json \<Rightarrow> 'a list option" where
  "list_of_json f j = (case j of JArr js \<Rightarrow> all_some (map f js) | JNull \<Rightarrow> Some [] | _ \<Rightarrow> None)"

definition unit_status_of_json :: "json \<Rightarrow> unit_status option" where
  "unit_status_of_json j =
     (case (read_str j ''UnitName'', read_str j ''ActiveState'', read_str j ''SubState'', read_bool_ptr j ''Healthy'',
            read_int j ''RestartCount'', read_int j ''LastTransition'') of
        (Some n, Some a, Some s, Some h, Some r, Some t) \<Rightarrow>
          Some \<lparr>us_unit_name = n, us_active_state = a, us_sub_state = s, us_healthy = h,
                us_restart_count = r, us_last_transition = t\<rparr>
      | _ \<Rightarrow> None)"

definition socket_status_of_json :: "json \<Rightarrow> status option" where
  "socket_status_of_json j =
     (case (read_str j ''name'', read_str j ''unit'', read_str j ''listen'',
            Option.bind (json_field j ''protocol'') (list_of_json string_of_json), read_str j ''backend'',
            read_bool j ''running'', read_int j ''active_connections'', read_int j ''idle_seconds'') of
        (Some n, Some u, Some l, Some p, Some b, Some r, Some c, Some i) \<Rightarrow>
          Some \<lparr>st_name = n, st_unit = u, st_listen = l, st_protocol = p, st_backend = b, st_running = r,
                st_active_connections = c, st_idle = i\<rparr>
      | _ \<Rightarrow> None)"

record reply =
  ry_success :: bool
  ry_error :: string
  ry_data :: json

definition reply_of_json :: "json \<Rightarrow> reply option" where
  "reply_of_json j =
     (case (read_bool j ''success'', read_str j ''error'') of
        (Some ok, Some e) \<Rightarrow>
          Some \<lparr>ry_success = ok, ry_error = e,
                ry_data = (case json_field j ''data'' of None \<Rightarrow> JNull | Some d \<Rightarrow> d)\<rparr>
      | _ \<Rightarrow> None)"

section \<open>Text\<close>

definition show_int :: "int \<Rightarrow> string" where
  "show_int n = (if n < 0 then CHR ''-'' # show_nat (nat (- n)) else show_nat (nat n))"

text \<open>
  \<^verbatim>\<open>text/tabwriter\<close> with padding 2: every cell but the last of a row is filled up to two more than the
  widest cell of its column. The rows of a table have the same number of cells.
\<close>

definition column_width :: "string list list \<Rightarrow> nat \<Rightarrow> nat" where
  "column_width rows i = foldr (\<lambda>r w. max (length (r ! i)) w) rows 0 + 2"

definition align_row :: "string list list \<Rightarrow> string list \<Rightarrow> string" where
  "align_row rows r =
     concat (map (\<lambda>i. r ! i @ replicate (column_width rows i - length (r ! i)) CHR '' '') [0..<length r - 1]) @
     last r @ [newline]"

definition tabulate :: "string list list \<Rightarrow> string" where
  "tabulate rows = concat (map (align_row rows) rows)"

text \<open>\<^verbatim>\<open>Duration.Round(time.Second).String()\<close> of a duration that is not negative.\<close>

definition show_seconds :: "duration \<Rightarrow> string" where
  "show_seconds d =
     (let n = (d + second div 2) div second; h = n div 3600; mi = n div 60 mod 60; s = n mod 60 in
      (if h > 0 then show_int h @ ''h'' else []) @
      (if n div 60 > 0 then show_int mi @ ''m'' else []) @ show_int s @ ''s'')"

fun join_comma :: "string list \<Rightarrow> string" where
  "join_comma [] = []"
| "join_comma [x] = x"
| "join_comma (x # xs) = x @ '','' @ join_comma xs"

section \<open>Printing\<close>

definition print_unit_list :: "json \<Rightarrow> string option" where
  "print_unit_list data =
     map_option (\<lambda>units. concat (map (\<lambda>n. n @ [newline]) (sort units))) (list_of_json string_of_json data)"

definition health_text :: "bool option \<Rightarrow> string" where
  "health_text h = (case h of None \<Rightarrow> ''n/a'' | Some True \<Rightarrow> ''true'' | Some False \<Rightarrow> ''false'')"

definition unit_rows :: "unit_status \<Rightarrow> string list list" where
  "unit_rows s =
     [[''Unit:'', us_unit_name s], [''State:'', us_active_state s @ '' ('' @ us_sub_state s @ '')''],
      [''Healthy:'', health_text (us_healthy s)], [''Restarts:'', show_int (us_restart_count s)]] @
     (if us_last_transition s \<noteq> zero_time then [[''Last Transition:'', format_datetime (us_last_transition s)]] else [])"

definition print_unit_status :: "json \<Rightarrow> string option" where
  "print_unit_status data = map_option (\<lambda>s. tabulate (unit_rows s)) (unit_status_of_json data)"

definition status_row :: "unit_status \<Rightarrow> string list" where
  "status_row s =
     [us_unit_name s, us_active_state s @ ''/'' @ us_sub_state s, health_text (us_healthy s), show_int (us_restart_count s)]"

definition status_rows :: "unit_status list \<Rightarrow> string list list" where
  "status_rows ss = [''UNIT'', ''STATE'', ''HEALTHY'', ''RESTARTS''] # map status_row (sort_key us_unit_name ss)"

definition print_all_statuses :: "json \<Rightarrow> string option" where
  "print_all_statuses data = map_option (\<lambda>ss. tabulate (status_rows ss)) (list_of_json unit_status_of_json data)"

definition socket_row :: "status \<Rightarrow> string list" where
  "socket_row s =
     [st_unit s, st_listen s, join_comma (st_protocol s), st_backend s,
      (if st_running s then ''running'' else ''stopped''), show_int (st_active_connections s),
      (if st_running s \<and> st_active_connections s = 0 then show_seconds (st_idle s) else ''-'')]"

definition socket_rows :: "status list \<Rightarrow> string list list" where
  "socket_rows ss =
     [''UNIT'', ''LISTEN'', ''PROTOCOL'', ''BACKEND'', ''STATE'', ''CONNS'', ''IDLE'']
       # map socket_row (sort_key st_unit ss)"

definition print_socket_statuses :: "json \<Rightarrow> string option" where
  "print_socket_statuses data = map_option (\<lambda>ss. tabulate (socket_rows ss)) (list_of_json socket_status_of_json data)"

section \<open>Commands\<close>

datatype 'x cli_error =
  ConnectionError 'x
| ReadingResponse
| DaemonError string
| BadData

definition send_request :: "(json \<Rightarrow> 'x + json) \<Rightarrow> request \<Rightarrow> 'x cli_error + reply" where
  "send_request conn r =
     (case conn (json_of_request r) of
        Inl e \<Rightarrow> Inl (ConnectionError e)
      | Inr j \<Rightarrow> (case reply_of_json j of None \<Rightarrow> Inl ReadingResponse | Some resp \<Rightarrow> Inr resp))"

definition successful :: "reply \<Rightarrow> 'x cli_error + json" where
  "successful resp = (if \<not> ry_success resp then Inl (DaemonError (ry_error resp)) else Inr (ry_data resp))"

definition printed :: "string option \<Rightarrow> 'x cli_error + string" where
  "printed r = (case r of None \<Rightarrow> Inl BadData | Some s \<Rightarrow> Inr s)"

definition cli_list :: "(json \<Rightarrow> 'x + json) \<Rightarrow> 'x cli_error + string" where
  "cli_list conn =
     bind_err (send_request conn \<lparr>rq_command = ''list'', rq_unit_name = []\<rparr>) (\<lambda>resp.
     bind_err (successful resp) (\<lambda>data. printed (print_unit_list data)))"

definition cli_status :: "(json \<Rightarrow> 'x + json) \<Rightarrow> string list \<Rightarrow> 'x cli_error + string" where
  "cli_status conn args =
     (let r = \<lparr>rq_command = ''status'', rq_unit_name = (case args of [] \<Rightarrow> [] | a # _ \<Rightarrow> a)\<rparr> in
      bind_err (send_request conn r) (\<lambda>resp.
      bind_err (successful resp) (\<lambda>data.
        printed (if rq_unit_name r \<noteq> [] then print_unit_status data else print_all_statuses data))))"

definition cli_sockets :: "(json \<Rightarrow> 'x + json) \<Rightarrow> 'x cli_error + string" where
  "cli_sockets conn =
     bind_err (send_request conn \<lparr>rq_command = ''sockets'', rq_unit_name = []\<rparr>) (\<lambda>resp.
     bind_err (successful resp) (\<lambda>data. printed (print_socket_statuses data)))"

definition send_unit_command :: "(json \<Rightarrow> 'x + json) \<Rightarrow> string \<Rightarrow> string \<Rightarrow> 'x cli_error + string" where
  "send_unit_command conn command unit =
     bind_err (send_request conn \<lparr>rq_command = command, rq_unit_name = unit\<rparr>) (\<lambda>resp.
     bind_err (successful resp) (\<lambda>data. Inr (command @ '': '' @ unit @ [newline])))"

definition cli_start :: "(json \<Rightarrow> 'x + json) \<Rightarrow> string \<Rightarrow> 'x cli_error + string" where
  "cli_start conn unit = send_unit_command conn ''start'' unit"

definition cli_stop :: "(json \<Rightarrow> 'x + json) \<Rightarrow> string \<Rightarrow> 'x cli_error + string" where
  "cli_stop conn unit = send_unit_command conn ''stop'' unit"

definition cli_restart :: "(json \<Rightarrow> 'x + json) \<Rightarrow> string \<Rightarrow> 'x cli_error + string" where
  "cli_restart conn unit = send_unit_command conn ''restart'' unit"

definition cli_check :: "load_env \<Rightarrow> string \<Rightarrow> load_error option" where
  "cli_check env path = (case load env path of Inl e \<Rightarrow> Some e | Inr cfg \<Rightarrow> None)"

section \<open>The root command\<close>

text \<open>
  \<^verbatim>\<open>cobra\<close> separates the flags from the words and hands the words after the command's name to it, if
  their number passes the command's \<^verbatim>\<open>Args\<close>; a command without \<^verbatim>\<open>Args\<close> takes any. A flag
  not given has its default. Without a command the usage is printed. \<open>RunDaemon\<close> is the call of
  \<^verbatim>\<open>Run\<close>, which is \<open>daemon_start\<close> and then the event loop.
\<close>

record cli_flags =
  fl_config :: "string option"
  fl_socket :: "string option"
  fl_dry_run :: "bool option"

definition config_path :: "cli_flags \<Rightarrow> string" where
  "config_path fl = (case fl_config fl of None \<Rightarrow> ''/etc/systemd-supervisord/config.yaml'' | Some p \<Rightarrow> p)"

definition socket_path :: "cli_flags \<Rightarrow> string" where
  "socket_path fl = (case fl_socket fl of None \<Rightarrow> ''/var/run/systemd-supervisord.socket'' | Some p \<Rightarrow> p)"

datatype cli_outcome = Usage | Printed string | ConfigValid | RunDaemon string bool

datatype 'x command_error = UnknownCommand string | WrongArgs string nat | CommandFailed "'x cli_error" | ConfigInvalid load_error

definition run_command :: "cli_flags \<Rightarrow> cli_outcome" where
  "run_command fl = RunDaemon (config_path fl) (case fl_dry_run fl of None \<Rightarrow> False | Some b \<Rightarrow> b)"

text \<open>The commands in the order they are added, each with the bound its \<^verbatim>\<open>Args\<close> puts on the words.\<close>

definition args_ok :: "string \<Rightarrow> (nat \<Rightarrow> bool) option" where
  "args_ok = map_of
     [(''run'', \<lambda>n. True), (''list'', \<lambda>n. True), (''status'', \<lambda>n. n \<le> 1), (''sockets'', \<lambda>n. True),
      (''start'', \<lambda>n. n = 1), (''stop'', \<lambda>n. n = 1), (''restart'', \<lambda>n. n = 1), (''check'', \<lambda>n. True)]"

definition printing :: "'x cli_error + string \<Rightarrow> 'x command_error + cli_outcome" where
  "printing r = (case r of Inl e \<Rightarrow> Inl (CommandFailed e) | Inr out \<Rightarrow> Inr (Printed out))"

definition root_command ::
  "(string \<Rightarrow> json \<Rightarrow> 'x + json) \<Rightarrow> load_env \<Rightarrow> cli_flags \<Rightarrow> string list \<Rightarrow> 'x command_error + cli_outcome" where
  "root_command dial env fl words =
     (case words of
        [] \<Rightarrow> Inr Usage
      | name # args \<Rightarrow>
          (let conn = dial (socket_path fl) in
           case args_ok name of
             None \<Rightarrow> Inl (UnknownCommand name)
           | Some ok \<Rightarrow>
               if \<not> ok (length args) then Inl (WrongArgs name (length args))
               else if name = ''run'' then Inr (run_command fl)
               else if name = ''list'' then printing (cli_list conn)
               else if name = ''status'' then printing (cli_status conn args)
               else if name = ''sockets'' then printing (cli_sockets conn)
               else if name = ''start'' then printing (cli_start conn (hd args))
               else if name = ''stop'' then printing (cli_stop conn (hd args))
               else if name = ''restart'' then printing (cli_restart conn (hd args))
               else
                 (case cli_check env (config_path fl) of
                    Some e \<Rightarrow> Inl (ConfigInvalid e) | None \<Rightarrow> Inr ConfigValid)))"

text \<open>\<^verbatim>\<open>main\<close>: the exit status.\<close>

definition exit_status :: "'x command_error + cli_outcome \<Rightarrow> nat" where
  "exit_status r = (case r of Inl e \<Rightarrow> 1 | Inr out \<Rightarrow> 0)"

text \<open>
  A command that acts on a unit names exactly one, and goes to the socket of the flags; nothing is sent
  for any other number of words (the result does not depend on the connection).
\<close>

lemma unit_commands_name_one_unit:
  assumes "name \<in> {''start'', ''stop'', ''restart''}"
  shows "root_command dial env fl (name # args)
    = (case args of [unit] \<Rightarrow> printing (send_unit_command (dial (socket_path fl)) name unit)
       | _ \<Rightarrow> Inl (WrongArgs name (length args)))"
  using assms by (auto simp: root_command_def args_ok_def cli_start_def cli_stop_def cli_restart_def
      split: list.split)

lemma check_exits_by_load:
  "exit_status (root_command dial env fl [''check'']) = (case load env (config_path fl) of Inl e \<Rightarrow> 1 | Inr cfg \<Rightarrow> 0)"
  by (simp add: exit_status_def root_command_def args_ok_def cli_check_def split: sum.split)

section \<open>Round trips\<close>

lemmas read_defs = read_str_def read_bool_ptr_def read_bool_def read_int_def str_field_def omit_empty_str_def

lemma request_round_trip: "request_of_json (json_of_request r) = Some r"
  by (cases r) (simp add: request_of_json_def json_of_request_def read_defs)

lemma unit_status_round_trip: "unit_status_of_json (json_of_unit_status s) = Some s"
  by (cases s) (simp add: unit_status_of_json_def json_of_unit_status_def json_of_bool_ptr_def read_defs split: option.split)

lemma all_some_map: "(\<And>x. x \<in> set xs \<Longrightarrow> f (g x) = Some x) \<Longrightarrow> all_some (map (f \<circ> g) xs) = Some xs"
  by (induction xs) simp_all

lemma list_round_trip: "(\<And>x. f (g x) = Some x) \<Longrightarrow> list_of_json f (JArr (map g xs)) = Some xs"
  using all_some_map [of xs f g] by (simp add: list_of_json_def)

lemma socket_status_round_trip: "socket_status_of_json (json_of_socket_status s) = Some s"
proof -
  have "list_of_json string_of_json (JArr (map JStr ps)) = Some ps" for ps
    by (rule list_round_trip) simp
  then show ?thesis
    by (cases s) (simp add: socket_status_of_json_def json_of_socket_status_def read_defs)
qed

lemma reply_round_trip:
  "reply_of_json (json_of_response r) =
     Some \<lparr>ry_success = rs_success r, ry_error = rs_error r, ry_data = json_of_payload_data (rs_data r)\<rparr>"
  by (cases r) (auto simp: reply_of_json_def json_of_response_def read_defs)

text \<open>The connection to a daemon in a given state.\<close>

definition daemon_conn ::
  "('w, 'e) manager \<Rightarrow> ('e \<Rightarrow> string) \<Rightarrow> 'y activator list option \<Rightarrow> 'w daemon \<Rightarrow> json \<Rightarrow> 'x + json" where
  "daemon_conn m err_text sockets d j = Inr (fst (handle_connection m err_text sockets (Some j) d))"

lemma send_to_daemon:
  "send_request (daemon_conn m err_text sockets d) r =
     (let resp = fst (process_request m err_text sockets r d) in
      Inr \<lparr>ry_success = rs_success resp, ry_error = rs_error resp, ry_data = json_of_payload_data (rs_data resp)\<rparr>)"
  by (simp add: send_request_def daemon_conn_def handle_connection_def request_round_trip reply_round_trip Let_def
      split: prod.split)

lemmas cli_simps =
  send_to_daemon process_request_def successful_def printed_def ok_response_def error_response_def Let_def

text \<open>C30. The command line shows what the daemon holds, across the JSON of the control socket: \<^verbatim>\<open>list\<close> the
  registered units in order, \<^verbatim>\<open>status\<close> every status held, by unit, or the one asked for or the daemon's
  refusal, \<^verbatim>\<open>sockets\<close> every listener's state by unit. No answer of the daemon is misread.\<close>

theorem cli_shows_daemon_state:
  "cli_list (daemon_conn m err_text sockets d :: json \<Rightarrow> 'x + json) =
     Inr (concat (map (\<lambda>n. n @ [newline]) (sort (map fst (dm_registered d)))))
   \<and> cli_status (daemon_conn m err_text sockets d :: json \<Rightarrow> 'x + json) [] = Inr (tabulate (status_rows (all_statuses (rs_sm (dm_rs d)))))
   \<and> (u \<noteq> [] \<longrightarrow> cli_status (daemon_conn m err_text sockets d :: json \<Rightarrow> 'x + json) [u] =
        (case get_status (rs_sm (dm_rs d)) u of
           None \<Rightarrow> Inl (DaemonError (''unit '' @ u @ '' not found''))
         | Some s \<Rightarrow> Inr (tabulate (unit_rows s))))
   \<and> cli_sockets (daemon_conn m err_text sockets d :: json \<Rightarrow> 'x + json) =
        Inr (tabulate (socket_rows (case sockets of None \<Rightarrow> [] | Some as \<Rightarrow> statuses (rs_now (dm_rs d)) as)))"
proof (intro conjI impI)
  have units: "list_of_json string_of_json (JArr (map JStr ns)) = Some ns" for ns
    by (rule list_round_trip) simp
  have sts: "list_of_json unit_status_of_json (JArr (map json_of_unit_status ss)) = Some ss" for ss
    by (rule list_round_trip) (rule unit_status_round_trip)
  have socks: "list_of_json socket_status_of_json (JArr (map json_of_socket_status ss)) = Some ss" for ss
    by (rule list_round_trip) (rule socket_status_round_trip)
  show "cli_list (daemon_conn m err_text sockets d) =
     Inr (concat (map (\<lambda>n. n @ [newline]) (sort (map fst (dm_registered d)))))"
    by (simp add: cli_list_def cli_simps print_unit_list_def units del: map_map)
  show "cli_status (daemon_conn m err_text sockets d) [] = Inr (tabulate (status_rows (all_statuses (rs_sm (dm_rs d)))))"
    by (simp add: cli_status_def cli_simps print_all_statuses_def sts del: map_map)
  show "cli_status (daemon_conn m err_text sockets d) [u] =
        (case get_status (rs_sm (dm_rs d)) u of
           None \<Rightarrow> Inl (DaemonError (''unit '' @ u @ '' not found''))
         | Some s \<Rightarrow> Inr (tabulate (unit_rows s)))" if "u \<noteq> []"
    using that by (simp add: cli_status_def cli_simps print_unit_status_def unit_status_round_trip split: option.split)
  show "cli_sockets (daemon_conn m err_text sockets d) =
        Inr (tabulate (socket_rows (case sockets of None \<Rightarrow> [] | Some as \<Rightarrow> statuses (rs_now (dm_rs d)) as)))"
    using socks [of "[]"]
    by (simp add: cli_sockets_def cli_simps print_socket_statuses_def socks del: map_map split: option.split)
qed

theorem cli_shows_daemon_state_witness:
  "cli_status (daemon_conn sample_manager id (None :: unit activator list option) sample_daemon :: json \<Rightarrow> nat + json) [''web'']
     = Inl (DaemonError ''unit web not found'')"
proof -
  have "get_status (rs_sm (dm_rs sample_daemon)) ''web'' = None"
    by (simp add: sample_daemon_def daemon_new_def get_status_def sm_new_def on_event_def)
  then show ?thesis
    using cli_shows_daemon_state [where 'x = nat and m = sample_manager and err_text = id
        and sockets = "None :: unit activator list option" and d = sample_daemon and u = "''web''"] by simp
qed

text \<open>What a unit command does to the system and tells its user: the manager's operation on the unit the
  daemon performs for it, and the operation's error in its own words.\<close>

definition unit_outcome :: "('e \<Rightarrow> string) \<Rightarrow> string \<Rightarrow> string \<Rightarrow> 'e option \<Rightarrow> 'x cli_error + string" where
  "unit_outcome err_text command unit r =
     (case r of
        None \<Rightarrow> Inr (command @ '': '' @ unit @ [newline])
      | Some e \<Rightarrow> Inl (DaemonError (err_text e)))"

lemma unit_command_outcome:
  assumes "process_request m err_text sockets \<lparr>rq_command = c, rq_unit_name = u\<rparr> d = unit_action err_text act u d" "u \<noteq> []"
  shows "send_unit_command (daemon_conn m err_text sockets d) c u = unit_outcome err_text c u (fst (act u (dm_world d)))"
  using assms(2)
  by (auto simp: send_unit_command_def send_to_daemon assms(1) unit_action_def successful_def unit_outcome_def
      ok_response_def error_response_def Let_def split: option.split prod.split)

theorem cli_unit_commands:
  assumes "u \<noteq> []"
  shows "cli_start (daemon_conn m err_text sockets d) u = unit_outcome err_text ''start'' u (fst (mg_start m u (dm_world d)))
    \<and> cli_stop (daemon_conn m err_text sockets d) u = unit_outcome err_text ''stop'' u (fst (mg_stop m u (dm_world d)))
    \<and> cli_restart (daemon_conn m err_text sockets d) u = unit_outcome err_text ''restart'' u (fst (mg_restart m u (dm_world d)))"
  unfolding cli_start_def cli_stop_def cli_restart_def
  by (intro conjI unit_command_outcome assms) (simp_all add: process_request_def)

end
