(* ===== verification/Spec2Isabelle.thy ===== *)
theory Spec2Isabelle
  imports ConfigLoad ConfigOrder EventDelivery RestarterLiveness HealthChecker LoadedChecks ActivatorIdle
    UdpProxy Relay Systemd Notify HttpHealth DaemonReload DaemonCascade DaemonRun HealthPipeline
    SocketSupervision DaemonSocket Cli
begin

text \<open>
  \<^bold>\<open>systemd-supervisord, verified.\<close> The program watches systemd units, restarts the failing ones
  with a backoff, checks their health, starts backends on demand behind a proxy, and reports over
  HTTP, webhooks and a control socket. This development models its Go code (\<^verbatim>\<open>internal/\<close>) in HOL,
  definition by definition, and proves what each part promises. The manifest maps every definition to
  its lines.

  \<^bold>\<open>Parts and theories.\<close>
  \<^item> \<^verbatim>\<open>Prelude\<close>, \<^verbatim>\<open>Json\<close>: Go's strings, 64-bit durations (\<open>wrap64\<close>, saturating
    \<open>time_sub\<close>), maps as association lists whose order is the order of a \<^verbatim>\<open>range\<close>, errors as
    sums, JSON values; the locales \<open>transition_invariant\<close> (an inductive invariant holds in every reachable
    state), \<open>progress\<close> (a rank that some allowed step lowers: the goal can always be reached) and
    \<open>registry\<close> (register, unregister, look up), each interpreted by the components that provide it.
  \<^item> \<^verbatim>\<open>Config\<close>, \<^verbatim>\<open>ConfigParse\<close>, \<^verbatim>\<open>ConfigDefaults\<close>, \<^verbatim>\<open>ConfigDeps\<close>, \<^verbatim>\<open>ConfigOrder\<close>,
    \<^verbatim>\<open>ConfigLoad\<close>: \<^verbatim>\<open>config/config.go\<close>. The structs, the walks over the YAML tree, defaults and
    validation, cycle detection and dependency order, and \<^verbatim>\<open>Load\<close>. A loaded configuration is well formed;
    the cycle check decides acyclicity; the order is topological. \<^verbatim>\<open>LoadedChecks\<close> follows the health
    checks from the file to the probes: what loads can be run.
  \<^item> \<^verbatim>\<open>StateManager\<close>, \<^verbatim>\<open>EventDelivery\<close>: \<^verbatim>\<open>statemanager/\<close>. The statuses and the events, and
    the calls of the handlers interleaved with other callers' updates, since they are made after the
    mutex is released; the events are exactly the changes, their order between callers is open.
  \<^item> \<^verbatim>\<open>Restarter\<close>, \<^verbatim>\<open>RestarterLiveness\<close>: \<^verbatim>\<open>restarter/restarter.go\<close>. Trackers in a store (the
    goroutines keep pointers), the restart goroutines as jobs that advance one critical section at a time.
    The history satisfies a contract over a ghost log (\<open>log_ok\<close>), in every interleaving: its entries
    carry their goroutine, and each restart is held against its own decision and its own backoff. Under a
    fair schedule every goroutine ends.
  \<^item> \<^verbatim>\<open>HealthChecker\<close>: \<^verbatim>\<open>healthcheck/checker.go\<close>. The probes over a network environment and the
    checker's two critical sections interleaved; reports are the true changes of the health.
  \<^item> \<^verbatim>\<open>Activator\<close>, \<^verbatim>\<open>ActivatorSystem\<close>, \<^verbatim>\<open>ActivatorLiveness\<close>, \<^verbatim>\<open>ActivatorIdle\<close>: \<^verbatim>\<open>socketactivation/\<close> (\<^verbatim>\<open>activator.go\<close>, \<^verbatim>\<open>health.go\<close>,
    \<^verbatim>\<open>monitor.go\<close>, \<^verbatim>\<open>status.go\<close>, \<^verbatim>\<open>manager.go\<close>). Connection handlers and the idle loop as program
    counters over one activator; a connection is relayed only to a running backend, and no handler waits
    on a channel nobody will close, and from every state some continuation brings the activator to rest;
    an idle stop begins exactly when the connections and the traffic of the run say so, and a refused one
    leaves the backend unmonitored.
  \<^item> \<^verbatim>\<open>UdpProxy\<close>: \<^verbatim>\<open>socketactivation/udp.go\<close>. The read, reply and expiry loops over a heap of sessions; a
    session is a connection of \<^verbatim>\<open>ActivatorSystem\<close>, from its opening to its one close.
  \<^item> \<^verbatim>\<open>Relay\<close>: \<^verbatim>\<open>socketactivation/proxy.go\<close>. The copy loop as a partial function (\<open>None\<close> is a loop
    that never returns), and when it returns.
  \<^item> \<^verbatim>\<open>Systemd\<close>: \<^verbatim>\<open>systemd/\<close>. The manager interface as a record of functions over the outside world, its
    systemctl, D-Bus and dry-run back ends, the watch loops and the watchdog. The locale
    \<open>inert_manager\<close> is the contract of a manager that acts on nothing, interpreted by the dry run.
  \<^item> \<^verbatim>\<open>Notify\<close>, \<^verbatim>\<open>HttpHealth\<close>: \<^verbatim>\<open>notify/notify.go\<close>, \<^verbatim>\<open>httphealth/server.go\<close>. The deliveries of an
    event and the environment the processes read; the handlers and what the aggregate means.
  \<^item> \<^verbatim>\<open>Daemon\<close>, \<^verbatim>\<open>DaemonReload\<close>, \<^verbatim>\<open>DaemonCascade\<close>, \<^verbatim>\<open>DaemonSystem\<close>, \<^verbatim>\<open>DaemonRun\<close>: \<^verbatim>\<open>daemon/daemon.go\<close>. The
    registries, contexts and goroutines of the supervised units; start-up, discovery and reload, refined to
    a map from units to their criticality (\<open>supervised\<close>, an instance of \<open>registry\<close>); the
    dependents; every interleaving of registrations, monitors and events, the outside world changing on
    its own; and the daemon as \<^verbatim>\<open>Run\<close> drives it, its operations as functions, which is one of these
    interleavings. A restart goroutine's manager calls act on the outside world (\<open>job_step\<close>), through the
    manager the restarter was given (\<open>wire\<close>).
  \<^item> \<^verbatim>\<open>DaemonUnit\<close>, \<^verbatim>\<open>HealthPipeline\<close>, \<^verbatim>\<open>SocketSupervision\<close>: the daemon composed with the
    checkers through \<^verbatim>\<open>healthCh\<close> (a queue of 100 results), and with an activator through
    \<^verbatim>\<open>HealthSupervisor\<close>. \<open>DaemonUnit\<close> follows one unit through the steps that do not concern it. The
    status follows the probes; a backend is supervised while its activator watches it; and a probe that
    the reload itself cancelled restarts the unit.
  \<^item> \<^verbatim>\<open>DaemonSocket\<close>, \<^verbatim>\<open>Cli\<close>: \<^verbatim>\<open>daemon/socket.go\<close>, \<^verbatim>\<open>cli/\<close>. Requests, responses and their JSON;
    taking the control socket; the commands, what they print and the exit status.

  \<^bold>\<open>How the parts meet.\<close> The daemon (\<open>daemon\<close>) contains the restarter's state (\<open>dm_rs\<close>), which
  contains the state manager (\<open>rs_sm\<close>): \<open>state_changed\<close> and \<open>health_changed\<close> update the latter
  and \<open>dispatch\<close> its events to the notifier and to the restarter. \<open>wire\<close> says which manager the daemon,
  the restarter and the activators call. This theory ends with the properties that need several parts:
  the dry run and the health endpoint.

  \<^bold>\<open>Concurrency.\<close> A step is one critical section, one call into another component, or one answer of the
  outside world. The invariants (\<open>act_inv\<close>, \<open>rs_inv\<close>, \<open>d_inv\<close>, \<open>udp_inv\<close>,
  \<open>hp_base\<close>, \<open>sv_inv\<close>) are inductive over these steps. The daemon's model lets any number of operations
  be in progress, more than the program runs at once. One thing is coarser there than in the code: a
  change of a status and the calls of its two handlers are one step of the daemon. \<open>EventDelivery\<close> has
  them apart, and what that opens up is recorded there.

  \<^bold>\<open>Termination and bounds.\<close> No definition needs fuel: the graph walks terminate by the number of
  unvisited nodes, the copy loop is a partial function whose domain is characterised, and the loops that
  never end (watching, polling, serving) are step relations or functions of what they receive.
  Durations wrap at 64 bits where the code multiplies or adds them.

  \<^bold>\<open>Parameters.\<close> The YAML decoder, the struct validator, the regular expressions, the network and the
  processes, systemd and the D-Bus client, and the file system are environments: functions the
  definitions take. Non-ASCII text is upper-cased and trimmed as ASCII; idle times are durations where the
  code passes a float of seconds; an instant travels through JSON as a number.

  In \<open>SocketSupervision\<close> and \<open>ActivatorSystem\<close> the unit controller's answers are inputs; that its calls
  go to the activators' manager is part of \<open>DaemonRun\<close>.

  \<^bold>\<open>Not modelled.\<close> The wiring of contexts to a process exit, logging, \<^verbatim>\<open>cobra\<close>'s splitting of
  the command line into flags and words, the accept loops and shutdown of the HTTP server and the
  control socket, which only pass what \<^verbatim>\<open>net\<close> returns to the functions modelled here.
\<close>

section \<open>Across the components\<close>

text \<open>In dry-run mode the manager's actions are inert, whoever asks for them.\<close>

lemma unit_action_inert:
  assumes "\<And>u w. act u w = (None, w)"
  shows "dm_world (snd (unit_action err_text act unit d)) = dm_world d"
  by (simp add: unit_action_def assms)

lemma check_timer_inert: "check_timer (dry_run_manager real) now u w = w"
  by (simp add: check_timer_def dry_run.restart_inert split: sum.split)

lemma check_timers_inert: "dm_world (check_timers (dry_run_manager real) d) = dm_world d"
proof -
  have "fold (check_timer (dry_run_manager real) now) us w = w" for now us w
    by (induction us) (simp_all add: check_timer_inert)
  then show ?thesis by (simp add: check_timers_def)
qed

lemma ops_world [simp]:
  "dm_world (discover_instances m re u d) = dm_world d"
  "dm_world (reload_old m re cfg n d) = dm_world d"
  "dm_world (reload_new m p d) = dm_world d"
proof -
  have "dm_world (fold (\<lambda>n. register_unit m n u) ns d) = dm_world d" for ns
    by (rule fold_keeps [where P = "\<lambda>_. True" and w = dm_world, THEN conjunct2]) (simp_all add: register_unit_facts)
  then show "dm_world (discover_instances m re u d) = dm_world d"
    by (simp add: discover_instances_def split: sum.split)
qed (simp_all add: reload_old_def reload_new_def update_unit_facts register_unit_facts unregister_unit_facts
    split: option.split prod.split)

lemma fold_world: "(\<And>x d. dm_world (f x d) = dm_world d) \<Longrightarrow> dm_world (fold f xs d) = dm_world d"
  by (induction xs arbitrary: d) simp_all

lemma reload_world: "dm_world (reload m re ord_new loaded d) = dm_world d"
proof (cases loaded)
  case (Inl err)
  then show ?thesis by (simp add: reload_def)
next
  case (Inr cfg)
  have "dm_world (reload_units m re ord_new cfg e) = dm_world e" for e
    by (simp add: reload_units_def Let_def fold_world)
  then show ?thesis by (simp add: reload_def Inr Let_def)
qed

lemma job_step_inert: "dm_world (job_step (dry_run_manager real) i d) = dm_world d"
  by (simp add: job_step_def dry_run.restart_inert on_rs_def split: option.split)

lemma request_inert: "dm_world (snd (process_request (dry_run_manager real) err_text sockets r d)) = dm_world d"
  by (simp add: process_request_def Let_def unit_action_inert dry_run.start_inert dry_run.stop_inert
      dry_run.restart_inert split: option.split)

lemma loops_world [simp]:
  "dm_world (discovery_loop_turn m re tick d) = dm_world d" "dm_world (start_loops d) = dm_world d"
  "dm_world (timer_loop_turn (dry_run_manager real) tick d) = dm_world d"
  "dm_world (start_unit m re u d) = dm_world d"
  by (simp_all add: discovery_loop_turn_def discovery_tick_def discovery_reset_def fold_world start_loops_def
      timer_loop_turn_def check_timers_inert timer_reset_def start_unit_def register_unit_facts Let_def)

text \<open>What happens to the outside world on its own, in a run of the daemon.\<close>

fun outside_world :: "'w \<Rightarrow> ('w, 'x) main_event list \<Rightarrow> 'w" where
  "outside_world w [] = w"
| "outside_world w (MainWorld v # es) = outside_world v es"
| "outside_world w (e # es) = outside_world w es"

lemma dry_run_world:
  "dm_world (main_run (wire True real) err_text re ord_new es d) = outside_world (dm_world d) es"
proof (induction es arbitrary: d)
  case Nil
  then show ?case by (simp add: main_run_def)
next
  case (Cons e es)
  have "dm_world (main_step (wire True real) err_text re ord_new e d) =
      (case e of MainWorld w \<Rightarrow> w | _ \<Rightarrow> dm_world d)"
  proof (cases e)
    case (MainLoop i)
    then show ?thesis by (cases i) (simp_all add: main_step_def event_step_def reload_world)
  qed (simp_all add: main_step_def wire_manager watch_def unwatch_def run_calls_def watch_enter_def unwatch_enter_def Let_def
      job_step_inert request_inert
      controller_start_def controller_stop_def dry_run.start_inert dry_run.stop_inert on_rs_def split: option.split)
  then show ?case using Cons by (cases e) (simp_all add: main_run_def)
qed

text \<open>C35. A dry run changes nothing. In a daemon started in dry-run mode, whatever then happens in whatever
  order (events, reloads, discoveries, timer checks, restart goroutines with their cascades, the
  activators starting and stopping backends, requests on the control socket), the system is at every
  point as the outside world left it: neither the daemon nor the restarter nor the activators act on
  it. What the daemon reads is the real system, and a restart asked for is answered as done.\<close>

theorem dry_run_changes_nothing:
  assumes "daemon_start real True re env environ now loaded w = Inr d"
  shows "dm_world (main_run (wire True real) err_text re ord_new es d) = outside_world w es
    \<and> mg_unit_state (wi_daemon (wire True real)) = mg_unit_state real
    \<and> mg_last_trigger (wi_daemon (wire True real)) = mg_last_trigger real
    \<and> mg_list_units (wi_daemon (wire True real)) = mg_list_units real
    \<and> fst (process_request (wi_daemon (wire True real)) err_text sockets
        \<lparr>rq_command = ''restart'', rq_unit_name = CHR ''u'' # u\<rparr> e) = ok_response NoData"
proof -
  obtain cfg where "loaded = Inr cfg" using assms by (cases loaded) (auto simp: daemon_start_def)
  then have "dm_world d = w"
    using assms by (auto simp: daemon_start_def Let_def go_error fold_world sd_message_def daemon_new_def)
  moreover have "fst (process_request (dry_run_manager real) err_text sockets
        \<lparr>rq_command = ''restart'', rq_unit_name = CHR ''u'' # u\<rparr> e) = ok_response NoData"
    by (simp add: process_request_def unit_action_def dry_run.restart_inert)
  ultimately show ?thesis by (simp add: dry_run_world wire_manager dry_run_manager_def)
qed

text \<open>A manager over a counter of the actions it has performed, and a run that would restart a unit.\<close>

definition counting_manager :: "(nat, string) manager" where
  "counting_manager =
     \<lparr>mg_start = (\<lambda>u n. (None, Suc n)), mg_stop = (\<lambda>u n. (None, Suc n)), mg_restart = (\<lambda>u n. (None, Suc n)),
      mg_unit_state = (\<lambda>u n. Inl ''no bus''), mg_last_trigger = (\<lambda>u n. Inl ''no bus''),
      mg_list_units = (\<lambda>p n. Inr [])\<rparr>"

definition restarting_run :: "(nat, string) main_event list" where
  "restarting_run =
     [MainLoop (StateChangeArrives \<lparr>ch_unit_name = ''web.service'', ch_active_state = ''failed'', ch_sub_state = ''failed''\<rparr>),
      MainJob 0, MainTick 10000000000, MainJob 0, MainJob 0, MainStart ''api.service'', MainStop ''api.service'']"

definition counting_start :: "bool \<Rightarrow> nat daemon" where
  "counting_start dry = (case daemon_start counting_manager dry (\<lambda>re s. True) open_listeners [] 0
     (Inr (config_of [sample_web])) 0 of Inr d \<Rightarrow> d)"

lemma same_run_acts:
  "dm_world (main_run (wire False counting_manager) id (\<lambda>re s. True) id restarting_run (counting_start False)) = 3"
  by (simp add: restarting_run_def main_run_def main_step_def wire_manager event_step_def counting_start_def
      daemon_start_def start_listeners_def open_listeners_def http_enabled_def counting_manager_def d_eval
      start_unit_def is_enabled_def unit_name_def register_unit_def run_calls_def start_loops_def
      has_discoverable_units_def has_timer_monitoring_def bind_err_def controller_start_def controller_stop_def
      job_step_def state_changed_def update_state_def emit_def Let_def sd_message_def fresh_status_def rs_eval)

theorem dry_run_changes_nothing_witness:
  "dm_world (main_run (wire False counting_manager) id (\<lambda>re s. True) id restarting_run (counting_start False)) = 3
   \<and> dm_world (main_run (wire True counting_manager) id (\<lambda>re s. True) id restarting_run (counting_start True)) = 0"
proof
  show "dm_world (main_run (wire False counting_manager) id (\<lambda>re s. True) id restarting_run (counting_start False)) = 3"
    by (rule same_run_acts)
  have "daemon_start counting_manager True (\<lambda>re s. True) open_listeners [] 0 (Inr (config_of [sample_web])) 0
      = Inr (counting_start True)"
    by (simp add: daemon_start_def wire_manager start_listeners_def open_listeners_def counting_start_def config_of_def http_enabled_def)
  from dry_run_changes_nothing [OF this, where err_text = id and ord_new = id and es = restarting_run, THEN conjunct1]
  show "dm_world (main_run (wire True counting_manager) id (\<lambda>re s. True) id restarting_run (counting_start True)) = 0"
    by (simp add: restarting_run_def)
qed

text \<open>What the health endpoint answers about a daemon.\<close>

definition health_of :: "'w daemon \<Rightarrow> http_reply" where
  "health_of d = serve (rs_sm (dm_rs d)) (critical_units d) True (format_rfc3339 (rs_now (dm_rs d))) ''/health'' ''GET''"

lemma health_of_code:
  "rp_code (health_of d) = (if \<forall>u \<in> gm_keys (dm_critical d). serving (rs_sm (dm_rs d)) u then 200 else 503)"
  by (simp add: health_of_def serve_def handle_health_def allowed_method_def write_json_def all_healthy_critical
      Let_def critical_units_def gm_keys_def)

lemma reset_serving [simp]: "serving (reset_restart_count u sm) v = serving sm v"
  by (auto simp: serving_def get_status_def reset_restart_count_def split: option.splits)

lemma handle_event_serving [simp]: "serving (rs_sm (handle_event ev s)) v = serving (rs_sm s) v"
  by (simp add: handle_event_def should_restart_def Let_def split: option.split event_type.split if_splits)

lemma dispatch_serving [simp]: "serving (rs_sm (dm_rs (dispatch evs d))) v = serving (rs_sm (dm_rs d)) v"
  by (induction evs d rule: dispatch.induct) (simp_all add: on_rs_def)

lemma serving_changed:
  "serving (rs_sm (dm_rs (health_changed u h d))) v = serving (fst (update_health (rs_now (dm_rs d)) u h (rs_sm (dm_rs d)))) v"
  "serving (rs_sm (dm_rs (state_changed u a b d))) v = serving (fst (update_state (rs_now (dm_rs d)) u a b (rs_sm (dm_rs d)))) v"
  by (simp_all add: health_changed_def state_changed_def with_sm_def split: prod.split)

lemma serving_update:
  "\<not> serving (fst (update_health now u False sm)) u"
  "a \<noteq> ''active'' \<Longrightarrow> \<not> serving (fst (update_state now u a b sm)) u"
  "v \<noteq> u \<Longrightarrow> serving (fst (update_health now v h sm)) u = serving sm u"
  by (auto simp: update_health_def update_state_def serving_def get_status_def Let_def split: option.split)

lemma critical_failure_turns_health_down_parts:
  assumes "u \<in> gm_keys (dm_critical d)"
  shows "rp_code (health_of (health_changed u False d)) = 503"
    and "active \<noteq> ''active'' \<Longrightarrow> rp_code (health_of (state_changed u active sub d)) = 503"
    and "v \<noteq> u \<Longrightarrow> \<not> serving (rs_sm (dm_rs d)) u \<Longrightarrow> rp_code (health_of (health_changed v h d)) = 503"
proof -
  note eval = health_of_code serving_changed serving_update
  show "rp_code (health_of (health_changed u False d)) = 503"
    using assms by (auto simp: eval intro!: bexI [of _ u])
  show "rp_code (health_of (state_changed u active sub d)) = 503" if "active \<noteq> ''active''"
    using that assms by (auto simp: eval intro!: bexI [of _ u])
  show "rp_code (health_of (health_changed v h d)) = 503" if "v \<noteq> u" "\<not> serving (rs_sm (dm_rs d)) u"
    using that assms by (auto simp: eval intro!: bexI [of _ u])
qed

text \<open>C24. The health endpoint follows the monitoring: once a failed check or a state other than active of a
  supervised critical unit has been taken in, \<^verbatim>\<open>/health\<close> answers 503, whatever the handlers of the
  event do; and a health result about one unit never changes the answer to 200 while another critical
  unit is down.\<close>

theorem critical_failure_turns_health_down:
  assumes "u \<in> gm_keys (dm_critical d)"
  shows "rp_code (health_of (health_changed u False d)) = 503
    \<and> (active \<noteq> ''active'' \<longrightarrow> rp_code (health_of (state_changed u active sub d)) = 503)
    \<and> (v \<noteq> u \<longrightarrow> \<not> serving (rs_sm (dm_rs d)) u \<longrightarrow> rp_code (health_of (health_changed v h d)) = 503)"
  using critical_failure_turns_health_down_parts [OF assms] by (intro conjI impI)

definition critical_web :: "unit daemon" where
  "critical_web = (ds_daemon watched_web)\<lparr>dm_critical := [(''web.service'', ())]\<rparr>"

theorem critical_failure_turns_health_down_witness:
  "rp_code (health_of (health_changed ''web.service'' False critical_web)) = 503
   \<and> rp_code (health_of (state_changed ''web.service'' ''failed'' ''failed'' critical_web)) = 503
   \<and> rp_code (health_of (health_changed ''db.service'' True critical_web)) = 503"
proof -
  have crit: "''web.service'' \<in> gm_keys (dm_critical critical_web)"
    by (simp add: critical_web_def gm_keys_def)
  have "\<not> serving (rs_sm (dm_rs critical_web)) ''web.service''"
    by (simp add: critical_web_def watched_web_def d_eval serving_def get_status_def fresh_status_def)
  then show ?thesis
    using critical_failure_turns_health_down [OF crit, of "''failed''" "''failed''" "''db.service''" True] by simp
qed

text \<open>
  Put together with the socket activation: when the backend of a socket-activation entry is also a
  critical supervised unit, its idle stop takes its status away for good, and the endpoint answers 503
  whatever is observed of the unit afterwards.
\<close>

lemma unwatch_turns_health_down:
  assumes "map_of (dm_monitors d) u = Some c" and "u \<in> gm_keys (dm_critical d)"
  shows "rp_code (health_of (state_changed u ''active'' sub (unwatch m u d))) = 503"
proof -
  let ?d = "unwatch m u d"
  have none: "get_status (rs_sm (dm_rs ?d)) u = None" by (rule unwatch_forgets_supervised_unit(2) [OF assms(1)])
  have crit: "u \<in> gm_keys (dm_critical ?d)" using assms by (simp add: unwatch_def unwatch_enter_def)
  have "\<not> serving (rs_sm (dm_rs (state_changed u ''active'' sub ?d))) u"
    using none unfolding serving_changed(2)
    by (simp add: update_state_def get_status_def serving_def)
  with crit show ?thesis by (auto simp: health_of_code)
qed

end
